(* ===== verification/Prelude.thy ===== *)
theory Prelude
  imports Main "HOL-Library.Word" "HOL-Library.Monad_Syntax"
begin

unbundle bit_operations_syntax

text \<open>
  Shared ground of the development: the machine types of the C runtime (an LP64,
  little-endian target), the failures a C function of the model can end in, the
  allocator a function may be handed, and generic lemmas on lists and words that the
  component theories share.
\<close>

section \<open>Machine types\<close>

text \<open>\<open>size_t\<close>, \<open>uintptr_t\<close>, \<open>uint64_t\<close> and untyped pointers are 64-bit words;
  arithmetic on them wraps as in C.\<close>

type_synonym u8 = "8 word"
type_synonym u16 = "16 word"
type_synonym u32 = "32 word"
type_synonym u64 = "64 word"
type_synonym ptr = "64 word"

abbreviation NULL :: ptr where
  "NULL \<equiv> 0"

section \<open>Outcomes\<close>

text \<open>
  A modelled C function returns \<open>Inr\<close> of its result, or \<open>Inl\<close> of the way it fails:
  it does not return, accesses memory out of bounds, writes through the NULL of a failed
  allocation, fails a live assertion or aborts, or raises a Julia exception (named by its type and message).
\<close>

datatype c_error =
    Diverges
  | OutOfBounds
  | NullWrite
  | AssertFailed
  | JlThrow string string

type_synonym 'a result = "c_error + 'a"

definition returns :: "'a option \<Rightarrow> 'a result" where
  "returns x = (case x of None \<Rightarrow> Inl Diverges | Some y \<Rightarrow> Inr y)"

definition rbind :: "'a result \<Rightarrow> ('a \<Rightarrow> 'b result) \<Rightarrow> 'b result" where
  "rbind x f = (case x of Inl e \<Rightarrow> Inl e | Inr y \<Rightarrow> f y)"

lemma rbind_simps [simp]:
  "rbind (Inl e) f = Inl e"
  "rbind (Inr y) f = f y"
  by (simp_all add: rbind_def)

text \<open>Array accesses checked against the extent of the array.\<close>

definition rget :: "'a list \<Rightarrow> nat \<Rightarrow> 'a result" where
  "rget xs i = (if i < length xs then Inr (xs ! i) else Inl OutOfBounds)"

definition rset :: "'a list \<Rightarrow> nat \<Rightarrow> 'a \<Rightarrow> 'a list result" where
  "rset xs i v = (if i < length xs then Inr (xs[i := v]) else Inl OutOfBounds)"

definition assert_that :: "bool \<Rightarrow> unit result" where
  "assert_that b = (if b then Inr () else Inl AssertFailed)"

lemma rget_in [simp]: "i < length xs \<Longrightarrow> rget xs i = Inr (xs ! i)"
  by (simp add: rget_def)

lemma rset_in [simp]: "i < length xs \<Longrightarrow> rset xs i v = Inr (xs[i := v])"
  by (simp add: rset_def)

lemma assert_that_simps [simp]:
  "assert_that True = Inr ()"
  "assert_that False = Inl AssertFailed"
  by (simp_all add: assert_that_def)

lemma rbind_cong [fundef_cong]:
  "x = y \<Longrightarrow> (\<And>z. y = Inr z \<Longrightarrow> f z = g z) \<Longrightarrow> rbind x f = rbind y g"
  by (cases y) auto

lemma rbind_eq_Inr_iff:
  "rbind x f = Inr z \<longleftrightarrow> (\<exists>y. x = Inr y \<and> f y = Inr z)"
  by (cases x) auto

lemma returns_simps [simp]:
  "returns None = Inl Diverges"
  "returns (Some y) = Inr y"
  by (simp_all add: returns_def)

section \<open>Stacks\<close>

text \<open>
  The contract of a growable stack: within its capacity a push appends, and a pop of a
  non-empty stack takes the last element away.  \<open>push_all\<close> and \<open>pop_all\<close> drive an
  implementation through a sequence of calls.
\<close>

fun push_all :: "('s \<Rightarrow> 'a \<Rightarrow> 's result) \<Rightarrow> 's \<Rightarrow> 'a list \<Rightarrow> 's result" where
  "push_all push s [] = Inr s"
| "push_all push s (x # xs) = rbind (push s x) (\<lambda>s. push_all push s xs)"

fun pop_all :: "('s \<Rightarrow> ('a \<times> 's) result) \<Rightarrow> nat \<Rightarrow> 's \<Rightarrow> ('a list \<times> 's) result" where
  "pop_all pop 0 s = Inr ([], s)"
| "pop_all pop (Suc n) s =
     rbind (pop s) (\<lambda>(x, s). rbind (pop_all pop n s) (\<lambda>(xs, s). Inr (x # xs, s)))"

locale bounded_stack =
  fixes push :: "'s \<Rightarrow> 'a \<Rightarrow> 's result"
    and pop :: "'s \<Rightarrow> ('a \<times> 's) result"
    and abs_list :: "'s \<Rightarrow> 'a list"
    and invar :: "'s \<Rightarrow> bool"
    and capacity :: nat
  assumes push_law: "invar s \<Longrightarrow> length (abs_list s) < capacity \<Longrightarrow>
      \<exists>s'. push s x = Inr s' \<and> invar s' \<and> abs_list s' = abs_list s @ [x]"
    and pop_law: "invar s \<Longrightarrow> abs_list s \<noteq> [] \<Longrightarrow>
      \<exists>s'. pop s = Inr (last (abs_list s), s') \<and> invar s' \<and> abs_list s' = butlast (abs_list s)"
begin

lemma push_all_ok:
  assumes "invar s" "length (abs_list s) + length xs \<le> capacity"
  shows "\<exists>s'. push_all push s xs = Inr s' \<and> invar s' \<and> abs_list s' = abs_list s @ xs"
  using assms
proof (induction xs arbitrary: s)
  case (Cons x xs)
  then obtain s1 where s1: "push s x = Inr s1" "invar s1" "abs_list s1 = abs_list s @ [x]"
    using push_law [of s x] by auto
  then show ?case using Cons.IH [of s1] Cons.prems by auto
qed simp

lemma pop_all_ok:
  assumes "invar s" "abs_list s = ys @ xs"
  shows "\<exists>s'. pop_all pop (length xs) s = Inr (rev xs, s') \<and> invar s' \<and> abs_list s' = ys"
  using assms
proof (induction xs arbitrary: s rule: rev_induct)
  case (snoc x xs)
  then obtain s1 where s1: "pop s = Inr (x, s1)" "invar s1" "abs_list s1 = ys @ xs"
    using pop_law [of s] by (auto simp: butlast_append)
  then show ?case using snoc.IH [of s1] by auto
qed auto

lemma lifo:
  assumes "invar s" "length (abs_list s) + length xs \<le> capacity"
  shows "\<exists>s' s''. push_all push s xs = Inr s' \<and> abs_list s' = abs_list s @ xs \<and>
           pop_all pop (length xs) s' = Inr (rev xs, s'') \<and> abs_list s'' = abs_list s"
proof -
  obtain s' where "push_all push s xs = Inr s'" "invar s'" "abs_list s' = abs_list s @ xs"
    using push_all_ok [OF assms] by blast
  then show ?thesis using pop_all_ok [of s' "abs_list s" xs] by blast
qed

end

section \<open>The allocator\<close>

text \<open>
  \<open>malloc\<close> and \<open>realloc\<close> are code outside the repository: whether a request of so many
  bytes succeeds, and what the fresh cells hold, are parameters.  A buffer of pointers has
  as many cells as whole pointers fit in the byte count that was requested, after the
  multiplication by \<open>sizeof(void*)\<close> has wrapped.
\<close>

record heap_env =
  alloc_ok :: "u64 \<Rightarrow> bool"
  junk :: "nat \<Rightarrow> ptr"

definition alloc_cells :: "heap_env \<Rightarrow> u64 \<Rightarrow> ptr list option" where
  "alloc_cells E bytes =
     (if alloc_ok E bytes then Some (map (junk E) [0 ..< unat bytes div 8]) else None)"

definition realloc_cells :: "heap_env \<Rightarrow> ptr list \<Rightarrow> u64 \<Rightarrow> ptr list option" where
  "realloc_cells E old bytes =
     (if alloc_ok E bytes
      then Some (take (unat bytes div 8) old @
                 map (junk E) [length old ..< unat bytes div 8])
      else None)"

section \<open>Generic lemmas\<close>

named_theorems unat_simps \<open>unsigned value of word expressions that do not wrap\<close>

lemma unat_add_lt [unat_simps]:
  fixes a b :: "'a::len word"
  shows "unat a + unat b < 2 ^ LENGTH('a) \<Longrightarrow> unat (a + b) = unat a + unat b"
  by (simp add: unat_word_ariths)

lemma unat_mult_lt [unat_simps]:
  fixes a b :: "'a::len word"
  shows "unat a * unat b < 2 ^ LENGTH('a) \<Longrightarrow> unat (a * b) = unat a * unat b"
  by (simp add: unat_word_ariths)

lemma unat_sub_le [unat_simps]:
  fixes a b :: "'a::len word"
  shows "unat b \<le> unat a \<Longrightarrow> unat (a - b) = unat a - unat b"
  by (simp add: unat_sub_if')

lemma unat_pred [unat_simps]:
  fixes a :: "'a::len word"
  shows "a \<noteq> 0 \<Longrightarrow> unat (a - 1) = unat a - 1"
  by (simp add: unat_minus_one)

lemma unat_ucast_small [unat_simps]:
  fixes w :: "'a::len word"
  shows "unat w < 2 ^ LENGTH('b) \<Longrightarrow> unat (ucast w :: 'b::len word) = unat w"
  by (simp add: unsigned_ucast_eq take_bit_nat_eq_self_iff)

lemma unat_of_nat_small [unat_simps]:
  "n < 2 ^ LENGTH('a) \<Longrightarrow> unat (of_nat n :: 'a::len word) = n"
  by (simp add: unsigned_of_nat take_bit_nat_eq_self_iff)

lemma and_1_eq_0: "(w :: 'a::len word) AND 1 = 0 \<longleftrightarrow> \<not> bit w 0"
  by (simp add: and_one_eq bit_0 even_iff_mod_2_eq_zero)

lemma scast_ucast_small:
  fixes w :: u64
  assumes "unat w < 2 ^ 31"
  shows "scast (ucast w :: u32) = w"
proof -
  have "uint w < 2 ^ 31"
    using of_nat_less_iff [where 'a = int, of "unat w" "2 ^ 31"] assms by simp
  then have "sint (ucast w :: u32) = uint w"
    using signed_take_bit_int_eq_self [of 31 "uint w"] order_trans [of "- (2 ^ 31)" 0 "uint w"]
    by (simp add: signed_ucast_eq)
  then show ?thesis by (simp add: scast_eq)
qed

lemma length_alloc_cells:
  "alloc_cells E bytes = Some b \<Longrightarrow> length b = unat bytes div 8"
  by (auto simp: alloc_cells_def split: if_splits)

lemma length_realloc_cells:
  "realloc_cells E old bytes = Some b \<Longrightarrow> length b = unat bytes div 8"
  by (auto simp: realloc_cells_def split: if_splits)

lemma take_realloc_cells:
  "realloc_cells E old bytes = Some b \<Longrightarrow> n \<le> length old \<Longrightarrow> n \<le> unat bytes div 8 \<Longrightarrow>
   take n b = take n old"
  by (auto simp: realloc_cells_def min_def split: if_splits)

lemma take_Suc_list_update:
  "n < length xs \<Longrightarrow> take (Suc n) (xs[n := x]) = take n xs @ [x]"
  by (simp add: take_Suc_conv_app_nth)

end
