(* ===== verification/ArrayList.thy ===== *)
theory ArrayList
  imports Prelude
begin

text \<open>
  The growable pointer array of \<open>src/support/arraylist.c\<close>, in its two sizes
  (\<open>arraylist_t\<close> with 29 inline cells and \<open>small_arraylist_t\<close> with 5).  The record keeps
  the C fields: \<open>items\<close> either points at the inline \<open>_space\<close>, at a heap block, or is
  \<open>NULL\<close> after a failed allocation.  The lemmas show that the array is a stack of
  pointers as long as the allocator succeeds, and what a failing allocator does to it.
\<close>

section \<open>Definitions\<close>

datatype al_store = Null | Inline | Heap "ptr list"

record arraylist =
  al_len :: u64
  al_max :: u64
  al_items :: al_store
  al_space :: "ptr list"

definition AL_N_INLINE :: u64 where
  "AL_N_INLINE = 29"

definition SMALL_AL_N_INLINE :: u64 where
  "SMALL_AL_N_INLINE = 5"

definition al_buf :: "arraylist \<Rightarrow> ptr list" where
  "al_buf a = (case al_items a of Null \<Rightarrow> [] | Inline \<Rightarrow> al_space a | Heap b \<Rightarrow> b)"

definition al_store_at :: "arraylist \<Rightarrow> u64 \<Rightarrow> ptr \<Rightarrow> arraylist result" where
  "al_store_at a i v =
     (if unat i < length (al_buf a)
      then (case al_items a of
              Null \<Rightarrow> Inl OutOfBounds
            | Inline \<Rightarrow> Inr (a\<lparr>al_space := (al_space a)[unat i := v]\<rparr>)
            | Heap b \<Rightarrow> Inr (a\<lparr>al_items := Heap (b[unat i := v])\<rparr>))
      else Inl OutOfBounds)"

definition al_load :: "arraylist \<Rightarrow> u64 \<Rightarrow> ptr result" where
  "al_load a i =
     (if unat i < length (al_buf a) then Inr (al_buf a ! unat i) else Inl OutOfBounds)"

text \<open>The constructors share their text but for the inline capacity \<open>n_inline\<close>; the boolean
  result is whether the C function returns \<open>a\<close> rather than \<open>NULL\<close>.\<close>

definition al_new_with :: "u64 \<Rightarrow> heap_env \<Rightarrow> arraylist \<Rightarrow> u64 \<Rightarrow> arraylist \<times> bool" where
  "al_new_with n_inline E a sz =
     (let a = a\<lparr>al_len := 0\<rparr> in
      if sz \<le> n_inline then (a\<lparr>al_items := Inline, al_max := n_inline\<rparr>, True)
      else (case alloc_cells E (sz * 8) of
              None \<Rightarrow> (a\<lparr>al_items := Null\<rparr>, False)
            | Some b \<Rightarrow> (a\<lparr>al_items := Heap b, al_max := sz\<rparr>, True)))"

definition arraylist_new :: "heap_env \<Rightarrow> arraylist \<Rightarrow> u64 \<Rightarrow> arraylist \<times> bool" where
  "arraylist_new E a sz = al_new_with AL_N_INLINE E a sz"

definition arraylist_free :: "arraylist \<Rightarrow> arraylist" where
  "arraylist_free a = a\<lparr>al_len := 0, al_max := AL_N_INLINE, al_items := Inline\<rparr>"

text \<open>\<open>while (newlen > nm) nm *= 2;\<close> on 64-bit words: \<open>None\<close> when it runs forever.\<close>

partial_function (option) al_double :: "u64 \<Rightarrow> u64 \<Rightarrow> u64 option" where
  "al_double newlen nm = (if newlen > nm then al_double newlen (nm * 2) else Some nm)"

definition arraylist_grow :: "heap_env \<Rightarrow> arraylist \<Rightarrow> u64 \<Rightarrow> arraylist result" where
  "arraylist_grow E a n =
     (let newlen = al_len a + n in
      if newlen > al_max a then
        (if al_items a = Inline then
           (case alloc_cells E ((al_len a + n) * 8) of
              None \<Rightarrow> Inr a
            | Some p \<Rightarrow>
                (let p = take (unat (al_len a)) (al_space a) @ drop (unat (al_len a)) p in
                 Inr (a\<lparr>al_items := Heap p, al_max := newlen, al_len := newlen\<rparr>)))
         else
           (let nm = al_max a * 2;
                nm = (if nm = 0 then 1 else nm)
            in rbind (returns (al_double newlen nm)) (\<lambda>nm.
               case realloc_cells E (al_buf a) (nm * 8) of
                 None \<Rightarrow> Inr a
               | Some p \<Rightarrow> Inr (a\<lparr>al_items := Heap p, al_max := nm, al_len := newlen\<rparr>))))
      else Inr (a\<lparr>al_len := newlen\<rparr>))"

definition arraylist_push :: "heap_env \<Rightarrow> arraylist \<Rightarrow> ptr \<Rightarrow> arraylist result" where
  "arraylist_push E a elt =
     rbind (arraylist_grow E a 1) (\<lambda>a. al_store_at a (al_len a - 1) elt)"

definition arraylist_pop :: "arraylist \<Rightarrow> (ptr \<times> arraylist) result" where
  "arraylist_pop a =
     (if al_len a = 0 then Inr (NULL, a)
      else (let a = a\<lparr>al_len := al_len a - 1\<rparr> in
            rbind (al_load a (al_len a)) (\<lambda>p.
            rbind (al_store_at a (al_len a) NULL) (\<lambda>a. Inr (p, a)))))"

text \<open>The small variant takes 32-bit sizes and widens them.\<close>

definition small_arraylist_new :: "heap_env \<Rightarrow> arraylist \<Rightarrow> u32 \<Rightarrow> arraylist \<times> bool" where
  "small_arraylist_new E a sz = al_new_with SMALL_AL_N_INLINE E a (ucast sz)"

definition small_arraylist_free :: "arraylist \<Rightarrow> arraylist" where
  "small_arraylist_free a = a\<lparr>al_len := 0, al_max := SMALL_AL_N_INLINE, al_items := Inline\<rparr>"

definition small_arraylist_grow :: "heap_env \<Rightarrow> arraylist \<Rightarrow> u32 \<Rightarrow> arraylist result" where
  "small_arraylist_grow E a n = arraylist_grow E a (ucast n)"

definition small_arraylist_push :: "heap_env \<Rightarrow> arraylist \<Rightarrow> ptr \<Rightarrow> arraylist result" where
  "small_arraylist_push E a elt =
     rbind (small_arraylist_grow E a 1) (\<lambda>a. al_store_at a (al_len a - 1) elt)"

definition small_arraylist_pop :: "arraylist \<Rightarrow> (ptr \<times> arraylist) result" where
  "small_arraylist_pop a = arraylist_pop a"

section \<open>Abstraction and invariant\<close>

definition al_list :: "arraylist \<Rightarrow> ptr list" where
  "al_list a = take (unat (al_len a)) (al_buf a)"

definition al_inv :: "arraylist \<Rightarrow> bool" where
  "al_inv a \<longleftrightarrow> al_items a \<noteq> Null \<and> al_len a \<le> al_max a \<and> unat (al_max a) \<le> length (al_buf a)"

text \<open>Room for another element: below this length no byte count of the code wraps.\<close>

definition al_room :: "arraylist \<Rightarrow> bool" where
  "al_room a \<longleftrightarrow> unat (al_len a) < 2 ^ 58"

definition alloc_total :: "heap_env \<Rightarrow> bool" where
  "alloc_total E \<longleftrightarrow> (\<forall>n. alloc_ok E n)"

section \<open>The doubling loop terminates\<close>

lemma al_double_total:
  assumes "nm \<noteq> 0" "unat newlen \<le> 2 ^ 62"
  shows "\<exists>r. al_double newlen nm = Some r \<and> newlen \<le> r \<and>
             unat r \<le> max (unat nm) (2 * unat newlen)"
  using assms
proof (induction "2 ^ 64 - unat nm" arbitrary: nm rule: less_induct)
  case less
  show ?case
  proof (cases "newlen > nm")
    case True
    then have lt: "unat nm < unat newlen" by (simp add: word_less_nat_alt)
    then have dbl: "unat (nm * 2) = unat nm * 2"
      using less.prems by (simp add: unat_simps)
    have pos: "0 < unat nm" using less.prems(1) by (simp add: unat_gt_0)
    have nz: "nm * 2 \<noteq> 0" using dbl pos by (metis mult_is_0 unat_0 zero_neq_numeral less_numeral_extra(3))
    have dec: "2 ^ 64 - unat (nm * 2) < 2 ^ 64 - unat nm"
      using dbl pos lt less.prems(2) by (intro diff_less_mono2) auto
    obtain r where "al_double newlen (nm * 2) = Some r" "newlen \<le> r"
        "unat r \<le> max (unat (nm * 2)) (2 * unat newlen)"
      using less.hyps [OF dec nz less.prems(2)] by blast
    then show ?thesis using True dbl lt
      by (subst al_double.simps) (auto simp: max_def split: if_splits)
  next
    case False
    then show ?thesis by (subst al_double.simps) auto
  qed
qed

section \<open>Growing, pushing and popping\<close>

lemma al_buf_upd [simp]:
  "al_buf (a\<lparr>al_len := n\<rparr>) = al_buf a"
  "al_buf (a\<lparr>al_max := n\<rparr>) = al_buf a"
  by (simp_all add: al_buf_def split: al_store.split)

lemma al_list_len: "al_inv a \<Longrightarrow> length (al_list a) = unat (al_len a)"
  by (auto simp: al_inv_def al_list_def word_le_nat_alt)

lemma arraylist_grow_inline:
  assumes "al_inv a" "alloc_total E" "unat (al_len a) + unat n \<le> 2 ^ 58"
    and "al_items a = Inline" "al_len a + n > al_max a"
  shows "\<exists>a'. arraylist_grow E a n = Inr a' \<and> al_inv a' \<and> al_len a' = al_len a + n \<and>
              take (unat (al_len a)) (al_buf a') = al_list a"
proof -
  have nl: "unat (al_len a + n) = unat (al_len a) + unat n"
    using assms(3) by (simp add: unat_simps)
  have b: "unat ((al_len a + n) * 8) = (unat (al_len a) + unat n) * 8"
    using assms(3) nl by (simp add: unat_simps)
  obtain p where p: "alloc_cells E ((al_len a + n) * 8) = Some p"
    using assms(2) by (simp add: alloc_cells_def alloc_total_def)
  then have lp: "length p = unat (al_len a) + unat n"
    using length_alloc_cells b by simp
  have ls: "unat (al_len a) \<le> length (al_space a)"
    using assms(1,4) by (auto simp: al_inv_def al_buf_def word_le_nat_alt)
  show ?thesis
    using assms(4,5) p lp ls nl
    by (simp add: arraylist_grow_def Let_def al_inv_def al_buf_def al_list_def)
qed

lemma arraylist_grow_heap:
  assumes "al_inv a" "alloc_total E" "unat (al_len a) + unat n \<le> 2 ^ 58"
    and "al_items a = Heap b" "al_len a + n > al_max a"
  shows "\<exists>a'. arraylist_grow E a n = Inr a' \<and> al_inv a' \<and> al_len a' = al_len a + n \<and>
              take (unat (al_len a)) (al_buf a') = al_list a"
proof -
  define nm where "nm = (if al_max a * 2 = 0 then 1 else al_max a * 2)"
  have nl: "unat (al_len a + n) = unat (al_len a) + unat n"
    using assms(3) by (simp add: unat_simps)
  have mx: "unat (al_max a) < unat (al_len a) + unat n"
    using assms(5) nl by (simp add: word_less_nat_alt)
  have nm0: "nm \<noteq> 0" by (simp add: nm_def)
  have nmb: "unat nm \<le> 2 * (unat (al_len a) + unat n)"
    using mx assms(3) by (auto simp: nm_def unat_simps)
  obtain r where r: "al_double (al_len a + n) nm = Some r" "al_len a + n \<le> r"
      "unat r \<le> 2 * (unat (al_len a) + unat n)"
    using al_double_total [OF nm0, of "al_len a + n"] nl nmb assms(3) by auto
  have rb: "unat (r * 8) = unat r * 8"
    using r(3) assms(3) by (simp add: unat_simps)
  obtain p where p: "realloc_cells E b (r * 8) = Some p"
    using assms(2) by (simp add: realloc_cells_def alloc_total_def)
  have lp: "length p = unat r" using length_realloc_cells [OF p] rb by simp
  have le: "unat (al_len a) \<le> length b" "unat (al_len a) \<le> unat r"
    using assms(1,4) r(2) nl by (auto simp: al_inv_def al_buf_def word_le_nat_alt)
  then have tk: "take (unat (al_len a)) p = take (unat (al_len a)) b"
    using take_realloc_cells [OF p] rb by simp
  have "arraylist_grow E a n = Inr (a\<lparr>al_items := Heap p, al_max := r, al_len := al_len a + n\<rparr>)"
    using assms(4,5) r(1) p
    by (simp add: arraylist_grow_def Let_def nm_def [symmetric] al_buf_def)
  then show ?thesis
    using r(2) lp tk assms(4) by (simp add: al_inv_def al_buf_def al_list_def)
qed

lemma arraylist_grow_ok:
  assumes "al_inv a" "alloc_total E" "unat (al_len a) + unat n \<le> 2 ^ 58"
  shows "\<exists>a'. arraylist_grow E a n = Inr a' \<and> al_inv a' \<and> al_len a' = al_len a + n \<and>
              take (unat (al_len a)) (al_buf a') = al_list a"
proof (cases "al_len a + n > al_max a")
  case True
  show ?thesis
  proof (cases "al_items a")
    case Null
    then show ?thesis using assms(1) by (simp add: al_inv_def)
  next
    case Inline
    then show ?thesis using arraylist_grow_inline [OF assms _ True] by simp
  next
    case (Heap b)
    then show ?thesis using arraylist_grow_heap [OF assms _ True] by simp
  qed
next
  case False
  then have "arraylist_grow E a n = Inr (a\<lparr>al_len := al_len a + n\<rparr>)"
    by (simp add: arraylist_grow_def)
  then show ?thesis
    using assms(1) False by (simp add: al_inv_def al_list_def not_less)
qed

lemma al_store_at_buf:
  assumes "unat i < length (al_buf a)"
  shows "\<exists>a'. al_store_at a i v = Inr a' \<and> al_buf a' = (al_buf a)[unat i := v] \<and>
              al_len a' = al_len a \<and> al_max a' = al_max a \<and> (al_items a' = Null \<longleftrightarrow> al_items a = Null)"
  using assms by (auto simp: al_store_at_def al_buf_def split: al_store.splits)

lemma arraylist_push_ok:
  assumes "al_inv a" "alloc_total E" "al_room a"
  shows "\<exists>a'. arraylist_push E a x = Inr a' \<and> al_inv a' \<and> al_list a' = al_list a @ [x]"
proof -
  have bnd: "unat (al_len a) + unat (1 :: u64) \<le> 2 ^ 58"
    using assms(3) by (simp add: al_room_def)
  obtain a1 where g: "arraylist_grow E a 1 = Inr a1" "al_inv a1" "al_len a1 = al_len a + 1"
      "take (unat (al_len a)) (al_buf a1) = al_list a"
    using arraylist_grow_ok [OF assms(1,2) bnd] by blast
  have l1: "unat (al_len a1) = Suc (unat (al_len a))"
    using g(3) bnd by (simp add: unat_simps)
  have i: "unat (al_len a1 - 1) = unat (al_len a)" using g(3) by simp
  have inb: "unat (al_len a) < length (al_buf a1)"
    using g(2) l1 by (auto simp: al_inv_def word_le_nat_alt)
  obtain a2 where s: "al_store_at a1 (al_len a1 - 1) x = Inr a2"
      "al_buf a2 = (al_buf a1)[unat (al_len a) := x]" "al_len a2 = al_len a1" "al_max a2 = al_max a1"
      "al_items a2 = Null \<longleftrightarrow> al_items a1 = Null"
    using al_store_at_buf [of "al_len a1 - 1" a1 x] inb i by auto
  have "al_inv a2" using s g(2) by (simp add: al_inv_def)
  moreover have "al_list a2 = al_list a @ [x]"
    using s l1 inb g(4) by (simp add: al_list_def take_Suc_list_update)
  ultimately show ?thesis using g(1) s(1) by (simp add: arraylist_push_def)
qed

lemma arraylist_pop_ok:
  assumes "al_inv a" "al_list a \<noteq> []"
  shows "\<exists>a'. arraylist_pop a = Inr (last (al_list a), a') \<and> al_inv a' \<and>
              al_list a' = butlast (al_list a)"
proof -
  have ln: "length (al_list a) = unat (al_len a)" using al_list_len [OF assms(1)] .
  have nz: "al_len a \<noteq> 0" using assms(2) ln by (auto simp: unat_gt_0)
  define n where "n = unat (al_len a) - 1"
  have ul: "unat (al_len a - 1) = n" using nz by (simp add: n_def unat_simps)
  have sl: "unat (al_len a) = Suc n"
    using nz ul by (simp add: n_def unat_gt_0)
  have bl: "Suc n \<le> length (al_buf a)" "unat (al_len a) \<le> unat (al_max a)"
      "unat (al_max a) \<le> length (al_buf a)" "al_items a \<noteq> Null"
    using assms(1) sl by (auto simp: al_inv_def word_le_nat_alt)
  define a1 where "a1 = a\<lparr>al_len := al_len a - 1\<rparr>"
  have b1: "al_buf a1 = al_buf a" by (simp add: a1_def)
  obtain a2 where s: "al_store_at a1 (al_len a1) NULL = Inr a2"
      "al_buf a2 = (al_buf a)[n := NULL]" "al_len a2 = al_len a - 1" "al_max a2 = al_max a"
      "al_items a2 = Null \<longleftrightarrow> al_items a = Null"
    using al_store_at_buf [of "al_len a1" a1 NULL] bl ul b1 by (auto simp: a1_def)
  have ld: "al_load a1 (al_len a1) = Inr (al_buf a ! n)"
    using bl ul b1 by (simp add: al_load_def a1_def)
  have lst: "last (al_list a) = al_buf a ! n"
    using bl sl by (simp add: al_list_def take_Suc_conv_app_nth)
  have "al_inv a2"
    using s ul sl bl by (simp add: al_inv_def word_le_nat_alt)
  moreover have "al_list a2 = butlast (al_list a)"
    using s ul sl bl by (simp add: al_list_def butlast_take)
  ultimately show ?thesis
    using nz ld s(1) lst by (simp add: arraylist_pop_def Let_def a1_def)
qed

section \<open>The stack contract\<close>

lemma small_arraylist_push_eq: "small_arraylist_push E a x = arraylist_push E a x"
  by (simp add: small_arraylist_push_def small_arraylist_grow_def arraylist_push_def)

interpretation al: bounded_stack "arraylist_push E" arraylist_pop al_list
    "\<lambda>a. al_inv a \<and> alloc_total E" "2 ^ 58" for E
  by unfold_locales (auto simp: al_room_def al_list_len intro: arraylist_push_ok dest: arraylist_pop_ok)

interpretation small_al: bounded_stack "small_arraylist_push E" small_arraylist_pop al_list
    "\<lambda>a. al_inv a \<and> alloc_total E" "2 ^ 58" for E
  using al.push_law al.pop_law
  by unfold_locales (auto simp: small_arraylist_push_eq small_arraylist_pop_def)

lemma arraylist_new_inv:
  assumes "length (al_space a) = unat n_inline" "alloc_total E" "unat n < 2 ^ 61"
  shows "al_inv (fst (al_new_with n_inline E a n)) \<and>
         al_list (fst (al_new_with n_inline E a n)) = []"
proof (cases "n \<le> n_inline")
  case True
  then show ?thesis using assms(1)
    by (simp add: al_new_with_def Let_def al_inv_def al_buf_def al_list_def)
next
  case False
  obtain b where b: "alloc_cells E (n * 8) = Some b"
    using assms(2) by (simp add: alloc_cells_def alloc_total_def)
  have "length b = unat n"
    using length_alloc_cells [OF b] assms(3) by (simp add: unat_simps)
  then show ?thesis using False b
    by (simp add: al_new_with_def Let_def al_inv_def al_buf_def al_list_def)
qed

text \<open>
  C4: a fresh \<open>arraylist_t\<close> is a last-in first-out stack: any sequence of pushes (up to
  \<open>2 ^ 58\<close> elements, so that no byte count wraps) through every reallocation keeps the
  elements in order, and as many pops return them in reverse.
\<close>

theorem arraylist_lifo:
  assumes "length (al_space a) = 29" "alloc_total E" "unat n < 2 ^ 61" "length xs \<le> 2 ^ 58"
  shows "\<exists>s' s''. push_all (arraylist_push E) (fst (arraylist_new E a n)) xs = Inr s' \<and>
           al_list s' = xs \<and> pop_all arraylist_pop (length xs) s' = Inr (rev xs, s'') \<and>
           al_list s'' = []"
proof -
  have "al_inv (fst (arraylist_new E a n)) \<and> al_list (fst (arraylist_new E a n)) = []"
    unfolding arraylist_new_def
    by (rule arraylist_new_inv) (use assms in \<open>simp_all add: AL_N_INLINE_def\<close>)
  then show ?thesis using al.lifo [of "fst (arraylist_new E a n)" E xs] assms(2,4) by simp
qed

definition sample_env :: heap_env where
  "sample_env = \<lparr>alloc_ok = (\<lambda>_. True), junk = (\<lambda>_. 0)\<rparr>"

definition sample_al :: arraylist where
  "sample_al = \<lparr>al_len = 0, al_max = 0, al_items = Null, al_space = replicate 29 0\<rparr>"

theorem arraylist_lifo_witness:
  "\<exists>s' s''. push_all (arraylist_push sample_env) (fst (arraylist_new sample_env sample_al 0)) [7, 8] = Inr s' \<and>
     al_list s' = [7, 8] \<and> pop_all arraylist_pop (length [7, 8 :: ptr]) s' = Inr (rev [7, 8], s'') \<and>
     al_list s'' = []"
  by (rule arraylist_lifo) (simp_all add: sample_al_def sample_env_def alloc_total_def)

text \<open>
  C5: \<open>arraylist_push\<close> does not notice that \<open>arraylist_grow\<close> failed: on a full array
  and an allocator that is out of memory it overwrites the newest element instead of
  appending, and reports nothing.
\<close>

theorem arraylist_push_out_of_memory:
  assumes "al_inv a" "al_len a = al_max a" "al_list a \<noteq> []" "unat (al_len a) < 2 ^ 58"
    and "\<And>n. \<not> alloc_ok E n"
  shows "\<exists>a'. arraylist_push E a x = Inr a' \<and> al_list a' = butlast (al_list a) @ [x]"
proof -
  have nz: "al_len a \<noteq> 0"
    using assms(3) al_list_len [OF assms(1)] by (auto simp: unat_gt_0)
  define n where "n = unat (al_len a) - 1"
  have ln: "unat (al_len a) = Suc n" "unat (al_len a - 1) = n"
    using nz by (simp_all add: n_def unat_simps unat_gt_0)
  have gt: "al_len a + 1 > al_max a"
    using assms(2,4) by (simp add: word_less_nat_alt unat_simps)
  have nm: "(if al_max a * 2 = 0 then 1 else al_max a * 2) \<noteq> (0 :: u64)" by simp
  have nl: "unat (al_len a + 1) \<le> 2 ^ 62" using assms(4) by (simp add: unat_simps)
  obtain r where r: "al_double (al_len a + 1) (if al_max a * 2 = 0 then 1 else al_max a * 2) = Some r"
    using al_double_total [OF nm nl] by blast
  have "arraylist_grow E a 1 = Inr a"
    using gt r assms(5)
    by (simp add: arraylist_grow_def Let_def alloc_cells_def realloc_cells_def)
  moreover have bl: "n < length (al_buf a)"
    using assms(1) ln by (auto simp: al_inv_def word_le_nat_alt)
  then obtain a' where "al_store_at a (al_len a - 1) x = Inr a'"
      "al_buf a' = (al_buf a)[n := x]" "al_len a' = al_len a"
    using al_store_at_buf [of "al_len a - 1" a x] ln by auto
  moreover have "take (Suc n) ((al_buf a)[n := x]) = butlast (take (Suc n) (al_buf a)) @ [x]"
    using bl by (simp add: take_Suc_list_update butlast_take)
  ultimately show ?thesis using ln by (simp add: arraylist_push_def al_list_def)
qed

definition full_al :: arraylist where
  "full_al = \<lparr>al_len = 29, al_max = 29, al_items = Inline, al_space = replicate 29 3\<rparr>"

theorem arraylist_push_out_of_memory_witness:
  "\<exists>a'. arraylist_push \<lparr>alloc_ok = (\<lambda>_. False), junk = (\<lambda>_. 0)\<rparr> full_al 9 = Inr a' \<and>
        al_list a' = butlast (al_list full_al) @ [9]"
  by (rule arraylist_push_out_of_memory)
     (simp_all add: full_al_def al_inv_def al_buf_def al_list_def)

end
