(* ===== verification/Rle.thy ===== *)
theory Rle
  imports Prelude
begin

text \<open>
  Run-length encoded key tables, \<open>src/support/rle.c\<close>.  A table is the flat array of
  \<open>(key, first index)\<close> pairs the C code walks, \<open>None\<close> standing for a null table.  A
  reference names an item by its key and the number of earlier items with that key; the
  lemmas show that references and indices translate into each other and that iteration
  visits every item with its key.
\<close>

section \<open>Definitions\<close>

record rle_iter_state =
  it_i :: u64
  it_j :: nat
  it_key :: u64

record rle_reference =
  rr_key :: u64
  rr_index :: u32

definition rle_iter_init :: "u64 \<Rightarrow> rle_iter_state" where
  "rle_iter_init key0 = \<lparr>it_i = -1, it_j = 0, it_key = key0\<rparr>"

text \<open>\<open>while (j < npairs && i >= rletable[j+1]) { key = rletable[j]; j += 2; }\<close>, the table
  seen from position \<open>j\<close> on; a table of odd length is read past its end.\<close>

fun rle_scan :: "u64 list \<Rightarrow> u64 \<Rightarrow> u64 \<Rightarrow> nat \<Rightarrow> (u64 \<times> nat) result" where
  "rle_scan [] i key j = Inr (key, j)"
| "rle_scan [k] i key j = Inl OutOfBounds"
| "rle_scan (k # s # t) i key j =
     (if s \<le> i then rle_scan t i k (j + 2) else Inr (key, j))"

definition rle_iter_increment ::
  "rle_iter_state \<Rightarrow> u64 \<Rightarrow> u64 list option \<Rightarrow> (bool \<times> rle_iter_state) result" where
  "rle_iter_increment st len rletable =
     (let st = st\<lparr>it_i := it_i st + 1\<rparr>; i = it_i st in
      if len \<le> i then Inr (False, st)
      else (case rletable of
              None \<Rightarrow> Inr (True, st)
            | Some t \<Rightarrow>
                rbind (rle_scan (drop (it_j st) t) i (it_key st) (it_j st)) (\<lambda>(key, j).
                Inr (True, st\<lparr>it_key := key, it_j := j\<rparr>))))"

text \<open>The second loop of \<open>rle_index_to_reference\<close>: subtract the items with other keys.\<close>

fun rle_subtract :: "u64 list \<Rightarrow> u64 \<Rightarrow> u64 \<Rightarrow> u64 \<Rightarrow> u64 \<Rightarrow> u64" where
  "rle_subtract (k # s # t) key ckey start index =
     rle_subtract t key k s (if key \<noteq> ckey then index - (s - start) else index)"
| "rle_subtract t key ckey start index = index"

definition rle_index_to_reference ::
  "u64 \<Rightarrow> u64 list option \<Rightarrow> u64 \<Rightarrow> rle_reference result" where
  "rle_index_to_reference i rletable key0 =
     (case rletable of
        None \<Rightarrow> Inr \<lparr>rr_key = key0, rr_index = ucast i\<rparr>
      | Some t \<Rightarrow>
          rbind (rle_scan t i key0 0) (\<lambda>(key, jj).
          Inr \<lparr>rr_key = key,
               rr_index = ucast (rle_subtract (take jj t) key key0 0 i)\<rparr>))"

text \<open>The loop of \<open>rle_reference_to_index\<close>, with its early exit.\<close>

fun rle_walk :: "u64 list \<Rightarrow> u64 \<Rightarrow> u64 \<Rightarrow> u64 \<Rightarrow> u64 \<Rightarrow> u64 \<Rightarrow> u64 result" where
  "rle_walk [] key ckey start index i = Inr i"
| "rle_walk [k] key ckey start index i = Inl OutOfBounds"
| "rle_walk (k # s # t) key ckey start index i =
     (let n = s - start in
      if key \<noteq> ckey then rle_walk t key k s index (i + n)
      else if index < n then Inr i
      else rle_walk t key k s (index - n) i)"

definition rle_reference_to_index ::
  "rle_reference \<Rightarrow> u64 list option \<Rightarrow> u64 \<Rightarrow> u64 result" where
  "rle_reference_to_index rr rletable key0 =
     (let key = rr_key rr; index = scast (rr_index rr); i = index in
      case rletable of
        None \<Rightarrow> if key = key0 then Inr i else Inl AssertFailed
      | Some t \<Rightarrow> rle_walk t key key0 0 index i)"

section \<open>What a table means\<close>

text \<open>The key of item \<open>p\<close>: that of the last pair whose first index is not after \<open>p\<close>.\<close>

fun key_at :: "u64 list \<Rightarrow> u64 \<Rightarrow> nat \<Rightarrow> u64" where
  "key_at (k # s # t) key0 p = key_at t (if unat s \<le> p then k else key0) p"
| "key_at t key0 p = key0"

text \<open>Pairs in order of their first index, none of them before \<open>start\<close>.\<close>

fun rle_sorted :: "u64 list \<Rightarrow> u64 \<Rightarrow> bool" where
  "rle_sorted [] start = True"
| "rle_sorted [k] start = False"
| "rle_sorted (k # s # t) start = (start \<le> s \<and> rle_sorted t s)"

text \<open>Items of the segments closed by the pairs \<open>t\<close> with key \<open>key\<close>, and with other keys.\<close>

fun seg_same :: "u64 list \<Rightarrow> u64 \<Rightarrow> u64 \<Rightarrow> u64 \<Rightarrow> nat" where
  "seg_same (k # s # t) key ckey start =
     (if key = ckey then unat s - unat start else 0) + seg_same t key k s"
| "seg_same t key ckey start = 0"

fun seg_other :: "u64 list \<Rightarrow> u64 \<Rightarrow> u64 \<Rightarrow> u64 \<Rightarrow> nat" where
  "seg_other (k # s # t) key ckey start =
     (if key \<noteq> ckey then unat s - unat start else 0) + seg_other t key k s"
| "seg_other t key ckey start = 0"

fun last_start :: "u64 list \<Rightarrow> u64 \<Rightarrow> u64" where
  "last_start (k # s # t) start = last_start t s"
| "last_start t start = start"

fun last_key :: "u64 list \<Rightarrow> u64 \<Rightarrow> u64" where
  "last_key (k # s # t) key = last_key t k"
| "last_key t key = key"

section \<open>Scanning\<close>

lemma rle_sorted_start: "rle_sorted t start \<Longrightarrow> start \<le> last_start t start"
  by (induction t start rule: rle_sorted.induct) auto

lemma seg_split:
  "rle_sorted t start \<Longrightarrow>
   seg_same t key ckey start + seg_other t key ckey start = unat (last_start t start) - unat start"
proof (induction t start arbitrary: ckey rule: rle_sorted.induct)
  case (3 k s t start)
  then have "unat start \<le> unat s" "unat s \<le> unat (last_start t s)"
    using rle_sorted_start [of t s] by (auto simp: word_le_nat_alt)
  with 3(1) [of k] 3(2) show ?case by (cases "key = ckey"; simp; linarith)
qed auto

lemma rle_sorted_next:
  "rle_sorted t s \<Longrightarrow> p < unat s \<Longrightarrow> t = [] \<or> (\<exists>k' s' t'. t = k' # s' # t' \<and> p < unat s')"
  by (cases "(t, s)" rule: rle_sorted.cases) (auto simp: word_le_nat_alt)

text \<open>The scan splits a sorted table into the pairs that started by \<open>i\<close> and the rest.\<close>

lemma rle_scan_split:
  assumes "rle_sorted t start" "start \<le> i"
  shows "\<exists>T R. t = T @ R \<and> even (length T) \<and> rle_scan t i key j = Inr (last_key T key, j + length T) \<and>
           rle_sorted T start \<and> last_start T start \<le> i \<and>
           (R = [] \<or> (\<exists>k s R'. R = k # s # R' \<and> i < s)) \<and> rle_sorted R (last_start T start)"
  using assms
proof (induction t start arbitrary: key j rule: rle_sorted.induct)
  case (3 k s t start)
  show ?case
  proof (cases "s \<le> i")
    case True
    with 3 obtain T R where "t = T @ R" "even (length T)"
        "rle_scan t i k (j + 2) = Inr (last_key T k, j + 2 + length T)"
        "rle_sorted T s" "last_start T s \<le> i"
        "R = [] \<or> (\<exists>k s R'. R = k # s # R' \<and> i < s)" "rle_sorted R (last_start T s)"
      by (metis rle_sorted.simps(3))
    with True 3(2) show ?thesis
      by (intro exI [of _ "k # s # T"] exI [of _ R]) auto
  next
    case False
    with 3 show ?thesis
      by (intro exI [of _ "[]"] exI [of _ "k # s # t"]) auto
  qed
qed auto

lemma key_at_after:
  "rle_sorted R st \<Longrightarrow> (R = [] \<or> (\<exists>k s R'. R = k # s # R' \<and> p < unat s)) \<Longrightarrow> key_at R key p = key"
proof (induction R st arbitrary: key rule: rle_sorted.induct)
  case (3 k s t st)
  then have "t = [] \<or> (\<exists>k' s' t'. t = k' # s' # t' \<and> p < unat s')"
    using rle_sorted_next [of t s p] by simp
  with 3 show ?case by auto
qed auto

lemma key_at_append:
  "even (length T) \<Longrightarrow> key_at (T @ R) key p = key_at R (key_at T key p) p"
  by (induction T key p rule: key_at.induct) auto

lemma key_at_all_started:
  "rle_sorted T st \<Longrightarrow> unat (last_start T st) \<le> p \<Longrightarrow> key_at T key p = last_key T key"
proof (induction T st arbitrary: key rule: rle_sorted.induct)
  case (3 k s t st)
  then show ?case using rle_sorted_start [of t s] by (auto simp: word_le_nat_alt)
qed auto

lemma rle_scan_key_at:
  assumes "rle_sorted t 0"
  shows "\<exists>jj. rle_scan t i key0 0 = Inr (key_at t key0 (unat i), jj)"
proof -
  obtain T R where t: "t = T @ R" "even (length T)" "rle_scan t i key0 0 = Inr (last_key T key0, 0 + length T)"
      "rle_sorted T 0" "last_start T 0 \<le> i"
      "R = [] \<or> (\<exists>k s R'. R = k # s # R' \<and> i < s)" "rle_sorted R (last_start T 0)"
    using rle_scan_split [OF assms word_zero_le, of i key0 0] by blast
  have "key_at t key0 (unat i) = last_key T key0"
    using t key_at_after [OF t(7), of "unat i" "last_key T key0"] key_at_all_started [OF t(4), of "unat i" key0]
    by (auto simp: key_at_append word_le_nat_alt word_less_nat_alt)
  with t(3) show ?thesis by auto
qed

section \<open>Counting\<close>

lemma rle_subtract_eq:
  assumes "rle_sorted T start" "seg_other T key ckey start \<le> unat index"
  shows "unat (rle_subtract T key ckey start index) = unat index - seg_other T key ckey start"
  using assms
proof (induction T start arbitrary: ckey index rule: rle_sorted.induct)
  case (3 k s t start)
  have d: "unat (s - start) = unat s - unat start"
    using 3(2) by (simp add: unat_simps word_le_nat_alt)
  show ?case
  proof (cases "key = ckey")
    case True
    with 3 show ?thesis by auto
  next
    case False
    with 3(3) d have "unat (index - (s - start)) = unat index - (unat s - unat start)"
      by (simp add: unat_simps)
    with False 3 show ?thesis by auto
  qed
qed auto

lemma card_interval_if:
  "card {p. st \<le> p \<and> p < n \<and> b} = (if b then n - st else (0 :: nat))"
proof -
  have "{p. st \<le> p \<and> p < n} = {st ..< n}" by auto
  then show ?thesis by simp
qed

text \<open>\<open>seg_same\<close> counts the items before \<open>last_start\<close> that have the key.\<close>

lemma seg_same_card:
  assumes "rle_sorted T start"
  shows "card {p. unat start \<le> p \<and> p < unat (last_start T start) \<and> key_at T ckey p = key}
         = seg_same T key ckey start"
  using assms
proof (induction T start arbitrary: ckey rule: rle_sorted.induct)
  case (3 k s t start)
  let ?e = "unat (last_start t s)"
  have le: "unat start \<le> unat s" "unat s \<le> ?e"
    using 3(2) rle_sorted_start [of t s] by (auto simp: word_le_nat_alt)
  have first: "key_at t ckey p = ckey" if "p < unat s" for p
    using 3(2) that key_at_after [of t s p ckey] rle_sorted_next [of t s p] by simp
  have "{p. unat start \<le> p \<and> p < ?e \<and> key_at (k # s # t) ckey p = key} =
        {p. unat start \<le> p \<and> p < unat s \<and> ckey = key} \<union>
        {p. unat s \<le> p \<and> p < ?e \<and> key_at t k p = key}"
    using le first by auto
  moreover have "card {p. unat start \<le> p \<and> p < unat s \<and> ckey = key} =
      (if key = ckey then unat s - unat start else 0)"
    by (simp only: card_interval_if eq_commute [of ckey key])
  ultimately show ?case
    using 3 by (simp add: card_Un_disjoint disjoint_iff)
qed auto

lemma rle_walk_append:
  assumes "rle_sorted T start" "seg_same T key ckey start \<le> unat index"
    and "unat i + seg_other T key ckey start < 2 ^ 64" "even (length T)"
  shows "\<exists>index' i'. rle_walk (T @ R) key ckey start index i =
           rle_walk R key (last_key T ckey) (last_start T start) index' i' \<and>
         unat index' = unat index - seg_same T key ckey start \<and>
         unat i' = unat i + seg_other T key ckey start"
  using assms
proof (induction T start arbitrary: ckey index i rule: rle_sorted.induct)
  case (3 k s t start)
  have d: "unat (s - start) = unat s - unat start"
    using 3(2) by (simp add: unat_simps word_le_nat_alt)
  have srt: "rle_sorted t s" "even (length t)" using 3(2,5) by auto
  show ?case
  proof (cases "key = ckey")
    case True
    then have le: "unat s - unat start \<le> unat index" using 3(3) by simp
    then have nb: "\<not> index < s - start" by (simp add: word_less_nat_alt d)
    have u: "unat (index - (s - start)) = unat index - (unat s - unat start)"
      using le d by (simp add: unat_simps)
    have step: "rle_walk ((k # s # t) @ R) key ckey start index i =
        rle_walk (t @ R) key k s (index - (s - start)) i"
      using True nb by (simp add: Let_def)
    obtain index' i' where w: "rle_walk (t @ R) key k s (index - (s - start)) i =
          rle_walk R key (last_key t k) (last_start t s) index' i'"
        "unat index' = unat (index - (s - start)) - seg_same t key k s"
        "unat i' = unat i + seg_other t key k s"
    proof -
      have "seg_same t key k s \<le> unat (index - (s - start))" using 3(3) True u by simp
      moreover have "unat i + seg_other t key k s < 2 ^ 64" using 3(4) True by simp
      ultimately show thesis using 3(1) srt that by blast
    qed
    show ?thesis using step w u True 3(3) by (intro exI [of _ index'] exI [of _ i']) auto
  next
    case False
    have u: "unat (i + (s - start)) = unat i + (unat s - unat start)"
      using 3(4) False d by (simp add: unat_simps)
    have step: "rle_walk ((k # s # t) @ R) key ckey start index i =
        rle_walk (t @ R) key k s index (i + (s - start))"
      using False by (simp add: Let_def)
    obtain index' i' where w: "rle_walk (t @ R) key k s index (i + (s - start)) =
          rle_walk R key (last_key t k) (last_start t s) index' i'"
        "unat index' = unat index - seg_same t key k s"
        "unat i' = unat (i + (s - start)) + seg_other t key k s"
    proof -
      have "seg_same t key k s \<le> unat index" using 3(3) False by simp
      moreover have "unat (i + (s - start)) + seg_other t key k s < 2 ^ 64" using 3(4) False u by simp
      ultimately show thesis using 3(1) srt that by blast
    qed
    show ?thesis using step w u False by (intro exI [of _ index'] exI [of _ i']) auto
  qed
qed auto

section \<open>References and indices\<close>

text \<open>The split the first loop of \<open>rle_index_to_reference\<close> makes, with what it means.\<close>

lemma rle_scan_meaning:
  assumes "rle_sorted t 0"
  obtains T R where "t = T @ R" "even (length T)"
    "rle_scan t i key0 0 = Inr (key_at t key0 (unat i), length T)"
    "rle_sorted T 0" "last_start T 0 \<le> i" "last_key T key0 = key_at t key0 (unat i)"
    "R = [] \<or> (\<exists>k s R'. R = k # s # R' \<and> i < s)" "rle_sorted R (last_start T 0)"
    "\<And>p. p \<le> unat i \<Longrightarrow> key_at t key0 p = key_at T key0 p"
proof -
  obtain T R where t: "t = T @ R" "even (length T)" "rle_scan t i key0 0 = Inr (last_key T key0, 0 + length T)"
      "rle_sorted T 0" "last_start T 0 \<le> i"
      "R = [] \<or> (\<exists>k s R'. R = k # s # R' \<and> i < s)" "rle_sorted R (last_start T 0)"
    using rle_scan_split [OF assms word_zero_le, of i key0 0] by blast
  have k: "key_at t key0 p = key_at T key0 p" if "p \<le> unat i" for p
  proof -
    have "R = [] \<or> (\<exists>k s R'. R = k # s # R' \<and> p < unat s)"
      using t(6) that by (auto simp: word_less_nat_alt)
    then show ?thesis using key_at_after [OF t(7)] t(1,2) by (simp add: key_at_append)
  qed
  have lk: "last_key T key0 = key_at t key0 (unat i)"
    using k [of "unat i"] key_at_all_started [OF t(4)] t(5) by (simp add: word_le_nat_alt)
  show thesis using that [of T R] t lk k by simp
qed

text \<open>
  C6: \<open>rle_index_to_reference\<close> names item \<open>i\<close> of a sorted table by its key and by the number
  of items before it that have the same key (for indices that fit the reference's \<open>int\<close>).
\<close>

theorem rle_index_to_reference_counts:
  assumes "rle_sorted t 0" "unat i < 2 ^ 31"
  shows "\<exists>rr. rle_index_to_reference i (Some t) key0 = Inr rr \<and>
           rr_key rr = key_at t key0 (unat i) \<and>
           unat (rr_index rr) = card {p. p < unat i \<and> key_at t key0 p = key_at t key0 (unat i)}"
proof -
  let ?key = "key_at t key0 (unat i)"
  obtain T R where t: "t = T @ R" "even (length T)" "rle_scan t i key0 0 = Inr (?key, length T)"
      "rle_sorted T 0" "last_start T 0 \<le> i" "last_key T key0 = ?key"
      "\<And>p. p \<le> unat i \<Longrightarrow> key_at t key0 p = key_at T key0 p"
    using rle_scan_meaning [OF assms(1)] by metis
  let ?l = "unat (last_start T 0)"
  have sp: "seg_same T ?key key0 0 + seg_other T ?key key0 0 = ?l" "?l \<le> unat i"
    using seg_split [OF t(4)] t(5) by (simp_all add: word_le_nat_alt)
  let ?r = "rle_subtract T ?key key0 0 i"
  have r: "unat ?r = seg_same T ?key key0 0 + (unat i - ?l)"
    using rle_subtract_eq [OF t(4), of ?key key0 i] sp by simp
  have "{p. p < unat i \<and> key_at t key0 p = ?key} =
        {p. unat (0 :: u64) \<le> p \<and> p < ?l \<and> key_at T key0 p = ?key} \<union> {p. ?l \<le> p \<and> p < unat i \<and> True}"
    using t(6,7) sp(2) key_at_all_started [OF t(4)] by auto
  moreover have "{p. unat (0 :: u64) \<le> p \<and> p < ?l \<and> key_at T key0 p = ?key} \<inter>
                 {p. ?l \<le> p \<and> p < unat i \<and> True} = {}" by auto
  ultimately have "card {p. p < unat i \<and> key_at t key0 p = ?key} = unat ?r"
    using seg_same_card [OF t(4), of key0 ?key] card_interval_if [of ?l "unat i" True] r
    by (simp add: card_Un_disjoint)
  moreover have "unat (ucast ?r :: u32) = unat ?r"
    using r sp assms(2) by (simp add: unat_simps)
  ultimately show ?thesis
    using t(1,3) by (simp add: rle_index_to_reference_def)
qed

theorem rle_index_to_reference_counts_witness:
  "\<exists>rr. rle_index_to_reference 9 (Some [77, 3, 88, 5, 77, 8]) 11 = Inr rr \<and>
     rr_key rr = key_at [77, 3, 88, 5, 77, 8] 11 (unat (9 :: u64)) \<and>
     unat (rr_index rr) = card {p. p < unat (9 :: u64) \<and>
        key_at [77, 3, 88, 5, 77, 8] 11 p = key_at [77, 3, 88, 5, 77, 8] 11 (unat (9 :: u64))}"
  by (rule rle_index_to_reference_counts) simp_all

text \<open>
  C7: a reference made from an index leads back to it: \<open>rle_reference_to_index\<close> inverts
  \<open>rle_index_to_reference\<close> on every sorted table.
\<close>

theorem rle_reference_roundtrip:
  assumes "rle_sorted t 0" "unat i < 2 ^ 31"
  shows "rbind (rle_index_to_reference i (Some t) key0)
           (\<lambda>rr. rle_reference_to_index rr (Some t) key0) = Inr i"
proof -
  let ?key = "key_at t key0 (unat i)"
  obtain T R where t: "t = T @ R" "even (length T)" "rle_scan t i key0 0 = Inr (?key, length T)"
      "rle_sorted T 0" "last_start T 0 \<le> i" "last_key T key0 = ?key"
      "R = [] \<or> (\<exists>k s R'. R = k # s # R' \<and> i < s)"
    using rle_scan_meaning [OF assms(1)] by metis
  let ?l = "last_start T 0"
  have sp: "seg_same T ?key key0 0 + seg_other T ?key key0 0 = unat ?l" "unat ?l \<le> unat i"
    using seg_split [OF t(4)] t(5) by (simp_all add: word_le_nat_alt)
  define idx where "idx = rle_subtract T ?key key0 0 i"
  have r: "unat idx = unat i - seg_other T ?key key0 0"
    unfolding idx_def using rle_subtract_eq [OF t(4), of ?key key0 i] sp by simp
  have small: "unat idx < 2 ^ 31" using r assms(2) by simp
  have sc: "(scast (ucast idx :: u32) :: u64) = idx"
    using small by (rule scast_ucast_small)
  obtain index' i' where w: "rle_walk (T @ R) ?key key0 0 idx idx = rle_walk R ?key ?key ?l index' i'"
      "unat index' = unat idx - seg_same T ?key key0 0" "unat i' = unat idx + seg_other T ?key key0 0"
  proof -
    have "seg_same T ?key key0 0 \<le> unat idx" using r sp by linarith
    moreover have "unat idx + seg_other T ?key key0 0 < 2 ^ 64" using r sp assms(2) by simp
    ultimately show thesis
      using rle_walk_append [OF t(4) _ _ t(2), of ?key key0 idx idx R] t(6) that by auto
  qed
  have i': "i' = i" using w(3) r sp by (simp add: word_unat_eq_iff)
  have "rle_walk R ?key ?key ?l index' i' = Inr i"
    using t(7)
  proof
    assume "\<exists>k s R'. R = k # s # R' \<and> i < s"
    then obtain k s R' where R: "R = k # s # R'" "i < s" by blast
    then have "unat (s - ?l) = unat s - unat ?l" "unat i < unat s"
      using sp(2) by (simp_all add: word_less_nat_alt unat_simps)
    then have "index' < s - ?l" using w(2) r sp by (simp add: word_less_nat_alt)
    then show ?thesis using R i' by (simp add: Let_def)
  qed (use i' in simp)
  then show ?thesis
    using t(1,3) w(1) sc
    by (simp add: rle_index_to_reference_def rle_reference_to_index_def Let_def idx_def)
qed

theorem rle_reference_roundtrip_witness:
  "rbind (rle_index_to_reference 9 (Some [77, 3, 88, 5, 77, 8]) 11)
     (\<lambda>rr. rle_reference_to_index rr (Some [77, 3, 88, 5, 77, 8]) 11) = Inr 9"
  by (rule rle_reference_roundtrip) simp_all

section \<open>Iteration\<close>

text \<open>\<open>n\<close> calls of \<open>rle_iter_increment\<close>, as a client's loop makes them.\<close>

fun rle_iter_n :: "nat \<Rightarrow> u64 \<Rightarrow> u64 list option \<Rightarrow> u64 \<Rightarrow> (bool \<times> rle_iter_state) result" where
  "rle_iter_n 0 len rletable key0 = Inr (True, rle_iter_init key0)"
| "rle_iter_n (Suc n) len rletable key0 =
     rbind (rle_iter_n n len rletable key0) (\<lambda>(b, st). rle_iter_increment st len rletable)"

lemma last_append:
  "even (length T) \<Longrightarrow> last_key (T @ U) key = last_key U (last_key T key)"
  "even (length T) \<Longrightarrow> last_start (T @ U) st = last_start U (last_start T st)"
  "even (length T) \<Longrightarrow> rle_sorted T st \<Longrightarrow> rle_sorted U (last_start T st) \<Longrightarrow> rle_sorted (T @ U) st"
  by (induction T st arbitrary: key rule: rle_sorted.induct) auto

definition rle_iter_inv :: "u64 list \<Rightarrow> u64 \<Rightarrow> nat \<Rightarrow> rle_iter_state \<Rightarrow> bool" where
  "rle_iter_inv t key0 n st \<longleftrightarrow>
     (\<exists>T R. t = T @ R \<and> even (length T) \<and> it_j st = length T \<and> it_key st = last_key T key0 \<and>
        rle_sorted T 0 \<and> rle_sorted R (last_start T 0) \<and> it_i st = of_nat n - 1 \<and>
        (0 < n \<longrightarrow> last_start T 0 \<le> it_i st \<and> it_key st = key_at t key0 (n - 1)) \<and>
        (n = 0 \<longrightarrow> T = []))"

lemma rle_iter_step:
  assumes "rle_iter_inv t key0 n st" "n < unat len"
  shows "\<exists>st'. rle_iter_increment st len (Some t) = Inr (True, st') \<and> rle_iter_inv t key0 (Suc n) st'"
proof -
  obtain T R where t: "t = T @ R" "even (length T)" "it_j st = length T" "it_key st = last_key T key0"
      "rle_sorted T 0" "rle_sorted R (last_start T 0)" "it_i st = of_nat n - 1"
      "0 < n \<Longrightarrow> last_start T 0 \<le> it_i st" "n = 0 \<Longrightarrow> T = []"
    using assms(1) by (auto simp: rle_iter_inv_def)
  define i :: u64 where "i = of_nat n"
  have un: "unat i = n"
    unfolding i_def using assms(2) unsigned_less [of len, where 'a = nat] by (intro unat_of_nat_small) simp
  have ii: "it_i st + 1 = i" using t(7) by (simp add: i_def)
  have ls: "last_start T 0 \<le> i"
  proof (cases n)
    case (Suc m)
    then have "unat (it_i st) = m"
      using t(7) assms(2) unsigned_less [of len, where 'a = nat] by (simp add: unat_simps)
    then show ?thesis using t(8) Suc un by (simp add: word_le_nat_alt)
  qed (use t(9) in simp)
  obtain U R' where u: "R = U @ R'" "even (length U)"
      "rle_scan R i (it_key st) (it_j st) = Inr (last_key U (it_key st), it_j st + length U)"
      "rle_sorted U (last_start T 0)" "last_start U (last_start T 0) \<le> i"
      "R' = [] \<or> (\<exists>k s R''. R' = k # s # R'' \<and> i < s)" "rle_sorted R' (last_start U (last_start T 0))"
    using rle_scan_split [OF t(6) ls, of "it_key st" "it_j st"] by blast
  have srt: "rle_sorted (T @ U) 0" using last_append(3) t(2,5) u(4) by blast
  have ka: "key_at t key0 n = last_key (T @ U) key0"
  proof -
    have "R' = [] \<or> (\<exists>k s R''. R' = k # s # R'' \<and> n < unat s)"
      using u(6) un by (auto simp: word_less_nat_alt)
    moreover have "key_at (T @ U) key0 n = last_key (T @ U) key0"
      using key_at_all_started [OF srt] u(5) un t(2) by (simp add: last_append word_le_nat_alt)
    ultimately show ?thesis
      using key_at_append [of "T @ U" R' key0 n] key_at_after [OF u(7)] t(1,2) u(1,2) by simp
  qed
  have nl: "\<not> len \<le> i" using assms(2) un by (simp add: word_le_nat_alt)
  let ?st = "st\<lparr>it_i := i, it_key := last_key U (it_key st), it_j := it_j st + length U\<rparr>"
  have "rle_iter_increment st len (Some t) = Inr (True, ?st)"
    using ii nl u(3) t(1,3) by (simp add: rle_iter_increment_def Let_def)
  moreover have "rle_iter_inv t key0 (Suc n) ?st"
    unfolding rle_iter_inv_def
    by (rule exI [of _ "T @ U"], rule exI [of _ R'])
       (use t u srt ka in \<open>simp add: last_append i_def\<close>)
  ultimately show ?thesis by blast
qed

text \<open>
  Iterating over a sorted table of \<open>len\<close> items visits item \<open>n\<close> with exactly its key at
  the \<open>n\<close>-th call, and the call after the last item reports the end.
\<close>

theorem rle_iteration_visits:
  assumes "rle_sorted t 0" "n < unat len"
  shows "(\<exists>st. rle_iter_n (Suc n) len (Some t) key0 = Inr (True, st) \<and>
            it_i st = of_nat n \<and> it_key st = key_at t key0 n) \<and>
         (\<exists>st. rle_iter_n (Suc (unat len)) len (Some t) key0 = Inr (False, st))"
proof -
  have run: "\<exists>st. rle_iter_n m len (Some t) key0 = Inr (True, st) \<and> rle_iter_inv t key0 m st"
    if "m \<le> unat len" for m
    using that
  proof (induction m)
    case 0
    show ?case by (simp add: rle_iter_inv_def rle_iter_init_def assms(1))
  next
    case (Suc m)
    then show ?case using rle_iter_step [of t key0 m _ len] by fastforce
  qed
  obtain st where st: "rle_iter_n (unat len) len (Some t) key0 = Inr (True, st)"
      "rle_iter_inv t key0 (unat len) st"
    using run by blast
  then have "it_i st + 1 = len" by (auto simp: rle_iter_inv_def)
  then have "\<exists>st. rle_iter_n (Suc (unat len)) len (Some t) key0 = Inr (False, st)"
    using st(1) by (simp add: rle_iter_increment_def Let_def)
  moreover obtain st' where "rle_iter_n (Suc n) len (Some t) key0 = Inr (True, st')"
      "rle_iter_inv t key0 (Suc n) st'"
    using run [of "Suc n"] assms(2) by auto
  ultimately show ?thesis by (auto simp: rle_iter_inv_def simp del: rle_iter_n.simps)
qed

theorem rle_iteration_visits_witness:
  "(\<exists>st. rle_iter_n (Suc 4) 9 (Some [77, 3, 88, 5, 77, 8]) 11 = Inr (True, st) \<and>
      it_i st = of_nat 4 \<and> it_key st = key_at [77, 3, 88, 5, 77, 8] 11 4) \<and>
   (\<exists>st. rle_iter_n (Suc (unat (9 :: u64))) 9 (Some [77, 3, 88, 5, 77, 8]) 11 = Inr (False, st))"
  by (rule rle_iteration_visits) simp_all

end
