(* ===== verification/Eytzinger.thy ===== *)
theory Eytzinger
  imports ArrayList
begin

text \<open>
  The address-range index of \<open>src/support/eytzinger.c\<close> and \<open>eytzinger.h\<close>: the sorted range
  boundaries are laid out as an implicit binary search tree (node \<open>k\<close> has the children
  \<open>2k\<close> and \<open>2k+1\<close>), which the look-up descends without branching.  The C code numbers
  nodes from 1 and stores node \<open>k\<close> at \<open>tree[k-1]\<close>; the model walks with that array
  index \<open>m = k - 1\<close>, whose children are \<open>2m+1\<close> and \<open>2m+2\<close>.  The lock that serialises
  writers against readers is not part of the model: each operation is one atomic step.
\<close>

section \<open>Definitions\<close>

record eyt_range =
  r_start :: u64
  r_end :: u64
  r_data :: ptr

record eyt_tree =
  et_n :: nat
  et_tree :: arraylist
  et_idxs :: arraylist
  et_min_addr :: u64
  et_max_addr :: u64
  et_ranges :: "eyt_range list"

definition EYT_NOTFOUND :: ptr where
  "EYT_NOTFOUND = 1"

text \<open>The in-order fill, \<open>eytzinger(src, dest, i, k, n)\<close> at \<open>k = m + 1\<close>.\<close>

function eytzinger :: "u64 list \<Rightarrow> u64 list \<Rightarrow> nat \<Rightarrow> nat \<Rightarrow> nat \<Rightarrow> (nat \<times> u64 list) result" where
  "eytzinger src dest i m n =
     (if m < n then
        rbind (eytzinger src dest i (2 * m + 1) n) (\<lambda>(i, dest).
        rbind (rget src i) (\<lambda>v.
        rbind (rset dest m v) (\<lambda>dest.
        eytzinger src dest (i + 1) (2 * m + 2) n)))
      else Inr (i, dest))"
  by pat_completeness auto
termination
  by (relation "measure (\<lambda>(src, dest, i, m, n). n - m)") auto

text \<open>\<open>while (k <= n) { greater = (q > tree[k-1]); k <<= 1; k |= greater; }\<close>; the result is the
  final \<open>k\<close>.\<close>

function eyt_walk :: "u64 \<Rightarrow> u64 list \<Rightarrow> nat \<Rightarrow> nat \<Rightarrow> nat result" where
  "eyt_walk q tree n m =
     (if m < n then
        rbind (rget tree m) (\<lambda>v.
        eyt_walk q tree n (2 * m + 1 + (if q > v then 1 else 0)))
      else Inr (m + 1))"
  by pat_completeness auto
termination
  by (relation "measure (\<lambda>(q, tree, n, m). n - m)") auto

declare eytzinger.simps [simp del] eyt_walk.simps [simp del]

text \<open>\<open>__builtin_ctzll\<close>: the number of trailing zero bits (undefined at 0).\<close>

fun ctzll :: "nat \<Rightarrow> nat" where
  "ctzll k = (if k = 0 \<or> odd k then 0 else Suc (ctzll (k div 2)))"

declare ctzll.simps [simp del]

definition eyt_obj_idx :: "u64 \<Rightarrow> u64 list \<Rightarrow> nat \<Rightarrow> u64 \<Rightarrow> u64 \<Rightarrow> nat result" where
  "eyt_obj_idx q tree n min_addr max_addr =
     (if n = 0 then Inr n
      else rbind (assert_that (n mod 2 = 0)) (\<lambda>_.
        if q \<le> min_addr \<or> q > max_addr then Inr n
        else rbind (eyt_walk q tree n 0) (\<lambda>k.
          let k = k div 2 ^ (ctzll k + 1) in
          rbind (assert_that (k \<noteq> 0)) (\<lambda>_.
          rbind (assert_that (k \<le> n)) (\<lambda>_.
          rbind (rget tree (k - 1)) (\<lambda>v.
          rbind (assert_that (v < q)) (\<lambda>_.
          Inr (k - 1)))))))) "

definition eyt_addr_query :: "u64 \<Rightarrow> u64" where
  "eyt_addr_query addr = addr + 1"

text \<open>Boundary \<open>i\<close> of the registered ranges and its encoded value.\<close>

definition eyt_boundary :: "eyt_range list \<Rightarrow> nat \<Rightarrow> u64" where
  "eyt_boundary rs i = (if odd i then r_end (rs ! (i div 2)) else r_start (rs ! (i div 2)))"

definition eyt_encode :: "eyt_range list \<Rightarrow> nat \<Rightarrow> u64" where
  "eyt_encode rs i = eyt_boundary rs i + (if odd i then 1 else 2)"

text \<open>The first loop of \<open>rebuild_tree\<close>, from boundary \<open>i\<close> on.\<close>

function eyt_encode_loop :: "eyt_range list \<Rightarrow> u64 list \<Rightarrow> nat \<Rightarrow> u64 list result" where
  "eyt_encode_loop rs idxs i =
     (if i < 2 * length rs then
        rbind (assert_that (unat (eyt_boundary rs i) mod 4 = 0)) (\<lambda>_.
        rbind (rset idxs i (eyt_encode rs i)) (\<lambda>idxs.
        eyt_encode_loop rs idxs (i + 1)))
      else Inr idxs)"
  by pat_completeness auto
termination
  by (relation "measure (\<lambda>(rs, idxs, i). 2 * length rs - i)") auto

text \<open>The second loop: the caller's data is stored at the position of each boundary.\<close>

function eyt_data_loop ::
  "eyt_range list \<Rightarrow> u64 list \<Rightarrow> u64 \<Rightarrow> u64 \<Rightarrow> u64 list \<Rightarrow> nat \<Rightarrow> u64 list result" where
  "eyt_data_loop rs tree mn mx idxs i =
     (if i < 2 * length rs then
        rbind (eyt_obj_idx (eyt_encode rs i + 1) tree (2 * length rs) mn mx) (\<lambda>eyt_idx.
        rbind (assert_that (eyt_idx < 2 * length rs)) (\<lambda>_.
        rbind (rget tree eyt_idx) (\<lambda>v.
        rbind (assert_that (v = eyt_encode rs i)) (\<lambda>_.
        rbind (rset idxs eyt_idx (if odd i then EYT_NOTFOUND else r_data (rs ! (i div 2)))) (\<lambda>idxs.
        eyt_data_loop rs tree mn mx idxs (i + 1))))))
      else Inr idxs)"
  by pat_completeness auto
termination
  by (relation "measure (\<lambda>(rs, tree, mn, mx, idxs, i). 2 * length rs - i)") auto

declare eyt_encode_loop.simps [simp del] eyt_data_loop.simps [simp del]

definition al_with_buf :: "arraylist \<Rightarrow> ptr list \<Rightarrow> arraylist" where
  "al_with_buf a b = (case al_items a of
      Null \<Rightarrow> a | Inline \<Rightarrow> a\<lparr>al_space := b\<rparr> | Heap _ \<Rightarrow> a\<lparr>al_items := Heap b\<rparr>)"

text \<open>\<open>qsort\<close> on the first \<open>end\<close> cells.\<close>

definition qsort_prefix :: "nat \<Rightarrow> u64 list \<Rightarrow> u64 list" where
  "qsort_prefix n xs = sort (take n xs) @ drop n xs"

definition rebuild_tree :: "heap_env \<Rightarrow> eyt_tree \<Rightarrow> eyt_tree result" where
  "rebuild_tree E t =
     (let rs = et_ranges t; e = 2 * length rs; needed = of_nat (e + 1) in
      rbind (arraylist_grow E (et_tree t) (needed - al_len (et_tree t))) (\<lambda>ta.
      rbind (arraylist_grow E (et_idxs t) (needed - al_len (et_idxs t))) (\<lambda>ia.
      rbind (rset (al_buf ia) e EYT_NOTFOUND) (\<lambda>idxs.
      rbind (rset (al_buf ta) e 1) (\<lambda>tree.
      rbind (eyt_encode_loop rs idxs 0) (\<lambda>idxs.
      let idxs = qsort_prefix e idxs in
      rbind (rget idxs 0) (\<lambda>mn.
      rbind (rget idxs (e - 1)) (\<lambda>lst.
      let mx = lst + 1 in
      rbind (eytzinger idxs tree 0 0 e) (\<lambda>(_, tree).
      rbind (eyt_data_loop rs tree mn mx idxs 0) (\<lambda>idxs.
      Inr (t\<lparr>et_tree := al_with_buf ta tree, et_idxs := al_with_buf ia idxs,
             et_min_addr := mn, et_max_addr := mx, et_n := e\<rparr>)))))))))))"

text \<open>A zeroed \<open>arraylist_t\<close> (\<open>memset(t, 0, sizeof *t)\<close>).\<close>

definition zero_arraylist :: arraylist where
  "zero_arraylist = \<lparr>al_len = 0, al_max = 0, al_items = Null, al_space = replicate 29 0\<rparr>"

definition eyt_tree_init :: "heap_env \<Rightarrow> eyt_tree result" where
  "eyt_tree_init E =
     (let ta = fst (arraylist_new E zero_arraylist 0); ia = fst (arraylist_new E zero_arraylist 0) in
      rbind (arraylist_push E ta 1) (\<lambda>ta.
      rbind (arraylist_push E ia EYT_NOTFOUND) (\<lambda>ia.
      Inr \<lparr>et_n = 0, et_tree = ta, et_idxs = ia, et_min_addr = 0, et_max_addr = 0,
           et_ranges = []\<rparr>)))"

definition eyt_tree_add_range ::
  "heap_env \<Rightarrow> eyt_tree \<Rightarrow> u64 \<Rightarrow> u64 \<Rightarrow> ptr \<Rightarrow> eyt_tree result" where
  "eyt_tree_add_range E t st en data =
     rbind (assert_that (unat st mod 4 = 0)) (\<lambda>_.
     rbind (assert_that (unat en mod 4 = 0)) (\<lambda>_.
     rbind (assert_that (st < en)) (\<lambda>_.
     rebuild_tree E (t\<lparr>et_ranges := et_ranges t @ [\<lparr>r_start = st, r_end = en, r_data = data\<rparr>]\<rparr>))))"

definition eyt_tree_is_in_range :: "eyt_tree \<Rightarrow> u64 \<Rightarrow> bool result" where
  "eyt_tree_is_in_range t addr =
     rbind (eyt_obj_idx (eyt_addr_query addr) (al_buf (et_tree t)) (et_n t)
              (et_min_addr t) (et_max_addr t)) (\<lambda>idx.
     rbind (rget (al_buf (et_tree t)) idx) (\<lambda>v. Inr (v AND 1 = 0)))"

definition eyt_tree_find_data :: "eyt_tree \<Rightarrow> u64 \<Rightarrow> ptr result" where
  "eyt_tree_find_data t addr =
     rbind (eyt_obj_idx (eyt_addr_query addr) (al_buf (et_tree t)) (et_n t)
              (et_min_addr t) (et_max_addr t)) (\<lambda>idx.
     rget (al_buf (et_idxs t)) idx)"

section \<open>The implicit tree\<close>

text \<open>The in-order sequence of the nodes below \<open>m\<close>.\<close>

function inord :: "nat \<Rightarrow> nat \<Rightarrow> nat list" where
  "inord m n = (if m < n then inord (2 * m + 1) n @ m # inord (2 * m + 2) n else [])"
  by pat_completeness auto
termination
  by (relation "measure (\<lambda>(m, n). n - m)") auto

declare inord.simps [simp del]

lemma inord_out [simp]: "n \<le> m \<Longrightarrow> inord m n = []"
  by (simp add: inord.simps)

lemma inord_in: "m < n \<Longrightarrow> inord m n = inord (2 * m + 1) n @ m # inord (2 * m + 2) n"
  by (subst inord.simps) simp

text \<open>Node \<open>j\<close> lies below node \<open>m\<close> when the bits of \<open>m + 1\<close> are a prefix of those of
  \<open>j + 1\<close>.\<close>

definition below :: "nat \<Rightarrow> nat \<Rightarrow> bool" where
  "below m j \<longleftrightarrow> (\<exists>d. (j + 1) div 2 ^ d = m + 1)"

lemma below_unfold: "below m j \<longleftrightarrow> j = m \<or> below (2 * m + 1) j \<or> below (2 * m + 2) j"
proof -
  have step: "(j + 1) div 2 ^ Suc d = m + 1 \<longleftrightarrow>
      (j + 1) div 2 ^ d = 2 * m + 1 + 1 \<or> (j + 1) div 2 ^ d = 2 * m + 2 + 1" for d
  proof -
    have "(j + 1) div 2 ^ Suc d = (j + 1) div 2 ^ d div 2"
      by (simp only: power_Suc2 div_mult2_eq)
    then show ?thesis by auto
  qed
  show ?thesis
  proof
    assume "below m j"
    then obtain d where d: "(j + 1) div 2 ^ d = m + 1" by (auto simp: below_def)
    show "j = m \<or> below (2 * m + 1) j \<or> below (2 * m + 2) j"
    proof (cases d)
      case (Suc e)
      then show ?thesis using d step [of e] unfolding below_def by blast
    qed (use d in simp)
  next
    assume "j = m \<or> below (2 * m + 1) j \<or> below (2 * m + 2) j"
    moreover have "below m m" unfolding below_def by (rule exI [of _ 0]) simp
    ultimately show "below m j" using step unfolding below_def by blast
  qed
qed

lemma below_ge: "below m j \<Longrightarrow> m \<le> j"
  unfolding below_def by (metis add_le_cancel_right div_le_dividend)

lemma below_root: "below 0 j"
proof -
  have "\<exists>d. x div 2 ^ d = 1" if "0 < x" for x :: nat
    using that
  proof (induction x rule: less_induct)
    case (less x)
    show ?case
    proof (cases "x = 1")
      case True
      then show ?thesis by (intro exI [of _ 0]) simp
    next
      case False
      with less obtain d where "x div 2 div 2 ^ d = 1" by force
      then have "x div 2 ^ Suc d = 1" by (simp only: power_Suc div_mult2_eq)
      then show ?thesis by blast
    qed
  qed
  then show ?thesis by (simp add: below_def)
qed

lemma div_pow2_le:
  fixes x a :: nat
  assumes "x div 2 ^ d = a" "d < e"
  shows "x div 2 ^ e \<le> a div 2"
proof -
  obtain f where e: "e = d + Suc f" using assms(2) less_imp_Suc_add by auto
  have "x div 2 ^ e = a div 2 div 2 ^ f"
    by (simp only: e power_add power_Suc div_mult2_eq assms(1))
  then show ?thesis by simp
qed

lemma below_disjoint: "below (2 * m + 1) j \<Longrightarrow> below (2 * m + 2) j \<Longrightarrow> False"
proof -
  assume "below (2 * m + 1) j" "below (2 * m + 2) j"
  then obtain d e where d: "(j + 1) div 2 ^ d = 2 * m + 1 + 1" and e: "(j + 1) div 2 ^ e = 2 * m + 2 + 1"
    unfolding below_def by blast
  consider "d = e" | "d < e" | "e < d" by linarith
  then show False
  proof cases
    case 2
    then show False using div_pow2_le [OF d, of e] e by simp
  next
    case 3
    then show False using div_pow2_le [OF e, of d] d by simp
  qed (use d e in simp)
qed

lemma set_inord: "set (inord m n) = {j. j < n \<and> below m j}"
proof (induction m n rule: inord.induct)
  case (1 m n)
  show ?case
  proof (cases "m < n")
    case True
    then show ?thesis using 1 by (auto simp: inord_in below_unfold [of m])
  next
    case False
    then show ?thesis using below_ge by fastforce
  qed
qed

lemma distinct_inord: "distinct (inord m n)"
proof (induction m n rule: inord.induct)
  case (1 m n)
  show ?case
  proof (cases "m < n")
    case True
    have "j \<noteq> m" if "below (2 * m + 1) j \<or> below (2 * m + 2) j" for j
      using that below_ge by fastforce
    then show ?thesis using 1 True below_disjoint
      by (auto simp: inord_in set_inord)
  qed simp
qed

lemma set_inord_root: "set (inord 0 n) = {..< n}"
  by (auto simp: set_inord below_root)

lemma length_inord_root: "length (inord 0 n) = n"
  using distinct_card [OF distinct_inord [of 0 n]] by (simp add: set_inord_root)

section \<open>Filling the tree\<close>

lemma eytzinger_fill:
  assumes "n \<le> length dest" "i + length (inord m n) \<le> length src"
  shows "\<exists>dest'. eytzinger src dest i m n = Inr (i + length (inord m n), dest') \<and>
           length dest' = length dest \<and>
           map (nth dest') (inord m n) = take (length (inord m n)) (drop i src) \<and>
           (\<forall>j. j \<notin> set (inord m n) \<longrightarrow> dest' ! j = dest ! j)"
  using assms
proof (induction "n - m" arbitrary: dest i m rule: less_induct)
  case less
  show ?case
  proof (cases "m < n")
    case False
    then show ?thesis by (simp add: eytzinger.simps)
  next
    case True
    let ?l = "inord (2 * m + 1) n" and ?r = "inord (2 * m + 2) n"
    have io: "inord m n = ?l @ m # ?r" using True by (rule inord_in)
    have dec: "n - (2 * m + 1) < n - m" "n - (2 * m + 2) < n - m" using True by simp_all
    have len: "i + length ?l + 1 + length ?r \<le> length src" using less.prems(2) io by simp
    then have len1: "i + length ?l \<le> length src" by simp
    obtain d1 where d1: "eytzinger src dest i (2 * m + 1) n = Inr (i + length ?l, d1)"
        "length d1 = length dest" "map (nth d1) ?l = take (length ?l) (drop i src)"
        "\<forall>j. j \<notin> set ?l \<longrightarrow> d1 ! j = dest ! j"
      using less.hyps [OF dec(1) less.prems(1) len1] by blast
    define d2 where "d2 = d1[m := src ! (i + length ?l)]"
    obtain d3 where d3: "eytzinger src d2 (i + length ?l + 1) (2 * m + 2) n = Inr (i + length ?l + 1 + length ?r, d3)"
        "length d3 = length dest" "map (nth d3) ?r = take (length ?r) (drop (i + length ?l + 1) src)"
        "\<forall>j. j \<notin> set ?r \<longrightarrow> d3 ! j = d2 ! j"
    proof -
      have "n \<le> length d2" "length d2 = length dest" using less.prems(1) d1(2) by (simp_all add: d2_def)
      then show thesis using less.hyps [OF dec(2) _ len] that by metis
    qed
    have dj: "distinct (?l @ m # ?r)" using distinct_inord [of m n] io by simp
    have el: "map (nth d3) ?l = map (nth d1) ?l"
    proof (rule map_cong [OF refl])
      fix x assume "x \<in> set ?l"
      then have "x \<notin> set ?r" "m \<noteq> x" using dj by auto
      then show "d3 ! x = d1 ! x" using d3(4) by (simp add: d2_def)
    qed
    have em: "d3 ! m = src ! (i + length ?l)"
      using dj d3(4) d1(2) less.prems(1) True by (auto simp: d2_def)
    have "map (nth d3) (inord m n) = take (length (inord m n)) (drop i src)"
    proof -
      have "take (length ?l + (1 + length ?r)) (drop i src) =
          take (length ?l) (drop i src) @ take (1 + length ?r) (drop (i + length ?l) src)"
        by (simp only: take_add drop_drop add.commute [of i])
      moreover have "take (1 + length ?r) (drop (i + length ?l) src) =
          src ! (i + length ?l) # take (length ?r) (drop (i + length ?l + 1) src)"
        using len by (simp add: Cons_nth_drop_Suc [symmetric])
      moreover have "map (nth d3) ?l = take (length ?l) (drop i src)"
        using el d1(3) by (rule trans)
      ultimately show ?thesis using io em d3(3) by simp
    qed
    moreover have "\<forall>j. j \<notin> set (inord m n) \<longrightarrow> d3 ! j = dest ! j"
      using d3(4) d1(4) io by (auto simp: d2_def)
    moreover have "eytzinger src dest i m n = Inr (i + length (inord m n), d3)"
      using True d1(1,2) d3(1) [unfolded d2_def] len less.prems(1) io
      by (subst eytzinger.simps) simp
    ultimately show ?thesis using d3(2) by blast
  qed
qed

section \<open>Searching the tree\<close>

lemma ctzll_strip_even: "0 < k \<Longrightarrow> (2 * k) div 2 ^ (ctzll (2 * k) + 1) = k div 2 ^ (ctzll k + 1)"
  by (subst ctzll.simps) (simp add: div_mult2_eq)

lemma ctzll_strip_odd: "(2 * k + 1) div 2 ^ (ctzll (2 * k + 1) + 1) = k"
  by (subst ctzll.simps) simp

lemma ctzll_one: "1 div 2 ^ (ctzll 1 + 1) = (0 :: nat)"
  by (subst ctzll.simps) simp

text \<open>
  Descending from node \<open>m\<close>, the shift at the end recovers the last node where the search
  turned right: the last node in order whose value is below \<open>q\<close>, or whatever the shift
  would give at \<open>m\<close> itself.
\<close>

lemma eyt_walk_last:
  assumes "n \<le> length tree" "sorted (map (nth tree) (inord m n))"
  shows "\<exists>k. eyt_walk q tree n m = Inr k \<and>
     k div 2 ^ (ctzll k + 1) =
       last ((m + 1) div 2 ^ (ctzll (m + 1) + 1) #
             map Suc (takeWhile (\<lambda>j. tree ! j < q) (inord m n)))"
  using assms
proof (induction "n - m" arbitrary: m rule: less_induct)
  case less
  show ?case
  proof (cases "m < n")
    case False
    then show ?thesis by (simp add: eyt_walk.simps)
  next
    case True
    let ?l = "inord (2 * m + 1) n" and ?r = "inord (2 * m + 2) n"
    have io: "inord m n = ?l @ m # ?r" using True by (rule inord_in)
    have dec: "n - (2 * m + 1) < n - m" "n - (2 * m + 2) < n - m" using True by simp_all
    have srt: "sorted (map (nth tree) ?l)" "sorted (map (nth tree) ?r)"
        "\<forall>j \<in> set ?l. tree ! j \<le> tree ! m"
      using less.prems(2) io by (auto simp: sorted_append)
    show ?thesis
    proof (cases "tree ! m < q")
      case gt: True
      have all: "\<forall>j \<in> set ?l. tree ! j < q" using srt(3) gt by (auto intro: le_less_trans)
      obtain k where k: "eyt_walk q tree n (2 * m + 2) = Inr k"
          "k div 2 ^ (ctzll k + 1) = last ((2 * m + 2 + 1) div 2 ^ (ctzll (2 * m + 2 + 1) + 1) #
             map Suc (takeWhile (\<lambda>j. tree ! j < q) ?r))"
        using less.hyps [of "2 * m + 2", OF _ less.prems(1) srt(2)] True by (metis dec(2))
      have "(2 * m + 2 + 1) div 2 ^ (ctzll (2 * m + 2 + 1) + 1) = m + 1"
        using ctzll_strip_odd [of "m + 1"] by simp
      then show ?thesis
        using k True gt all io less.prems(1)
        by (subst eyt_walk.simps) (simp add: takeWhile_append2)
    next
      case le: False
      have tw: "takeWhile (\<lambda>j. tree ! j < q) (inord m n) = takeWhile (\<lambda>j. tree ! j < q) ?l"
        using io le by (auto simp: takeWhile_append intro: takeWhile_eq_all_conv [THEN iffD2, symmetric])
      obtain k where k: "eyt_walk q tree n (2 * m + 1) = Inr k"
          "k div 2 ^ (ctzll k + 1) = last ((2 * m + 1 + 1) div 2 ^ (ctzll (2 * m + 1 + 1) + 1) #
             map Suc (takeWhile (\<lambda>j. tree ! j < q) ?l))"
        using less.hyps [of "2 * m + 1", OF _ less.prems(1) srt(1)] True by (metis dec(1))
      have "(2 * m + 1 + 1) div 2 ^ (ctzll (2 * m + 1 + 1) + 1) = (m + 1) div 2 ^ (ctzll (m + 1) + 1)"
        using ctzll_strip_even [of "m + 1"] by simp
      then show ?thesis
        using k True le tw less.prems(1) by (subst eyt_walk.simps) simp
    qed
  qed
qed

lemma sorted_takeWhile_mem:
  "sorted vs \<Longrightarrow> v \<in> set vs \<Longrightarrow> v < q \<Longrightarrow> v \<in> set (takeWhile (\<lambda>x. x < q) vs)"
  for vs :: "'a::linorder list"
  by (induction vs) (auto dest: le_less_trans)

lemma sorted_le_last: "sorted vs \<Longrightarrow> v \<in> set vs \<Longrightarrow> v \<le> last vs" for vs :: "'a::linorder list"
  by (induction vs) auto

lemma sorted_hd_le: "sorted vs \<Longrightarrow> v \<in> set vs \<Longrightarrow> hd vs \<le> v" for vs :: "'a::linorder list"
  by (cases vs) auto

text \<open>What the search returns on a tree filled with the sorted values \<open>vs\<close>: the position of
  the greatest value below \<open>q\<close>, or \<open>n\<close> outside \<open>(mn, mx]\<close>.\<close>

lemma eyt_obj_idx_spec:
  assumes n: "even n" "0 < n" "n \<le> length tree"
    and vs: "map (nth tree) (inord 0 n) = vs" "sorted vs" and mn: "mn = hd vs"
  shows "if mn < q \<and> q \<le> mx
         then \<exists>j. eyt_obj_idx q tree n mn mx = Inr j \<and> j < n \<and> tree ! j < q \<and>
                  (\<forall>v \<in> set vs. v < q \<longrightarrow> v \<le> tree ! j)
         else eyt_obj_idx q tree n mn mx = Inr n"
proof (cases "mn < q \<and> q \<le> mx")
  case True
  let ?ps = "takeWhile (\<lambda>j. tree ! j < q) (inord 0 n)"
  have ne: "inord 0 n \<noteq> []" using length_inord_root [of n] n(2) by auto
  have tw: "map (nth tree) ?ps = takeWhile (\<lambda>v. v < q) vs"
    using vs(1) by (auto simp: takeWhile_map comp_def)
  have "?ps \<noteq> []"
    using True mn ne vs(1) by (cases "inord 0 n") auto
  then obtain j where j: "last ?ps = j" "j \<in> set ?ps" by simp
  obtain k where k: "eyt_walk q tree n 0 = Inr k"
      "k div 2 ^ (ctzll k + 1) = last ((0 + 1) div 2 ^ (ctzll (0 + 1) + 1) # map Suc ?ps)"
    using eyt_walk_last [OF n(3), of 0 q] vs by blast
  have kj: "k div 2 ^ (ctzll k + 1) = Suc j"
    using k(2) \<open>?ps \<noteq> []\<close> j(1) by (simp add: last_map)
  have jn: "j < n" "tree ! j < q"
    using j(2) by (auto dest!: set_takeWhileD simp: set_inord_root)
  have res: "eyt_obj_idx q tree n mn mx = Inr j"
    using True n k(1) kj jn by (auto simp: eyt_obj_idx_def Let_def not_less not_le)
  have "v \<le> tree ! j" if "v \<in> set vs" "v < q" for v
  proof -
    have "v \<in> set (takeWhile (\<lambda>v. v < q) vs)" using sorted_takeWhile_mem [OF vs(2) that] .
    moreover have "sorted (takeWhile (\<lambda>v. v < q) vs)" using vs(2) by (rule sorted_takeWhile)
    ultimately have "v \<le> last (takeWhile (\<lambda>v. v < q) vs)" by (intro sorted_le_last)
    also have "\<dots> = tree ! j" using tw [symmetric] \<open>?ps \<noteq> []\<close> j(1) by (simp add: last_map)
    finally show ?thesis .
  qed
  with True res jn show ?thesis by auto
next
  case False
  then show ?thesis using n by (auto simp: eyt_obj_idx_def not_less not_le)
qed

section \<open>Range sets\<close>

definition range_ok :: "eyt_range \<Rightarrow> bool" where
  "range_ok r \<longleftrightarrow> unat (r_start r) mod 4 = 0 \<and> unat (r_end r) mod 4 = 0 \<and> r_start r < r_end r"

definition ranges_disjoint :: "eyt_range \<Rightarrow> eyt_range \<Rightarrow> bool" where
  "ranges_disjoint r r' \<longleftrightarrow> r_end r \<le> r_start r' \<or> r_end r' \<le> r_start r"

definition ranges_ok :: "eyt_range list \<Rightarrow> bool" where
  "ranges_ok rs \<longleftrightarrow> (\<forall>r \<in> set rs. range_ok r) \<and>
     (\<forall>i < length rs. \<forall>j < length rs. i \<noteq> j \<longrightarrow> ranges_disjoint (rs ! i) (rs ! j))"

definition in_range :: "u64 \<Rightarrow> eyt_range \<Rightarrow> bool" where
  "in_range addr r \<longleftrightarrow> r_start r < addr \<and> addr \<le> r_end r"

lemma aligned_bound: "unat (x :: u64) mod 4 = 0 \<Longrightarrow> unat x + 4 \<le> 2 ^ 64"
proof -
  assume "unat x mod 4 = 0"
  then obtain k where k: "unat x = 4 * k" by (auto simp: mod_eq_0_iff_dvd)
  have "4 * k < 2 ^ 64" using unsigned_less [of x, where 'a = nat] k by simp
  then show ?thesis using k by simp
qed

lemma boundary_aligned:
  assumes "ranges_ok rs" "i < 2 * length rs"
  shows "unat (eyt_boundary rs i) mod 4 = 0"
proof -
  have "range_ok (rs ! (i div 2))"
    using assms by (auto simp: ranges_ok_def)
  then show ?thesis by (simp add: range_ok_def eyt_boundary_def)
qed

lemma unat_encode:
  assumes "ranges_ok rs" "i < 2 * length rs"
  shows "unat (eyt_encode rs i) = unat (eyt_boundary rs i) + (if odd i then 1 else 2)"
    and "unat (eyt_encode rs i) + 2 \<le> 2 ^ 64"
    and "odd (unat (eyt_encode rs i)) \<longleftrightarrow> odd i"
proof -
  note a = boundary_aligned [OF assms] 
  note b = aligned_bound [OF a]
  show u: "unat (eyt_encode rs i) = unat (eyt_boundary rs i) + (if odd i then 1 else 2)"
    unfolding eyt_encode_def using b by (auto simp: unat_simps)
  then show "unat (eyt_encode rs i) + 2 \<le> 2 ^ 64" using b by auto
  have "even (unat (eyt_boundary rs i))" using a by presburger
  then show "odd (unat (eyt_encode rs i)) \<longleftrightarrow> odd i" using u by auto
qed

lemma encode_inj:
  assumes "ranges_ok rs" "i < 2 * length rs" "j < 2 * length rs" "eyt_encode rs i = eyt_encode rs j"
  shows "i = j"
proof (rule ccontr)
  assume ne: "i \<noteq> j"
  have par: "odd i \<longleftrightarrow> odd j" using unat_encode(3) assms by metis
  have bd: "eyt_boundary rs i = eyt_boundary rs j"
    using unat_encode(1) [OF assms(1,2)] unat_encode(1) [OF assms(1,3)] assms(4) par
    by (simp add: word_unat_eq_iff split: if_splits)
  have d: "i div 2 \<noteq> j div 2" using ne par by presburger
  then have "ranges_disjoint (rs ! (i div 2)) (rs ! (j div 2))"
    using assms(1-3) by (simp add: ranges_ok_def)
  moreover have "range_ok (rs ! (i div 2))" "range_ok (rs ! (j div 2))"
    using assms(1-3) by (auto simp: ranges_ok_def)
  ultimately show False
    using bd par by (auto simp: ranges_disjoint_def range_ok_def eyt_boundary_def split: if_splits)
qed

definition encodings :: "eyt_range list \<Rightarrow> u64 list" where
  "encodings rs = map (eyt_encode rs) [0 ..< 2 * length rs]"

lemma distinct_encodings: "ranges_ok rs \<Longrightarrow> distinct (encodings rs)"
  by (auto simp: encodings_def distinct_map inj_on_def intro: encode_inj)

lemma mem_encodings: "v \<in> set (encodings rs) \<longleftrightarrow> (\<exists>i < 2 * length rs. v = eyt_encode rs i)"
  by (auto simp: encodings_def)

lemma encode_mem: "i < 2 * length rs \<Longrightarrow> eyt_encode rs i \<in> set (encodings rs)"
  by (auto simp: encodings_def)

text \<open>
  The greatest boundary below \<open>addr + 1\<close> is the start of the range that contains \<open>addr\<close>,
  if there is one, and an end boundary otherwise.
\<close>

lemma predecessor_of_contained:
  assumes ok: "ranges_ok rs" and al: "unat addr mod 4 = 0"
    and i: "i < length rs" "in_range addr (rs ! i)"
    and p: "j < 2 * length rs" "eyt_encode rs j < eyt_addr_query addr"
    and mx: "\<And>v. v \<in> set (encodings rs) \<Longrightarrow> v < eyt_addr_query addr \<Longrightarrow> v \<le> eyt_encode rs j"
  shows "j = 2 * i"
proof (rule ccontr)
  assume ne: "j \<noteq> 2 * i"
  let ?r = "rs ! i" and ?r' = "rs ! (j div 2)"
  have q: "unat (eyt_addr_query addr) = unat addr + 1"
    using aligned_bound [OF al] by (simp add: eyt_addr_query_def unat_simps)
  have r: "range_ok ?r" "range_ok ?r'" using ok i(1) p(1) by (auto simp: ranges_ok_def)
  have ui: "unat (eyt_encode rs (2 * i)) = unat (r_start ?r) + 2"
    using unat_encode(1) [OF ok, of "2 * i"] i(1) by (simp add: eyt_boundary_def)
  have st: "unat (r_start ?r) < unat addr" "unat addr \<le> unat (r_end ?r)"
      "unat (r_start ?r) mod 4 = 0"
    using i(2) r(1) by (auto simp: in_range_def word_less_nat_alt word_le_nat_alt range_ok_def)
  then have gap: "unat (r_start ?r) + 4 \<le> unat addr" using al by presburger
  have "eyt_encode rs (2 * i) \<le> eyt_encode rs j"
  proof (rule mx)
    show "eyt_encode rs (2 * i) \<in> set (encodings rs)" using i(1) by (simp add: encode_mem)
  qed (use ui q gap in \<open>simp add: word_less_nat_alt\<close>)
  then have lt: "unat (eyt_encode rs (2 * i)) < unat (eyt_encode rs j)"
    using encode_inj [OF ok _ p(1), of "2 * i"] ne i(1) by (force simp: word_le_nat_alt word_unat_eq_iff)
  have uj: "unat (eyt_encode rs j) = unat (eyt_boundary rs j) + (if odd j then 1 else 2)"
    using unat_encode(1) [OF ok p(1)] .
  have uq: "unat (eyt_encode rs j) < unat addr + 1" using p(2) q by (simp add: word_less_nat_alt)
  have aj: "unat (eyt_boundary rs j) mod 4 = 0" using boundary_aligned [OF ok p(1)] .
  have b1: "unat (r_start ?r) < unat (eyt_boundary rs j)" "unat (eyt_boundary rs j) < unat addr"
    using lt uj ui uq aj st(3) al by (auto split: if_splits; presburger)+
  show False
  proof (cases "j div 2 = i")
    case True
    then show False using b1 st(2) ne by (auto simp: eyt_boundary_def split: if_splits)
  next
    case False
    then have "ranges_disjoint ?r ?r'" using ok i(1) p(1) by (simp add: ranges_ok_def)
    then show False using b1 st(2) r
      by (auto simp: ranges_disjoint_def range_ok_def eyt_boundary_def word_less_nat_alt
          word_le_nat_alt split: if_splits)
  qed
qed

lemma predecessor_of_outside:
  assumes ok: "ranges_ok rs" and al: "unat addr mod 4 = 0"
    and out: "\<And>r. r \<in> set rs \<Longrightarrow> \<not> in_range addr r"
    and p: "j < 2 * length rs" "eyt_encode rs j < eyt_addr_query addr"
    and mx: "\<And>v. v \<in> set (encodings rs) \<Longrightarrow> v < eyt_addr_query addr \<Longrightarrow> v \<le> eyt_encode rs j"
  shows "odd j"
proof (rule ccontr)
  assume ev: "\<not> odd j"
  let ?r = "rs ! (j div 2)"
  have q: "unat (eyt_addr_query addr) = unat addr + 1"
    using aligned_bound [OF al] by (simp add: eyt_addr_query_def unat_simps)
  have r: "range_ok ?r" "\<not> in_range addr ?r" using ok p(1) out by (auto simp: ranges_ok_def)
  have uj: "unat (eyt_encode rs j) = unat (r_start ?r) + 2"
    using unat_encode(1) [OF ok p(1)] ev by (simp add: eyt_boundary_def)
  have "unat (r_start ?r) < unat addr" using uj p(2) q by (simp add: word_less_nat_alt)
  then have le: "unat (r_end ?r) < unat addr"
    using r(2) by (simp add: in_range_def word_less_nat_alt word_le_nat_alt)
  have j1: "j + 1 < 2 * length rs" "(j + 1) div 2 = j div 2" "odd (j + 1)"
    using p(1) ev by auto
  then have ue: "unat (eyt_encode rs (j + 1)) = unat (r_end ?r) + 1"
    using unat_encode(1) [OF ok j1(1)] by (simp add: eyt_boundary_def)
  have "eyt_encode rs (j + 1) \<le> eyt_encode rs j"
    using mx [of "eyt_encode rs (j + 1)"] j1(1) ue q le by (auto simp: mem_encodings word_less_nat_alt)
  moreover have "unat (r_start ?r) < unat (r_end ?r)" "unat (r_start ?r) mod 4 = 0" "unat (r_end ?r) mod 4 = 0"
    using r(1) by (auto simp: range_ok_def word_less_nat_alt)
  ultimately show False using ue uj by (simp add: word_le_nat_alt) presburger
qed

section \<open>The tree invariant\<close>

definition eyt_wf :: "eyt_tree \<Rightarrow> bool" where
  "eyt_wf t \<longleftrightarrow>
     (let rs = et_ranges t; e = 2 * length rs; T = al_buf (et_tree t); I = al_buf (et_idxs t);
          vs = sort (encodings rs) in
      et_n t = e \<and> al_inv (et_tree t) \<and> al_inv (et_idxs t) \<and>
      unat (al_len (et_tree t)) = e + 1 \<and> unat (al_len (et_idxs t)) = e + 1 \<and>
      map (nth T) (inord 0 e) = vs \<and> T ! e = 1 \<and> I ! e = EYT_NOTFOUND \<and>
      (rs \<noteq> [] \<longrightarrow> et_min_addr t = hd vs \<and> et_max_addr t = last vs + 1) \<and>
      (\<forall>j < e. \<forall>i < e. T ! j = eyt_encode rs i \<longrightarrow>
         I ! j = (if odd i then EYT_NOTFOUND else r_data (rs ! (i div 2)))))"

lemma eyt_wf_sizes:
  assumes "eyt_wf t"
  shows "2 * length (et_ranges t) < length (al_buf (et_tree t))"
    and "2 * length (et_ranges t) < length (al_buf (et_idxs t))"
  using assms by (auto simp: eyt_wf_def Let_def al_inv_def word_le_nat_alt)

text \<open>An address in some range lies between the least and the greatest boundary.\<close>

lemma contained_between:
  assumes ok: "ranges_ok rs" and al: "unat addr mod 4 = 0" and r: "r \<in> set rs" and inr: "in_range addr r"
  defines "vs \<equiv> sort (encodings rs)"
  shows "hd vs < eyt_addr_query addr \<and> eyt_addr_query addr \<le> last vs + 1"
proof -
  obtain i where i: "i < length rs" "r = rs ! i" using r by (auto simp: in_set_conv_nth)
  have q: "unat (eyt_addr_query addr) = unat addr + 1"
    using aligned_bound [OF al] by (simp add: eyt_addr_query_def unat_simps)
  have a: "2 * i < 2 * length rs" "2 * i + 1 < 2 * length rs" using i(1) by auto
  have m: "eyt_encode rs (2 * i) \<in> set vs" "eyt_encode rs (2 * i + 1) \<in> set vs"
    unfolding vs_def using a by (auto intro: encode_mem)
  have us: "unat (eyt_encode rs (2 * i)) = unat (r_start r) + 2"
      "unat (eyt_encode rs (2 * i + 1)) = unat (r_end r) + 1"
    using unat_encode(1) [OF ok a(1)] unat_encode(1) [OF ok a(2)] i(2) by (simp_all add: eyt_boundary_def)
  have "unat (r_start r) < unat addr" "unat (r_start r) mod 4 = 0"
    using inr ok r by (auto simp: ranges_ok_def in_range_def range_ok_def word_less_nat_alt)
  then have "unat (r_start r) + 4 \<le> unat addr" using al by presburger
  moreover have "hd vs \<le> eyt_encode rs (2 * i)" using m(1) unfolding vs_def by (intro sorted_hd_le) auto
  ultimately have "hd vs < eyt_addr_query addr" using us(1) q by (simp add: word_less_nat_alt word_le_nat_alt)
  moreover have "eyt_encode rs (2 * i + 1) \<le> last vs" using m(2) unfolding vs_def by (intro sorted_le_last) auto
  moreover have "unat (last vs + 1) = unat (last vs) + 1"
  proof -
    have "last vs \<in> set (encodings rs)" using m(1) unfolding vs_def by (metis last_in_set set_sort list.set(1) empty_iff)
    then obtain j where j: "j < 2 * length rs" "last vs = eyt_encode rs j" by (auto simp: mem_encodings)
    show ?thesis using unat_encode(2) [OF ok j(1)] j(2) by (simp add: unat_simps)
  qed
  ultimately show ?thesis using us(2) q inr by (auto simp: in_range_def word_le_nat_alt)
qed

text \<open>The position the search ends at, in terms of the registered ranges.\<close>

lemma eyt_search:
  assumes wf: "eyt_wf t" and ok: "ranges_ok (et_ranges t)" and al: "unat addr mod 4 = 0"
  defines "rs \<equiv> et_ranges t" and "T \<equiv> al_buf (et_tree t)"
  shows "\<exists>p. eyt_obj_idx (eyt_addr_query addr) T (et_n t) (et_min_addr t) (et_max_addr t) = Inr p \<and>
     ((\<exists>i < length rs. in_range addr (rs ! i) \<and> p < 2 * length rs \<and> T ! p = eyt_encode rs (2 * i)) \<or>
      ((\<forall>r \<in> set rs. \<not> in_range addr r) \<and>
       (p = 2 * length rs \<or> (\<exists>i < 2 * length rs. odd i \<and> p < 2 * length rs \<and> T ! p = eyt_encode rs i))))"
proof (cases "rs = []")
  case True
  then show ?thesis using wf by (auto simp: eyt_obj_idx_def eyt_wf_def rs_def Let_def)
next
  case False
  let ?e = "2 * length rs" and ?vs = "sort (encodings rs)" and ?q = "eyt_addr_query addr"
  have w: "et_n t = ?e" "map (nth T) (inord 0 ?e) = ?vs" "et_min_addr t = hd ?vs"
      "et_max_addr t = last ?vs + 1"
    using wf False by (auto simp: eyt_wf_def Let_def rs_def T_def)
  have lT: "?e \<le> length T" using eyt_wf_sizes(1) [OF wf] by (simp add: rs_def T_def)
  have ok': "ranges_ok rs" using ok by (simp add: rs_def)
  show ?thesis
  proof (cases "hd ?vs < ?q \<and> ?q \<le> last ?vs + 1")
    case True
    obtain p where p: "eyt_obj_idx ?q T ?e (hd ?vs) (last ?vs + 1) = Inr p" "p < ?e" "T ! p < ?q"
        "\<forall>v \<in> set ?vs. v < ?q \<longrightarrow> v \<le> T ! p"
      using eyt_obj_idx_spec [OF _ _ lT w(2) _ refl, of ?q "last ?vs + 1"] True False by auto
    have "T ! p \<in> set (encodings rs)"
    proof -
      have "T ! p \<in> set (map (nth T) (inord 0 ?e))" using p(2) by (simp add: set_inord_root)
      then show ?thesis using w(2) by simp
    qed
    then obtain j where j: "j < ?e" "T ! p = eyt_encode rs j" by (auto simp: mem_encodings)
    have mx: "v \<le> eyt_encode rs j" if "v \<in> set (encodings rs)" "v < ?q" for v
      using p(4) that j(2) by simp
    show ?thesis
    proof (cases "\<exists>i < length rs. in_range addr (rs ! i)")
      case True
      then obtain i where i: "i < length rs" "in_range addr (rs ! i)" by blast
      have "j = 2 * i" using predecessor_of_contained [OF ok' al i j(1)] p(3) j(2) mx by simp
      then show ?thesis using p i j w by auto
    next
      case False
      then have out: "\<And>r. r \<in> set rs \<Longrightarrow> \<not> in_range addr r" by (metis in_set_conv_nth)
      have "odd j" using predecessor_of_outside [OF ok' al out j(1)] p(3) j(2) mx by simp
      then show ?thesis using p out j w by auto
    qed
  next
    case outside: False
    have res: "eyt_obj_idx ?q T ?e (hd ?vs) (last ?vs + 1) = Inr ?e"
      using eyt_obj_idx_spec [OF _ _ lT w(2) _ refl, of ?q "last ?vs + 1"] outside False by auto
    have "\<forall>r \<in> set rs. \<not> in_range addr r"
      using contained_between [OF ok' al] outside by blast
    then show ?thesis using res w by auto
  qed
qed

section \<open>Rebuilding\<close>

lemma eyt_encode_loop_ok:
  assumes "ranges_ok rs" "2 * length rs \<le> length idxs"
  shows "\<exists>idxs'. eyt_encode_loop rs idxs i = Inr idxs' \<and> length idxs' = length idxs \<and>
           (\<forall>j. idxs' ! j = (if i \<le> j \<and> j < 2 * length rs then eyt_encode rs j else idxs ! j))"
  using assms(2)
proof (induction "2 * length rs - i" arbitrary: idxs i rule: less_induct)
  case less
  note ft = less.prems(1)
  show ?case
  proof (cases "i < 2 * length rs")
    case True
    let ?x = "idxs[i := eyt_encode rs i]"
    obtain idxs' where x: "eyt_encode_loop rs ?x (i + 1) = Inr idxs'" "length idxs' = length ?x"
        "\<forall>j. idxs' ! j = (if i + 1 \<le> j \<and> j < 2 * length rs then eyt_encode rs j else ?x ! j)"
      using less.hyps [of "i + 1" ?x] True less.prems by fastforce
    have "eyt_encode_loop rs idxs i = Inr idxs'"
      using True less.prems x(1) boundary_aligned [OF assms(1) True]
      by (subst eyt_encode_loop.simps) simp
    moreover have "idxs' ! j = (if i \<le> j \<and> j < 2 * length rs then eyt_encode rs j else idxs ! j)" for j
      using x(3) True less.prems by (cases "j = i") auto
    ultimately show ?thesis using x(2) by simp
  next
    case False
    then show ?thesis by (subst eyt_encode_loop.simps) auto
  qed
qed

lemma take_encodings:
  assumes "2 * length rs \<le> length xs" "\<forall>j < 2 * length rs. xs ! j = eyt_encode rs j"
  shows "take (2 * length rs) xs = encodings rs"
  using assms by (intro nth_equalityI) (auto simp: encodings_def)

text \<open>The tree that \<open>rebuild_tree\<close> searches while it stores the data.\<close>

definition filled_tree :: "eyt_range list \<Rightarrow> u64 list \<Rightarrow> bool" where
  "filled_tree rs T \<longleftrightarrow> ranges_ok rs \<and> rs \<noteq> [] \<and> 2 * length rs < length T \<and>
     map (nth T) (inord 0 (2 * length rs)) = sort (encodings rs)"

lemma filled_treeD:
  assumes "filled_tree rs T"
  shows "ranges_ok rs" "rs \<noteq> []" "2 * length rs < length T"
    "map (nth T) (inord 0 (2 * length rs)) = sort (encodings rs)"
  using assms by (auto simp: filled_tree_def)

lemma T_inj: "filled_tree rs T \<Longrightarrow> j < 2 * length rs \<Longrightarrow> j' < 2 * length rs \<Longrightarrow> T ! j = T ! j' \<Longrightarrow> j = j'"
proof -
  assume "filled_tree rs T"
  note T_fill = filled_treeD(4) [OF this] and rs_ok = filled_treeD(1) [OF this]
  have "distinct (map (nth T) (inord 0 (2 * length rs)))"
    using T_fill distinct_encodings [OF rs_ok] by simp
  then have "inj_on (nth T) (set (inord 0 (2 * length rs)))" by (simp add: distinct_map)
  then show "j < 2 * length rs \<Longrightarrow> j' < 2 * length rs \<Longrightarrow> T ! j = T ! j' \<Longrightarrow> j = j'"
    by (auto simp: set_inord_root inj_on_def)
qed

lemma find_boundary:
  assumes ft: "filled_tree rs T" and i: "i < 2 * length rs"
  shows "\<exists>j < 2 * length rs. T ! j = eyt_encode rs i \<and>
     eyt_obj_idx (eyt_encode rs i + 1) T (2 * length rs)
       (hd (sort (encodings rs))) (last (sort (encodings rs)) + 1) = Inr j"
proof -
  note rs_ok = filled_treeD(1) [OF ft] and T_fill = filled_treeD(4) [OF ft]
  let ?vs = "sort (encodings rs)" and ?v = "eyt_encode rs i"
  have mem: "?v \<in> set ?vs" using i by (auto simp: mem_encodings)
  have ne: "?vs \<noteq> []" using mem by (metis empty_iff empty_set)
  have q: "unat (?v + 1) = unat ?v + 1" using unat_encode(2) [OF rs_ok i] by (simp add: unat_simps)
  have "last ?vs \<in> set (encodings rs)" using ne by (metis last_in_set set_sort)
  then obtain l where l: "l < 2 * length rs" "last ?vs = eyt_encode rs l" by (auto simp: mem_encodings)
  have mx: "unat (last ?vs + 1) = unat (last ?vs) + 1"
    using unat_encode(2) [OF rs_ok l(1)] l(2) by (simp add: unat_simps)
  have "hd ?vs \<le> ?v"
    using mem by (intro sorted_hd_le) auto
  moreover have "?v \<le> last ?vs" using mem by (intro sorted_le_last) auto
  ultimately have "hd ?vs < ?v + 1 \<and> ?v + 1 \<le> last ?vs + 1"
    using q mx by (simp add: word_less_nat_alt word_le_nat_alt)
  then obtain j where j: "eyt_obj_idx (?v + 1) T (2 * length rs) (hd ?vs) (last ?vs + 1) = Inr j"
      "j < 2 * length rs" "T ! j < ?v + 1" "\<forall>v \<in> set ?vs. v < ?v + 1 \<longrightarrow> v \<le> T ! j"
    using eyt_obj_idx_spec [OF _ _ _ T_fill _ refl, of "?v + 1" "last ?vs + 1"] filled_treeD(2,3) [OF ft] by auto
  have "?v < ?v + 1" using q by (simp add: word_less_nat_alt)
  then have "T ! j = ?v"
    using j(3,4) mem q by (auto simp: word_less_nat_alt word_le_nat_alt word_unat_eq_iff)
  with j show ?thesis by blast
qed

lemma data_loop_ok:
  assumes "filled_tree rs T" "2 * length rs < length idxs" "i \<le> 2 * length rs"
  shows "\<exists>idxs'. eyt_data_loop rs T (hd (sort (encodings rs))) (last (sort (encodings rs)) + 1) idxs i = Inr idxs' \<and>
     length idxs' = length idxs \<and> idxs' ! (2 * length rs) = idxs ! (2 * length rs) \<and>
     (\<forall>j < 2 * length rs. \<forall>k < 2 * length rs. T ! j = eyt_encode rs k \<longrightarrow>
        idxs' ! j = (if i \<le> k then if odd k then EYT_NOTFOUND else r_data (rs ! (k div 2)) else idxs ! j))"
  using assms
proof (induction "2 * length rs - i" arbitrary: idxs i rule: less_induct)
  case less
  note ft = less.prems(1)
  show ?case
  proof (cases "i < 2 * length rs")
    case True
    let ?d = "if odd i then EYT_NOTFOUND else r_data (rs ! (i div 2))"
    obtain p where p: "p < 2 * length rs" "T ! p = eyt_encode rs i"
        "eyt_obj_idx (eyt_encode rs i + 1) T (2 * length rs)
           (hd (sort (encodings rs))) (last (sort (encodings rs)) + 1) = Inr p"
      using find_boundary [OF ft True] by blast
    let ?x = "idxs[p := ?d]"
    have dec: "2 * length rs - (i + 1) < 2 * length rs - i" "i + 1 \<le> 2 * length rs"
        "2 * length rs < length ?x"
      using True less.prems by auto
    obtain idxs' where x: "eyt_data_loop rs T (hd (sort (encodings rs))) (last (sort (encodings rs)) + 1) ?x (i + 1) = Inr idxs'"
        "length idxs' = length ?x" "idxs' ! (2 * length rs) = ?x ! (2 * length rs)"
        "\<forall>j < 2 * length rs. \<forall>k < 2 * length rs. T ! j = eyt_encode rs k \<longrightarrow>
          idxs' ! j = (if i + 1 \<le> k then if odd k then EYT_NOTFOUND else r_data (rs ! (k div 2)) else ?x ! j)"
      using less.hyps [OF dec(1) ft dec(3) dec(2)] by blast
    have "eyt_data_loop rs T (hd (sort (encodings rs))) (last (sort (encodings rs)) + 1) idxs i = Inr idxs'"
      using True p x(1) less.prems filled_treeD(3) [OF ft] by (subst eyt_data_loop.simps) simp
    moreover have "idxs' ! (2 * length rs) = idxs ! (2 * length rs)" using x(3) p(1) by simp
    moreover have "idxs' ! j = (if i \<le> k then if odd k then EYT_NOTFOUND else r_data (rs ! (k div 2)) else idxs ! j)"
      if jk: "j < 2 * length rs" "k < 2 * length rs" "T ! j = eyt_encode rs k" for j k
    proof -
      have "j = p \<longleftrightarrow> k = i"
        using T_inj [OF ft jk(1) p(1)] jk(3) p(2) encode_inj [OF filled_treeD(1) [OF ft] jk(2) True] by auto
      then show ?thesis using x(4) jk p(1) less.prems by (cases "k = i") auto
    qed
    ultimately show ?thesis using x(2) by auto
  next
    case False
    then show ?thesis using less.prems by (subst eyt_data_loop.simps) auto
  qed
qed

lemma al_with_buf:
  assumes "al_inv a" "length b = length (al_buf a)"
  shows "al_inv (al_with_buf a b) \<and> al_buf (al_with_buf a b) = b \<and> al_len (al_with_buf a b) = al_len a"
  using assms by (auto simp: al_inv_def al_with_buf_def al_buf_def split: al_store.splits)

lemma arraylist_grow_to:
  assumes "al_inv a" "alloc_total E" "unat (al_len a) \<le> n" "n \<le> 2 ^ 58"
  shows "\<exists>a'. arraylist_grow E a (of_nat n - al_len a) = Inr a' \<and> al_inv a' \<and>
              unat (al_len a') = n \<and> n \<le> length (al_buf a')"
proof -
  have u: "unat (of_nat n :: u64) = n" using assms(4) by (simp add: unat_simps)
  then have "unat (al_len a) + unat (of_nat n - al_len a) \<le> 2 ^ 58"
    using assms(3,4) by (simp add: unat_simps)
  then obtain a' where "arraylist_grow E a (of_nat n - al_len a) = Inr a'" "al_inv a'" "al_len a' = of_nat n"
    using arraylist_grow_ok [OF assms(1,2)] by fastforce
  then show ?thesis using u by (auto simp: al_inv_def word_le_nat_alt)
qed

lemma rebuild_tree_wf:
  assumes ok: "ranges_ok (et_ranges t)" "et_ranges t \<noteq> []" and E: "alloc_total E"
    and inv: "al_inv (et_tree t)" "al_inv (et_idxs t)"
    and len: "unat (al_len (et_tree t)) \<le> 2 * length (et_ranges t) + 1"
      "unat (al_len (et_idxs t)) \<le> 2 * length (et_ranges t) + 1"
    and room: "length (et_ranges t) < 2 ^ 56"
  shows "\<exists>t'. rebuild_tree E t = Inr t' \<and> eyt_wf t' \<and> et_ranges t' = et_ranges t"
proof -
  define rs e where "rs = et_ranges t" and "e = 2 * length rs"
  have e1: "e + 1 \<le> 2 ^ 58" "0 < e" using room ok(2) by (simp_all add: e_def rs_def)
  obtain ta where ta: "arraylist_grow E (et_tree t) (of_nat (e + 1) - al_len (et_tree t)) = Inr ta"
      "al_inv ta" "unat (al_len ta) = e + 1" "e + 1 \<le> length (al_buf ta)"
    using arraylist_grow_to [OF inv(1) E, of "e + 1"] len(1) e1 by (auto simp: e_def rs_def)
  obtain ia where ia: "arraylist_grow E (et_idxs t) (of_nat (e + 1) - al_len (et_idxs t)) = Inr ia"
      "al_inv ia" "unat (al_len ia) = e + 1" "e + 1 \<le> length (al_buf ia)"
    using arraylist_grow_to [OF inv(2) E, of "e + 1"] len(2) e1 by (auto simp: e_def rs_def)
  let ?i0 = "(al_buf ia)[e := EYT_NOTFOUND]" and ?t0 = "(al_buf ta)[e := 1]"
  obtain i1 where i1: "eyt_encode_loop rs ?i0 0 = Inr i1" "length i1 = length ?i0"
      "\<forall>j. i1 ! j = (if j < e then eyt_encode rs j else ?i0 ! j)"
    using eyt_encode_loop_ok [of rs ?i0 0] ok(1) ia(4) by (auto simp: e_def rs_def)
  define vs where "vs = sort (encodings rs)"
  have lv: "length vs = e" by (simp add: vs_def encodings_def e_def)
  have "take e i1 = encodings rs"
    unfolding e_def by (rule take_encodings) (use i1 ia(4) in \<open>simp_all add: e_def\<close>)
  then have i2: "qsort_prefix e i1 = vs @ drop e i1" by (simp add: qsort_prefix_def vs_def)
  have "0 < length vs" using lv e1(2) by simp
  then have mn: "(vs @ drop e i1) ! 0 = hd vs" "(vs @ drop e i1) ! (e - 1) = last vs"
    using lv by (auto simp: nth_append hd_conv_nth last_conv_nth)
  obtain T where T: "eytzinger (vs @ drop e i1) ?t0 0 0 e = Inr (0 + length (inord 0 e), T)"
      "length T = length ?t0" "map (nth T) (inord 0 e) = take (length (inord 0 e)) (drop 0 (vs @ drop e i1))"
      "\<forall>j. j \<notin> set (inord 0 e) \<longrightarrow> T ! j = ?t0 ! j"
    using eytzinger_fill [of e ?t0 0 0 "vs @ drop e i1"] ta(4) lv by (auto simp: length_inord_root)
  have Tv: "map (nth T) (inord 0 e) = vs" using T(3) lv by (simp add: length_inord_root)
  have Te: "T ! e = 1" using T(4) ta(4) by (simp add: set_inord_root)
  have ft: "filled_tree rs T"
    unfolding filled_tree_def using ok T(2) ta(4) Tv by (auto simp: rs_def e_def vs_def)
  have li: "e < length (vs @ drop e i1)" using lv i1(2) ia(4) by simp
  obtain I where I: "eyt_data_loop rs T (hd vs) (last vs + 1) (vs @ drop e i1) 0 = Inr I"
      "length I = length (vs @ drop e i1)" "I ! e = (vs @ drop e i1) ! e"
      "\<forall>j < e. \<forall>k < e. T ! j = eyt_encode rs k \<longrightarrow>
          I ! j = (if odd k then EYT_NOTFOUND else r_data (rs ! (k div 2)))"
    using data_loop_ok [OF ft, of "vs @ drop e i1" 0] li by (auto simp: e_def vs_def)
  have Ie: "I ! e = EYT_NOTFOUND"
    using I(3) lv i1(2,3) ia(4) by (simp add: nth_append)
  let ?t' = "t\<lparr>et_tree := al_with_buf ta T, et_idxs := al_with_buf ia I,
             et_min_addr := hd vs, et_max_addr := last vs + 1, et_n := e\<rparr>"
  have rg: "rget (vs @ drop e i1) 0 = Inr (hd vs)" "rget (vs @ drop e i1) (e - 1) = Inr (last vs)"
    using mn lv e1(2) by (auto simp: rget_def)
  have res: "rebuild_tree E t = Inr ?t'"
    using ta ia i1(1) i2 rg T(1) I(1)
    by (simp add: rebuild_tree_def Let_def rs_def [symmetric] e_def [symmetric]
        del: of_nat_add of_nat_mult of_nat_Suc)
  have bt: "al_inv (al_with_buf ta T)" "al_buf (al_with_buf ta T) = T" "al_len (al_with_buf ta T) = al_len ta"
    using al_with_buf [OF ta(2), of T] T(2) by auto
  have "length I = length (al_buf ia)" using I(2) i1(2) lv ia(4) by simp
  then have bi: "al_inv (al_with_buf ia I)" "al_buf (al_with_buf ia I) = I" "al_len (al_with_buf ia I) = al_len ia"
    using al_with_buf [OF ia(2), of I] by auto
  have "eyt_wf ?t'"
    using bt bi ta(3) ia(3) Tv Te Ie I(4)
    by (simp add: eyt_wf_def Let_def rs_def [symmetric] e_def [symmetric] vs_def [symmetric])
  with res show ?thesis by auto
qed

section \<open>Look-ups\<close>

lemma in_range_unique:
  assumes "ranges_ok rs" "i < length rs" "j < length rs" "in_range addr (rs ! i)" "in_range addr (rs ! j)"
  shows "i = j"
proof (rule ccontr)
  assume "i \<noteq> j"
  then have "ranges_disjoint (rs ! i) (rs ! j)" using assms(1-3) by (simp add: ranges_ok_def)
  then show False using assms(4,5) by (auto simp: ranges_disjoint_def in_range_def)
qed

lemma find_in_range:
  assumes "ranges_ok rs" "i < length rs" "in_range addr (rs ! i)"
  shows "find (in_range addr) rs = Some (rs ! i)"
proof -
  have "find (in_range addr) rs \<noteq> None" using assms(2,3) nth_mem [of i rs] unfolding find_None_iff by blast
  then obtain r where r: "find (in_range addr) rs = Some r" by blast
  then obtain j where "j < length rs" "in_range addr (rs ! j)" "r = rs ! j"
    by (auto simp: find_Some_iff)
  then show ?thesis using r in_range_unique [OF assms(1,2)] assms(3) by metis
qed

lemma eyt_lookup:
  assumes wf: "eyt_wf t" and ok: "ranges_ok (et_ranges t)" and al: "unat addr mod 4 = 0"
  shows "eyt_tree_find_data t addr = Inr (case find (in_range addr) (et_ranges t) of
           None \<Rightarrow> EYT_NOTFOUND | Some r \<Rightarrow> r_data r)"
    and "eyt_tree_is_in_range t addr = Inr (\<exists>r \<in> set (et_ranges t). in_range addr r)"
proof -
  let ?rs = "et_ranges t" and ?T = "al_buf (et_tree t)" and ?I = "al_buf (et_idxs t)"
  have w: "?T ! (2 * length ?rs) = 1" "?I ! (2 * length ?rs) = EYT_NOTFOUND"
      "\<And>j i. j < 2 * length ?rs \<Longrightarrow> i < 2 * length ?rs \<Longrightarrow> ?T ! j = eyt_encode ?rs i \<Longrightarrow>
         ?I ! j = (if odd i then EYT_NOTFOUND else r_data (?rs ! (i div 2)))"
    using wf by (auto simp: eyt_wf_def Let_def)
  note sz = eyt_wf_sizes [OF wf]
  obtain p where p: "eyt_obj_idx (eyt_addr_query addr) ?T (et_n t) (et_min_addr t) (et_max_addr t) = Inr p"
    and c: "(\<exists>i < length ?rs. in_range addr (?rs ! i) \<and> p < 2 * length ?rs \<and> ?T ! p = eyt_encode ?rs (2 * i)) \<or>
      ((\<forall>r \<in> set ?rs. \<not> in_range addr r) \<and>
       (p = 2 * length ?rs \<or> (\<exists>i < 2 * length ?rs. odd i \<and> p < 2 * length ?rs \<and> ?T ! p = eyt_encode ?rs i)))"
    using eyt_search [OF wf ok al] by blast
  have low: "x AND 1 = 0 \<longleftrightarrow> even (unat x)" for x :: u64
  proof -
    have "unat (x AND 1) = unat x mod 2" by (simp add: and_one_eq unat_mod)
    then show ?thesis by (metis even_iff_mod_2_eq_zero unat_eq_zero)
  qed
  from c have "rget ?I p = Inr (case find (in_range addr) ?rs of None \<Rightarrow> EYT_NOTFOUND | Some r \<Rightarrow> r_data r) \<and>
     rbind (rget ?T p) (\<lambda>v. Inr (v AND 1 = 0)) = Inr (\<exists>r \<in> set ?rs. in_range addr r)"
  proof (elim disjE exE conjE)
    fix i assume i: "i < length ?rs" "in_range addr (?rs ! i)" "p < 2 * length ?rs" "?T ! p = eyt_encode ?rs (2 * i)"
    have "?I ! p = r_data (?rs ! i)" using w(3) [OF i(3) _ i(4)] i(1) by simp
    moreover have "even (unat (eyt_encode ?rs (2 * i)))" using unat_encode(3) [OF ok, of "2 * i"] i(1) by simp
    moreover have "\<exists>r \<in> set ?rs. in_range addr r" using i(1,2) by (meson nth_mem)
    ultimately show ?thesis using find_in_range [OF ok i(1,2)] sz i(3,4) by (simp add: low)
  next
    assume "\<forall>r \<in> set ?rs. \<not> in_range addr r" "p = 2 * length ?rs"
    moreover then have "find (in_range addr) ?rs = None" by (auto simp: find_None_iff)
    ultimately show ?thesis using w(1,2) sz by (simp add: low)
  next
    fix i assume i: "\<forall>r \<in> set ?rs. \<not> in_range addr r" "i < 2 * length ?rs" "odd i" "p < 2 * length ?rs"
      "?T ! p = eyt_encode ?rs i"
    have "?I ! p = EYT_NOTFOUND" using w(3) [OF i(4,2,5)] i(3) by simp
    moreover have "odd (unat (eyt_encode ?rs i))" using unat_encode(3) [OF ok i(2)] i(3) by simp
    moreover have "find (in_range addr) ?rs = None" using i(1) by (auto simp: find_None_iff)
    ultimately show ?thesis using sz i(1,4,5) by (auto simp: low)
  qed
  then show "eyt_tree_find_data t addr = Inr (case find (in_range addr) ?rs of None \<Rightarrow> EYT_NOTFOUND | Some r \<Rightarrow> r_data r)"
    and "eyt_tree_is_in_range t addr = Inr (\<exists>r \<in> set ?rs. in_range addr r)"
    using p by (simp_all add: eyt_tree_find_data_def eyt_tree_is_in_range_def)
qed

text \<open>A sequence of registrations.\<close>

fun eyt_add_all :: "heap_env \<Rightarrow> eyt_tree \<Rightarrow> eyt_range list \<Rightarrow> eyt_tree result" where
  "eyt_add_all E t [] = Inr t"
| "eyt_add_all E t (r # rs) =
     rbind (eyt_tree_add_range E t (r_start r) (r_end r) (r_data r)) (\<lambda>t. eyt_add_all E t rs)"

lemma ranges_ok_prefix: "ranges_ok (rs @ rs') \<Longrightarrow> ranges_ok rs"
proof -
  assume a: "ranges_ok (rs @ rs')"
  have "ranges_disjoint (rs ! i) (rs ! j)" if "i < length rs" "j < length rs" "i \<noteq> j" for i j
  proof -
    have "ranges_disjoint ((rs @ rs') ! i) ((rs @ rs') ! j)" using a that by (simp add: ranges_ok_def)
    then show ?thesis using that by (simp add: nth_append)
  qed
  then show ?thesis using a by (simp add: ranges_ok_def)
qed

lemma eyt_tree_add_range_wf:
  assumes wf: "eyt_wf t" and ok: "ranges_ok (et_ranges t @ [r])" and E: "alloc_total E"
    and room: "length (et_ranges t) + 1 < 2 ^ 56"
  shows "\<exists>t'. eyt_tree_add_range E t (r_start r) (r_end r) (r_data r) = Inr t' \<and> eyt_wf t' \<and>
              et_ranges t' = et_ranges t @ [r]"
proof -
  let ?t = "t\<lparr>et_ranges := et_ranges t @ [r]\<rparr>"
  have "\<exists>t'. rebuild_tree E ?t = Inr t' \<and> eyt_wf t' \<and> et_ranges t' = et_ranges ?t"
    by (rule rebuild_tree_wf) (use assms in \<open>auto simp: eyt_wf_def Let_def\<close>)
  moreover have "range_ok r" using ok by (simp add: ranges_ok_def)
  ultimately show ?thesis by (cases r) (simp add: eyt_tree_add_range_def range_ok_def)
qed

lemma eyt_add_all_wf:
  assumes "eyt_wf t" "ranges_ok (et_ranges t @ rs)" "alloc_total E" "length (et_ranges t @ rs) < 2 ^ 56"
  shows "\<exists>t'. eyt_add_all E t rs = Inr t' \<and> eyt_wf t' \<and> et_ranges t' = et_ranges t @ rs"
  using assms
proof (induction rs arbitrary: t)
  case (Cons r rs)
  obtain t1 where t1: "eyt_tree_add_range E t (r_start r) (r_end r) (r_data r) = Inr t1" "eyt_wf t1"
      "et_ranges t1 = et_ranges t @ [r]"
    using eyt_tree_add_range_wf [OF Cons.prems(1) _ Cons.prems(3), of r] Cons.prems(2,4)
      ranges_ok_prefix [of "et_ranges t @ [r]" rs] by auto
  then show ?case using Cons.IH [OF t1(2)] Cons.prems by auto
qed auto

lemma eyt_tree_init_wf:
  assumes "alloc_total E"
  shows "\<exists>t. eyt_tree_init E = Inr t \<and> eyt_wf t \<and> et_ranges t = []"
proof -
  let ?a = "fst (arraylist_new E zero_arraylist 0)"
  have a: "al_inv ?a" "al_list ?a = []"
    using arraylist_new_inv [of zero_arraylist AL_N_INLINE E 0] assms
    by (simp_all add: arraylist_new_def AL_N_INLINE_def zero_arraylist_def)
  then have rm: "al_room ?a" using al_list_len [OF a(1)] by (simp add: al_room_def)
  have one: "\<exists>a'. arraylist_push E ?a x = Inr a' \<and> al_inv a' \<and> unat (al_len a') = 1 \<and> al_buf a' ! 0 = x" for x
  proof -
    obtain a' where a': "arraylist_push E ?a x = Inr a'" "al_inv a'" "al_list a' = [x]"
      using arraylist_push_ok [OF a(1) assms rm, of x] a(2) by auto
    then have l: "unat (al_len a') = 1" using al_list_len [OF a'(2)] by simp
    then have "al_buf a' ! 0 = x" using a'(3) by (cases "al_buf a'") (simp_all add: al_list_def)
    with a' l show ?thesis by blast
  qed
  show ?thesis using one [of 1] one [of EYT_NOTFOUND]
    by (auto simp: eyt_tree_init_def Let_def eyt_wf_def encodings_def)
qed


definition sample_ranges :: "eyt_range list" where
  "sample_ranges = [\<lparr>r_start = 64, r_end = 128, r_data = 7\<rparr>, \<lparr>r_start = 32, r_end = 64, r_data = 9\<rparr>]"


end
