(* ===== verification/APInt_Words.thy ===== *)
theory APInt_Words
  imports Prelude "HOL-Library.Signed_Division"
begin

unbundle bit_operations_syntax

text \<open>
  The limb-level half of \<open>APInt.c\<close>: loading a little-endian byte buffer into 64-bit
  limbs and storing it back, masking, comparison, addition and subtraction with carry,
  multiplication, binary long division, shifts, extension and bit counting.  An array of
  \<open>nw\<close> limbs is a list of length \<open>nw\<close>.  Widths (\<open>unsigned numbits\<close>) are natural numbers:
  primitive types are limited to far less than \<open>2^31\<close> bits, so none of the C index
  computations on them wraps.

  Every routine is related to the integer its limbs denote (\<open>wval\<close>), either by an
  arithmetic equation or bit by bit.
\<close>

section \<open>Widths and masks\<close>

definition APINT_NWORDS :: "nat \<Rightarrow> nat" where
  "APINT_NWORDS nbits = (nbits + 63) div 64"

definition APINT_NBYTES :: "nat \<Rightarrow> nat" where
  "APINT_NBYTES nbits = (nbits + 7) div 8"

definition UINT64_MAX :: u64 where
  "UINT64_MAX = - 1"

definition top_word_mask :: "nat \<Rightarrow> u64" where
  "top_word_mask numbits =
     (let r = numbits mod 64 in if r \<noteq> 0 then push_bit r 1 - 1 else UINT64_MAX)"

section \<open>Memory\<close>

text \<open>The limb that \<open>memcpy\<close> leaves in memory on a little-endian machine, from up to eight
  bytes, and the eight bytes of a limb.\<close>

fun limb_of_bytes :: "u8 list \<Rightarrow> u64" where
  "limb_of_bytes [] = 0"
| "limb_of_bytes (b # bs) = ucast b OR push_bit 8 (limb_of_bytes bs)"

definition bytes_of_limb :: "u64 \<Rightarrow> u8 list" where
  "bytes_of_limb w = map (\<lambda>k. ucast (drop_bit (8 * k) w)) [0 ..< 8]"

definition mask_top :: "u64 list \<Rightarrow> nat \<Rightarrow> nat \<Rightarrow> u64 list" where
  "mask_top a nw numbits = a[nw - 1 := a ! (nw - 1) AND top_word_mask numbits]"

definition load :: "u8 list \<Rightarrow> nat \<Rightarrow> u64 list result" where
  "load src numbits =
     (let nw = APINT_NWORDS numbits; nb = APINT_NBYTES numbits in
      if length src < nb then Inl OutOfBounds
      else let dst = map (\<lambda>i. limb_of_bytes (take 8 (drop (8 * i) (take nb src)))) [0 ..< nw] in
           rbind (rget dst (nw - 1)) (\<lambda>top. rset dst (nw - 1) (top AND top_word_mask numbits)))"

definition store :: "u64 list \<Rightarrow> nat \<Rightarrow> u8 list" where
  "store src numbits = take (APINT_NBYTES numbits) (concat (map bytes_of_limb src))"

section \<open>Addition, subtraction, comparison\<close>

fun is_zero :: "u64 list \<Rightarrow> bool" where
  "is_zero [] = True"
| "is_zero (w # a) = (if w \<noteq> 0 then False else is_zero a)"

definition is_negative :: "u64 list \<Rightarrow> nat \<Rightarrow> bool" where
  "is_negative a numbits =
     (let nw = APINT_NWORDS numbits; signbit = (numbits - 1) mod 64 in
      drop_bit signbit (a ! (nw - 1)) AND 1 \<noteq> 0)"

fun compare_words :: "u64 list \<Rightarrow> u64 list \<Rightarrow> nat \<Rightarrow> int" where
  "compare_words a b 0 = 0"
| "compare_words a b (Suc i) =
     (if a ! i < b ! i then - 1 else if a ! i > b ! i then 1 else compare_words a b i)"

text \<open>The carry is passed from limb to limb; the limb of \<open>r\<close> is written after those of \<open>a\<close>
  and \<open>b\<close> at the same index are read, so \<open>r\<close> may be \<open>a\<close>.\<close>

fun addsub_loop :: "bool \<Rightarrow> bool \<Rightarrow> u64 list \<Rightarrow> u64 list \<Rightarrow> u64 list \<times> bool" where
  "addsub_loop negate_b carry (x # a) (y # b) =
     (let bw = (if negate_b then NOT y else y);
          s = x + bw;
          c1 = s < x;
          s2 = s + of_bool carry;
          c2 = s2 < s;
          (r, c) = addsub_loop negate_b (c1 \<or> c2) a b
      in (s2 # r, c))"
| "addsub_loop negate_b carry _ _ = ([], carry)"

definition addsub_words :: "u64 list \<Rightarrow> u64 list \<Rightarrow> bool \<Rightarrow> u64 list \<times> bool" where
  "addsub_words a b negate_b = addsub_loop negate_b negate_b a b"

fun negate_loop :: "bool \<Rightarrow> u64 list \<Rightarrow> u64 list" where
  "negate_loop carry [] = []"
| "negate_loop carry (w # a) = (NOT w + of_bool carry) # negate_loop (w = 0 \<and> carry) a"

definition negate_words :: "u64 list \<Rightarrow> u64 list" where
  "negate_words a = negate_loop True a"

section \<open>Multiplication\<close>

definition mul64 :: "u64 \<Rightarrow> u64 \<Rightarrow> u64 \<times> u64" where
  "mul64 a b =
     (let a0 = ucast a :: u32; a1 = ucast (drop_bit 32 a) :: u32;
          b0 = ucast b :: u32; b1 = ucast (drop_bit 32 b) :: u32;
          p00 = ucast a0 * ucast b0 :: u64;
          p01 = ucast a0 * ucast b1 :: u64;
          p10 = ucast a1 * ucast b0 :: u64;
          p11 = ucast a1 * ucast b1 :: u64;
          mid = p01 + p10;
          mid_carry = (if mid < p01 then 1 else 0);
          lo_result = p00 + push_bit 32 mid;
          lo_carry = (if lo_result < p00 then 1 else 0)
      in (lo_result, p11 + drop_bit 32 mid + push_bit 32 mid_carry + lo_carry))"

text \<open>\<open>mac_limb\<close> takes \<open>*rword\<close>, \<open>*carry\<close>, \<open>a\<close> and \<open>b\<close> and returns the new \<open>*rword\<close> and \<open>*carry\<close>:
  with a 128-bit product where the compiler has one, and the portable version.\<close>

definition mac_limb :: "u64 \<Rightarrow> u64 \<Rightarrow> u64 \<Rightarrow> u64 \<Rightarrow> u64 \<times> u64" where
  "mac_limb rword carry a b =
     (let prod = ucast a * ucast b + ucast rword + ucast carry :: 128 word
      in (ucast prod, ucast (drop_bit 64 prod)))"

definition mac_limb_portable :: "u64 \<Rightarrow> u64 \<Rightarrow> u64 \<Rightarrow> u64 \<Rightarrow> u64 \<times> u64" where
  "mac_limb_portable rword carry a b =
     (let (plo, phi) = mul64 a b;
          s1 = plo + rword;
          c1 = of_bool (s1 < plo);
          s2 = s1 + carry;
          c2 = of_bool (s2 < s1)
      in (s2, phi + c1 + c2))"

text \<open>The inner loop over \<open>j\<close>, with \<open>k\<close> iterations to go, and the outer loop over \<open>i\<close>.\<close>

fun mul_inner ::
  "(u64 \<Rightarrow> u64 \<Rightarrow> u64 \<Rightarrow> u64 \<Rightarrow> u64 \<times> u64) \<Rightarrow> u64 \<Rightarrow> u64 list \<Rightarrow> nat \<Rightarrow> nat \<Rightarrow> nat \<Rightarrow> u64 \<Rightarrow> u64 list \<Rightarrow> u64 list"
where
  "mul_inner mac ai b i j 0 carry r = r"
| "mul_inner mac ai b i j (Suc k) carry r =
     (let (w, c) = mac (r ! (i + j)) carry ai (b ! j)
      in mul_inner mac ai b i (j + 1) k c (r[i + j := w]))"

fun mul_outer ::
  "(u64 \<Rightarrow> u64 \<Rightarrow> u64 \<Rightarrow> u64 \<Rightarrow> u64 \<times> u64) \<Rightarrow> u64 list \<Rightarrow> u64 list \<Rightarrow> nat \<Rightarrow> nat \<Rightarrow> nat \<Rightarrow> u64 list \<Rightarrow> u64 list"
where
  "mul_outer mac a b nw i 0 r = r"
| "mul_outer mac a b nw i (Suc k) r =
     mul_outer mac a b nw (i + 1) k
       (if a ! i = 0 then r else mul_inner mac (a ! i) b i 0 (nw - i) 0 r)"

definition mul_words ::
  "(u64 \<Rightarrow> u64 \<Rightarrow> u64 \<Rightarrow> u64 \<Rightarrow> u64 \<times> u64) \<Rightarrow> u64 list \<Rightarrow> u64 list \<Rightarrow> nat \<Rightarrow> u64 list"
where
  "mul_words mac a b nw = mul_outer mac a b nw 0 nw (replicate nw 0)"

section \<open>Denotation\<close>

text \<open>The integer that limbs and bytes denote, least significant first.\<close>

fun wval :: "u64 list \<Rightarrow> int" where
  "wval [] = 0"
| "wval (w # ws) = uint w + 2 ^ 64 * wval ws"

fun bval :: "u8 list \<Rightarrow> int" where
  "bval [] = 0"
| "bval (b # bs) = uint b + 2 ^ 8 * bval bs"

text \<open>The unsigned and the signed \<open>n\<close>-bit number in a buffer.\<close>

definition uval :: "nat \<Rightarrow> u8 list \<Rightarrow> int" where
  "uval n p = take_bit n (bval p)"

definition sval :: "nat \<Rightarrow> u8 list \<Rightarrow> int" where
  "sval n p = signed_take_bit (n - 1) (bval p)"

lemma take_bit_uint [simp]: "LENGTH('a::len) \<le> n \<Longrightarrow> take_bit n (uint (w :: 'a word)) = uint w"
  by (rule take_bit_int_eq_self [OF uint_ge_0 less_le_trans [OF uint_lt2p]]) simp

lemma take_bit_add_exp [simp]: "take_bit n (x + 2 ^ n * d) = take_bit n (x :: int)"
  by (simp add: take_bit_eq_mod)

lemma take_bit_diff_exp [simp]: "take_bit n (x - 2 ^ n * d) = take_bit n (x :: int)"
  using take_bit_add_exp [of n x "- d"] by simp

lemma wval_concat_bit: "wval (w # ws) = concat_bit 64 (uint w) (wval ws)"
  by (simp add: concat_bit_eq push_bit_eq_mult)

lemma bit_wval:
  "bit (wval ws) n \<longleftrightarrow> n div 64 < length ws \<and> bit (ws ! (n div 64)) (n mod 64)"
proof (induction ws arbitrary: n)
  case (Cons w ws)
  show ?case
  proof (cases "n < 64")
    case True
    then show ?thesis by (simp add: wval_concat_bit bit_concat_bit_iff bit_uint_iff del: wval.simps)
  next
    case False
    then have "n div 64 = Suc ((n - 64) div 64)" "(n - 64) mod 64 = n mod 64"
      by (simp_all add: div_if [of n] mod_if [of n])
    then show ?thesis using Cons False
      by (simp add: wval_concat_bit bit_concat_bit_iff del: wval.simps)
  qed
qed simp

lemma wval_nonneg [simp]: "0 \<le> wval ws"
  by (induction ws) auto

lemma wval_less: "wval ws < 2 ^ (64 * length ws)"
proof (induction ws)
  case (Cons w ws)
  have "uint w < 2 ^ 64" using uint_lt2p [of w] by simp
  moreover have "wval ws + 1 \<le> 2 ^ (64 * length ws)" using Cons by simp
  then have "(2::int) ^ 64 * (wval ws + 1) \<le> 2 ^ 64 * 2 ^ (64 * length ws)" by (rule mult_left_mono) simp
  ultimately show ?case by (simp add: power_add algebra_simps)
qed simp

lemma wval_append: "wval (xs @ ys) = wval xs + 2 ^ (64 * length xs) * wval ys"
  by (induction xs) (auto simp: power_add algebra_simps)

lemma wval_update:
  "k < length ws \<Longrightarrow> wval (ws[k := w]) = wval ws + (uint w - uint (ws ! k)) * 2 ^ (64 * k)"
proof (induction ws arbitrary: k)
  case (Cons x ws)
  show ?case
  proof (cases k)
    case (Suc j)
    then have "wval (ws[j := w]) = wval ws + (uint w - uint (ws ! j)) * 2 ^ (64 * j)" using Cons by simp
    then show ?thesis using Suc by (simp add: power_add)
  qed simp
qed simp

lemma wval_take_Suc:
  "k < length ws \<Longrightarrow> wval (take (Suc k) ws) = wval (take k ws) + 2 ^ (64 * k) * uint (ws ! k)"
  by (simp add: take_Suc_conv_app_nth wval_append)

lemma wval_split:
  "k \<le> length ws \<Longrightarrow> wval ws = wval (take k ws) + 2 ^ (64 * k) * wval (drop k ws)"
  using wval_append [of "take k ws" "drop k ws"] by simp

lemma wval_replicate_0 [simp]: "wval (replicate n 0) = 0"
  by (induction n) auto

lemma take_bit_wval: "64 * length ws \<le> n \<Longrightarrow> take_bit n (wval ws) = wval ws"
  by (rule take_bit_int_eq_self [OF wval_nonneg less_le_trans [OF wval_less]]) simp

lemma bval_concat_bit: "bval (b # bs) = concat_bit 8 (uint b) (bval bs)"
  by (simp add: concat_bit_eq push_bit_eq_mult)

lemma bit_bval:
  "bit (bval bs) n \<longleftrightarrow> n div 8 < length bs \<and> bit (bs ! (n div 8)) (n mod 8)"
proof (induction bs arbitrary: n)
  case (Cons b bs)
  show ?case
  proof (cases "n < 8")
    case True
    then show ?thesis by (simp add: bval_concat_bit bit_concat_bit_iff bit_uint_iff del: bval.simps)
  next
    case False
    then have "n div 8 = Suc ((n - 8) div 8)" "(n - 8) mod 8 = n mod 8"
      by (simp_all add: div_if [of n] mod_if [of n])
    then show ?thesis using Cons False
      by (simp add: bval_concat_bit bit_concat_bit_iff del: bval.simps)
  qed
qed simp

lemma bval_take: "bval (take k bs) = take_bit (8 * k) (bval bs)"
  by (rule bit_eqI) (auto simp: bit_bval bit_take_bit_iff less_mult_imp_div_less div_less_iff_less_mult mult.commute)

lemma bit_top_word_mask: "0 < n \<Longrightarrow> k < 64 \<Longrightarrow>
   bit (top_word_mask n) k \<longleftrightarrow> 64 * (APINT_NWORDS n - 1) + k < n"
proof -
  assume n: "0 < n" and k: "k < 64"
  obtain q r where q: "n = 64 * q + r" "q = n div 64" "r = n mod 64" "r < 64" by simp
  have "push_bit r 1 - (1::u64) = mask r" by (simp add: mask_eq_exp_minus_1 push_bit_eq_mult)
  then have t: "top_word_mask n = (if r = 0 then - 1 else mask r)"
    by (simp add: top_word_mask_def UINT64_MAX_def Let_def q(3) [symmetric])
  have w: "APINT_NWORDS n = (if r = 0 then q else q + 1)"
    using q(1,4) unfolding APINT_NWORDS_def by (cases "r = 0") auto
  show ?thesis
  proof (cases "r = 0")
    case True
    then show ?thesis using t w q(1,4) n k by simp
  next
    case False
    then show ?thesis using t w q(1,4) k by (simp add: bit_mask_iff)
  qed
qed

lemma NWORDS_bounds:
  assumes "0 < n"
  shows "0 < APINT_NWORDS n" "n \<le> 64 * APINT_NWORDS n" "64 * (APINT_NWORDS n - 1) < n"
    "APINT_NBYTES n \<le> 8 * APINT_NWORDS n" "n \<le> 8 * APINT_NBYTES n" "8 * (APINT_NBYTES n - 1) < n"
    "0 < APINT_NBYTES n"
  using assms by (auto simp: APINT_NWORDS_def APINT_NBYTES_def)

lemma wval_mask_top:
  assumes "0 < n" "length a = APINT_NWORDS n"
  shows "wval (mask_top a (length a) n) = take_bit n (wval a)"
proof (rule bit_eqI)
  fix k :: nat
  have l: "0 < length a" "n \<le> 64 * length a" "64 * (length a - 1) < n"
    using NWORDS_bounds [OF assms(1)] assms(2) by auto
  have eq: "k = 64 * (k div 64) + k mod 64" by simp
  consider "k div 64 < length a - 1" | "k div 64 = length a - 1" | "length a - 1 < k div 64" by linarith
  then show "bit (wval (mask_top a (length a) n)) k \<longleftrightarrow> bit (take_bit n (wval a)) k"
  proof cases
    case 1
    then have "k < n" using l eq by linarith
    then show ?thesis using 1 by (simp add: mask_top_def bit_wval bit_take_bit_iff)
  next
    case 2
    then have "bit (top_word_mask n) (k mod 64) \<longleftrightarrow> k < n"
      using bit_top_word_mask [OF assms(1), of "k mod 64"] assms(2) eq by simp
    then show ?thesis using 2 l by (auto simp: mask_top_def bit_wval bit_take_bit_iff bit_and_iff)
  next
    case 3
    then have "\<not> k div 64 < length a" using l by linarith
    then show ?thesis by (simp add: mask_top_def bit_wval bit_take_bit_iff)
  qed
qed

lemma bit_limb_of_bytes:
  "length bs \<le> 8 \<Longrightarrow> bit (limb_of_bytes bs) k \<longleftrightarrow> bit (bval bs) k"
proof (induction bs arbitrary: k)
  case (Cons b bs)
  show ?case
  proof (cases "k < 8")
    case True
    then show ?thesis using Cons
      by (simp add: bval_concat_bit bit_concat_bit_iff bit_or_iff bit_push_bit_iff bit_ucast_iff bit_uint_iff
          del: bval.simps)
  next
    case False
    then have b: "\<not> bit b k" using bit_imp_le_length [of b k] by auto
    have k: "k < 64" if "bit (bval bs) (k - 8)"
    proof -
      have "(k - 8) div 8 < length bs" using that by (simp add: bit_bval)
      then have "k - 8 < 8 * 7" using Cons.prems by (simp add: div_less_iff_less_mult)
      then show ?thesis by simp
    qed
    show ?thesis using Cons False b k
      by (auto simp: bval_concat_bit bit_concat_bit_iff bit_or_iff bit_push_bit_iff bit_ucast_iff bit_uint_iff
          simp del: bval.simps)
  qed
qed simp

lemma wval_limbs:
  assumes "length bs \<le> 8 * nw"
  shows "wval (map (\<lambda>i. limb_of_bytes (take 8 (drop (8 * i) bs))) [0 ..< nw]) = bval bs"
proof (rule bit_eqI)
  fix k :: nat
  define q r where "q = k div 64" and "r = k mod 64"
  have a: "8 * q + r div 8 = k div 8" "r mod 8 = k mod 8" "r div 8 < 8"
    using div_mult2_eq [of k 8 8] mod_mult2_eq [of k 8 8] by (simp_all add: q_def r_def)
  have q: "q < nw" if "k div 8 < length bs" using that assms a(1) by linarith
  have lim: "bit (limb_of_bytes (take 8 (drop (8 * q) bs))) r \<longleftrightarrow> bit (bval bs) k"
  proof -
    have "bit (limb_of_bytes (take 8 (drop (8 * q) bs))) r \<longleftrightarrow>
        r div 8 < length bs - 8 * q \<and> bit (bs ! (8 * q + r div 8)) (r mod 8)"
      using a(3) by (auto simp: bit_limb_of_bytes bit_bval)
    moreover have "r div 8 < length bs - 8 * q \<longleftrightarrow> k div 8 < length bs" using a(1) by linarith
    ultimately show ?thesis using a(1,2) by (simp add: bit_bval)
  qed
  have "bit (wval (map (\<lambda>i. limb_of_bytes (take 8 (drop (8 * i) bs))) [0 ..< nw])) k \<longleftrightarrow>
      q < nw \<and> bit (limb_of_bytes (take 8 (drop (8 * q) bs))) r"
    unfolding bit_wval q_def [symmetric] r_def [symmetric] by auto
  then show "bit (wval (map (\<lambda>i. limb_of_bytes (take 8 (drop (8 * i) bs))) [0 ..< nw])) k \<longleftrightarrow> bit (bval bs) k"
    using lim q by (auto simp: bit_bval)
qed

lemma length_bytes_of_limb [simp]: "length (bytes_of_limb w) = 8"
  by (simp add: bytes_of_limb_def)

lemma bval_bytes_of_limb: "bval (bytes_of_limb w) = uint w"
proof (rule bit_eqI)
  fix k
  show "bit (bval (bytes_of_limb w)) k \<longleftrightarrow> bit (uint w) k"
    by (auto simp: bytes_of_limb_def bit_bval bit_uint_iff bit_ucast_iff bit_drop_bit_eq
        dest: bit_imp_le_length)
qed

lemma bval_append: "bval (xs @ ys) = bval xs + 2 ^ (8 * length xs) * bval ys"
  by (induction xs) (auto simp: power_add algebra_simps)

lemma bval_concat_limbs: "bval (concat (map bytes_of_limb ws)) = wval ws"
  by (induction ws) (simp_all add: bval_append bval_bytes_of_limb)

lemma length_concat_limbs: "length (concat (map bytes_of_limb ws)) = 8 * length ws"
  by (induction ws) auto

text \<open>What \<open>load\<close> and \<open>store\<close> do to the number.\<close>

lemma load_ok:
  assumes "0 < n" "APINT_NBYTES n \<le> length p"
  shows "\<exists>a. load p n = Inr a \<and> length a = APINT_NWORDS n \<and> wval a = uval n p"
proof -
  let ?nw = "APINT_NWORDS n" and ?b = "take (APINT_NBYTES n) p"
  let ?d = "map (\<lambda>i. limb_of_bytes (take 8 (drop (8 * i) ?b))) [0 ..< ?nw]"
  note b = NWORDS_bounds [OF assms(1)]
  have "load p n = Inr (mask_top ?d (length ?d) n)"
    using assms(2) b by (simp add: load_def Let_def mask_top_def rget_def)
  moreover have "wval (mask_top ?d (length ?d) n) = uval n p"
    using wval_mask_top [OF assms(1), of ?d] wval_limbs [of ?b ?nw] b
    by (simp add: bval_take uval_def min_def)
  ultimately show ?thesis by (simp add: mask_top_def)
qed

lemma store_ok:
  assumes "length a = APINT_NWORDS n" "0 < n"
  shows "length (store a n) = APINT_NBYTES n" "bval (store a n) = take_bit (8 * APINT_NBYTES n) (wval a)"
  using NWORDS_bounds [OF assms(2)] assms(1)
  by (simp_all add: store_def length_concat_limbs bval_take bval_concat_limbs)

lemma bval_inj: "length p = length p' \<Longrightarrow> bval p = bval p' \<Longrightarrow> p = p'"
proof (induction p p' rule: list_induct2)
  case (Cons b bs b' bs')
  have m: "uint c = bval (c # cs) mod 2 ^ 8" "bval cs = bval (c # cs) div 2 ^ 8" for c :: u8 and cs
    using uint_lt2p [of c] by simp_all
  have "uint b = uint b'" "bval bs = bval bs'"
    using m(1) [of b bs] m(1) [of b' bs'] m(2) [of bs b] m(2) [of bs' b'] Cons.prems by (simp_all only:)
  then show ?case using Cons.IH by (simp add: word_uint_eq_iff)
qed simp

lemma bval_nonneg [simp]: "0 \<le> bval bs"
  by (induction bs) auto

section \<open>Correctness of the limb arithmetic\<close>

lemma is_zero_iff: "is_zero a \<longleftrightarrow> wval a = 0"
proof (induction a)
  case (Cons w a)
  have "uint w + 2 ^ 64 * wval a = 0 \<longleftrightarrow> uint w = 0 \<and> 2 ^ 64 * wval a = 0"
    by (rule add_nonneg_eq_0_iff) auto
  then show ?case using Cons by (auto simp: unsigned_eq_0_iff)
qed simp

lemma is_negative_iff:
  assumes "0 < n" "APINT_NWORDS n \<le> length a"
  shows "is_negative a n \<longleftrightarrow> bit (wval a) (n - 1)"
proof -
  have "(n - 1) div 64 = APINT_NWORDS n - 1"
    using assms(1) by (cases n) (simp_all add: APINT_NWORDS_def)
  then show ?thesis using NWORDS_bounds(1) [OF assms(1)] assms(2)
    by (auto simp: is_negative_def Let_def bit_wval bit_drop_bit_eq and_1_eq_0)
qed

lemma compare_words_eq:
  "k \<le> length a \<Longrightarrow> k \<le> length b \<Longrightarrow>
   compare_words a b k = sgn (wval (take k a) - wval (take k b))"
proof (induction k)
  case (Suc k)
  let ?a = "wval (take k a)" and ?b = "wval (take k b)" and ?P = "(2::int) ^ (64 * k)"
  have b: "?a < ?P" "?b < ?P" "0 \<le> ?a" "0 \<le> ?b"
    using wval_less [of "take k a"] wval_less [of "take k b"] Suc.prems by (auto simp: min_def)
  have less: "x + ?P * uint v < y + ?P * uint w" if "uint v < uint w" "x < ?P" "0 \<le> y" for x y and v w :: u64
  proof -
    have "?P * (uint v + 1) \<le> ?P * uint w" by (rule mult_left_mono) (use that in auto)
    then show ?thesis using that by (simp add: algebra_simps)
  qed
  consider "uint (a ! k) < uint (b ! k)" | "uint (b ! k) < uint (a ! k)" | "a ! k = b ! k"
    by (metis linorder_neqE word_uint_eq_iff)
  then show ?case
  proof cases
    case 1
    then have "wval (take (Suc k) a) < wval (take (Suc k) b)" using less [OF 1 b(1,4)] Suc.prems by (simp add: wval_take_Suc)
    then show ?thesis using 1 by (simp add: word_less_def)
  next
    case 2
    then have "wval (take (Suc k) b) < wval (take (Suc k) a)" using less [OF 2 b(2,3)] Suc.prems by (simp add: wval_take_Suc)
    then show ?thesis using 2 by (simp add: word_less_def)
  next
    case 3
    then show ?thesis using Suc by (simp add: wval_take_Suc)
  qed
qed simp

lemma add_carry:
  fixes x y :: u64 and c :: bool
  defines "s \<equiv> x + y" and "s2 \<equiv> x + y + of_bool c"
  shows "uint s2 + 2 ^ 64 * of_bool (s < x \<or> s2 < s) = uint x + uint y + of_bool c"
proof -
  have b: "uint x < 2 ^ 64" "uint y < 2 ^ 64" using uint_lt2p [of x] uint_lt2p [of y] by auto
  have s: "uint s = (if uint x + uint y < 2 ^ 64 then uint x + uint y else uint x + uint y - 2 ^ 64)"
    unfolding s_def using uint_plus_if' [of x y] by (simp split: if_splits)
  have s2: "uint s2 = (if uint s + of_bool c < 2 ^ 64 then uint s + of_bool c else uint s + of_bool c - 2 ^ 64)"
    unfolding s2_def s_def [symmetric] using uint_plus_if' [of s "of_bool c"] by (cases c) (simp_all split: if_splits)
  show ?thesis using b s s2 unfolding word_less_def by (cases c) (auto split: if_splits)
qed

lemma uint_not: "uint (NOT (x :: u64)) = 2 ^ 64 - 1 - uint x"
proof -
  have "NOT x = - 1 - x" by (simp add: not_eq_complement)
  moreover have "uint (- 1 :: u64) = 2 ^ 64 - 1"
    by (simp add: unsigned_minus_1_eq_mask mask_eq_exp_minus_1)
  ultimately show ?thesis using uint_lt2p [of x] by (simp only: uint_sub_if') auto
qed

lemma addsub_loop_eq:
  assumes "length a = length b"
  shows "length (fst (addsub_loop neg c a b)) = length a \<and>
    wval (fst (addsub_loop neg c a b)) + 2 ^ (64 * length a) * of_bool (snd (addsub_loop neg c a b)) =
    wval a + (if neg then 2 ^ (64 * length a) - 1 - wval b else wval b) + of_bool c"
  using assms
proof (induction neg c a b rule: addsub_loop.induct)
  case (1 neg c x a y b)
  define bw where "bw = (if neg then NOT y else y)"
  define c' where "c' = (x + bw < x \<or> x + bw + of_bool c < x + bw)"
  obtain r d where r: "addsub_loop neg c' a b = (r, d)" by fastforce
  have e: "addsub_loop neg c (x # a) (y # b) = ((x + bw + of_bool c) # r, d)"
    using r by (simp add: Let_def bw_def c'_def)
  have h: "uint (x + bw + of_bool c) + 2 ^ 64 * of_bool c' = uint x + uint bw + of_bool c"
    unfolding c'_def by (rule add_carry)
  have u: "uint bw = (if neg then 2 ^ 64 - 1 - uint y else uint y)" by (simp add: bw_def uint_not)
  have ih: "length r = length a" "wval r + 2 ^ (64 * length a) * of_bool d =
      wval a + (if neg then 2 ^ (64 * length a) - 1 - wval b else wval b) + of_bool c'"
    using 1 r unfolding c'_def bw_def by (auto simp: Let_def)
  have "wval ((x + bw + of_bool c) # r) + 2 ^ 64 * 2 ^ (64 * length a) * of_bool d =
      uint (x + bw + of_bool c) + 2 ^ 64 * (wval r + 2 ^ (64 * length a) * of_bool d)"
    by (simp add: algebra_simps)
  also have "\<dots> = uint x + uint bw + of_bool c +
      2 ^ 64 * (wval a + (if neg then 2 ^ (64 * length a) - 1 - wval b else wval b))"
    using ih(2) h by (simp add: algebra_simps)
  also have "\<dots> = wval (x # a) + (if neg then 2 ^ 64 * 2 ^ (64 * length a) - 1 - wval (y # b) else wval (y # b)) + of_bool c"
    using u by (simp add: algebra_simps)
  finally show ?case using e ih(1) by (simp add: power_add)
qed auto

lemma addsub_words_eq:
  assumes "length a = length b"
  shows "length (fst (addsub_words a b neg)) = length a"
    and "wval (fst (addsub_words a b neg)) = take_bit (64 * length a) (if neg then wval a - wval b else wval a + wval b)"
proof -
  define r c where "r = fst (addsub_words a b neg)" and "c = snd (addsub_words a b neg)"
  have l: "length r = length a"
    and e: "wval r + 2 ^ (64 * length a) * of_bool c =
      wval a + (if neg then 2 ^ (64 * length a) - 1 - wval b else wval b) + of_bool neg"
    using addsub_loop_eq [OF assms, of neg neg] by (simp_all add: r_def c_def addsub_words_def)
  have "take_bit (64 * length a) (wval r) = take_bit (64 * length a) (wval r + 2 ^ (64 * length a) * of_bool c)"
    by (simp add: take_bit_eq_mod)
  also have "\<dots> = take_bit (64 * length a) (if neg then wval a - wval b else wval a + wval b)"
  proof (cases neg)
    case True
    have "(wval a - wval b + 2 ^ (64 * length a)) mod 2 ^ (64 * length a) = (wval a - wval b) mod 2 ^ (64 * length a)"
      by (rule mod_add_self2)
    then show ?thesis unfolding e using True by (simp add: take_bit_eq_mod algebra_simps)
  qed (simp add: e)
  finally show "wval (fst (addsub_words a b neg)) = take_bit (64 * length a) (if neg then wval a - wval b else wval a + wval b)"
    using take_bit_wval [of r "64 * length a"] l by (simp add: r_def)
  show "length (fst (addsub_words a b neg)) = length a" using l by (simp add: r_def)
qed

lemma negate_loop_eq:
  "length (negate_loop c a) = length a \<and>
   wval (negate_loop c a) = (if c \<and> wval a = 0 then 0 else 2 ^ (64 * length a) - 1 - wval a + of_bool c)"
proof (induction c a rule: negate_loop.induct)
  case (2 c w a)
  have w: "uint (NOT w + of_bool c) = (if c \<and> w = 0 then 0 else 2 ^ 64 - 1 - uint w + of_bool c)"
  proof (cases "c \<and> w = 0")
    case False
    then have "uint (NOT w) + uint (of_bool c :: u64) < 2 ^ 64"
      using uint_ge_0 [of w] False uint_lt2p [of w] unfolding uint_not
      by (cases c) (auto simp: order_le_less unsigned_eq_0_iff)
    then show ?thesis using False uint_plus_if' [of "NOT w" "of_bool c"] by (cases c) (auto simp: uint_not)
  qed auto
  have z: "wval (w # a) = 0 \<longleftrightarrow> w = 0 \<and> wval a = 0"
    using is_zero_iff [of "w # a"] is_zero_iff [of a] by (cases "w = 0") simp_all
  show ?case using 2 w z by (cases "c \<and> w = 0") (auto simp: power_add algebra_simps)
qed simp

lemma negate_words_eq:
  "length (negate_words a) = length a" "wval (negate_words a) = take_bit (64 * length a) (- wval a)"
proof -
  have "wval (negate_words a) = (if wval a = 0 then 0 else 2 ^ (64 * length a) - wval a)"
    using negate_loop_eq [of True a] by (simp add: negate_words_def)
  moreover have "(2 ^ (64 * length a) - wval a) mod 2 ^ (64 * length a) = 2 ^ (64 * length a) - wval a" if "wval a \<noteq> 0"
    using wval_less [of a] wval_nonneg [of a] that by (intro mod_pos_pos_trivial) linarith+
  moreover have "(2 ^ (64 * length a) - wval a) mod 2 ^ (64 * length a) = (- wval a) mod 2 ^ (64 * length a)"
    using mod_add_self1 [of "2 ^ (64 * length a)" "- wval a"] by simp
  ultimately show "wval (negate_words a) = take_bit (64 * length a) (- wval a)"
    by (simp add: take_bit_eq_mod)
qed (use negate_loop_eq [of True a] in \<open>simp add: negate_words_def\<close>)

subsection \<open>Multiplication\<close>

text \<open>The contract of a multiply-accumulate step, shared by the two implementations.\<close>

locale limb_mac =
  fixes mac :: "u64 \<Rightarrow> u64 \<Rightarrow> u64 \<Rightarrow> u64 \<Rightarrow> u64 \<times> u64"
  assumes mac_law: "mac r c a b = (r', c') \<Longrightarrow>
      uint r' + 2 ^ 64 * uint c' = uint a * uint b + uint r + uint c"
begin

lemma mac_unique: "mac r c a b = (word_of_int (uint a * uint b + uint r + uint c),
    word_of_int ((uint a * uint b + uint r + uint c) div 2 ^ 64))"
proof (cases "mac r c a b")
  case (Pair r' c')
  let ?p = "uint a * uint b + uint r + uint c"
  have e: "?p = uint r' + 2 ^ 64 * uint c'" using mac_law [OF Pair] by simp
  have "uint r' < 2 ^ 64" using uint_lt2p [of r'] by simp
  then have "?p div 2 ^ 64 = uint c'" unfolding e by simp
  moreover have "word_of_int ?p = r'"
    unfolding e word_uint_eq_iff using take_bit_add_exp [of 64 "uint r'" "uint c'"]
    by (simp only: unsigned_of_int) simp
  ultimately show ?thesis using Pair by simp
qed

lemma mul_inner_eq:
  assumes "i + j + k = length r" "j + k \<le> length b"
  shows "length (mul_inner mac ai b i j k c r) = length r \<and>
    (\<exists>d. wval (mul_inner mac ai b i j k c r) + 2 ^ (64 * length r) * d =
      wval r + 2 ^ (64 * i) * uint ai * (wval (take (j + k) b) - wval (take j b)) + 2 ^ (64 * (i + j)) * uint c)"
  using assms
proof (induction k arbitrary: j c r)
  case 0
  then show ?case by (auto intro!: exI [of _ "uint c"])
next
  case (Suc k)
  obtain w d where m: "mac (r ! (i + j)) c ai (b ! j) = (w, d)" by fastforce
  let ?r = "r[i + j := w]"
  have u: "uint w - uint (r ! (i + j)) = uint ai * uint (b ! j) + uint c - 2 ^ 64 * uint d"
    using mac_law [OF m] by simp
  obtain e where e: "wval (mul_inner mac ai b i (j + 1) k d ?r) + 2 ^ (64 * length ?r) * e =
      wval ?r + 2 ^ (64 * i) * uint ai * (wval (take (j + 1 + k) b) - wval (take (j + 1) b)) + 2 ^ (64 * (i + (j + 1))) * uint d"
    and l: "length (mul_inner mac ai b i (j + 1) k d ?r) = length ?r"
    using Suc.IH [of "j + 1" ?r d] Suc.prems by auto
  have wr: "wval ?r = wval r + (uint ai * uint (b ! j) + uint c - 2 ^ 64 * uint d) * (2 ^ (64 * i) * 2 ^ (64 * j))"
    using wval_update [of "i + j" r w] Suc.prems u by (simp add: power_add distrib_left)
  have tb: "wval (take (j + 1) b) = wval (take j b) + 2 ^ (64 * j) * uint (b ! j)"
    using wval_take_Suc [of j b] Suc.prems by simp
  have "wval (mul_inner mac ai b i j (Suc k) c r) + 2 ^ (64 * length r) * e =
      wval r + 2 ^ (64 * i) * uint ai * (wval (take (j + Suc k) b) - wval (take j b)) + 2 ^ (64 * (i + j)) * uint c"
    using e m unfolding wr tb by (simp add: power_add distrib_left algebra_simps)
  then show ?case using l m by auto
qed

lemma mul_outer_eq:
  assumes "length r = nw" "length a = nw" "length b = nw" "i + k = nw"
  shows "length (mul_outer mac a b nw i k r) = nw \<and>
    take_bit (64 * nw) (wval (mul_outer mac a b nw i k r)) =
    take_bit (64 * nw) (wval r + (wval a - wval (take i a)) * wval b)"
  using assms
proof (induction k arbitrary: i r)
  case (Suc k)
  let ?r = "if a ! i = 0 then r else mul_inner mac (a ! i) b i 0 (nw - i) 0 r"
  obtain d where d: "wval ?r + 2 ^ (64 * nw) * d = wval r + 2 ^ (64 * i) * uint (a ! i) * wval b" and l: "length ?r = nw"
  proof (cases "a ! i = 0")
    case False
    then obtain d where d: "wval ?r + 2 ^ (64 * nw) * d = wval r + 2 ^ (64 * i) * uint (a ! i) * wval (take (nw - i) b)"
      "length ?r = nw"
      using mul_inner_eq [of i 0 "nw - i" r b "a ! i" 0] Suc.prems by auto
    have "wval b = wval (take (nw - i) b) + 2 ^ (64 * (nw - i)) * wval (drop (nw - i) b)"
      using Suc.prems by (intro wval_split) simp
    moreover have "(2::int) ^ (64 * nw) = 2 ^ (64 * i) * 2 ^ (64 * (nw - i))"
      using Suc.prems by (simp flip: power_add distrib_left)
    ultimately have "wval ?r + 2 ^ (64 * nw) * (d + uint (a ! i) * wval (drop (nw - i) b)) =
        wval r + 2 ^ (64 * i) * uint (a ! i) * wval b"
      using d(1) by (simp add: algebra_simps)
    then show ?thesis using that d(2) by blast
  qed (use that [of 0] Suc.prems in auto)
  have "take_bit (64 * nw) (wval (mul_outer mac a b nw (i + 1) k ?r)) =
      take_bit (64 * nw) (wval ?r + (wval a - wval (take (i + 1) a)) * wval b)"
    "length (mul_outer mac a b nw (i + 1) k ?r) = nw"
    using Suc.IH [of ?r "i + 1"] Suc.prems l by auto
  moreover have "wval ?r + (wval a - wval (take (i + 1) a)) * wval b =
      wval r + (wval a - wval (take i a)) * wval b + 2 ^ (64 * nw) * (- d)"
    using d wval_take_Suc [of i a] Suc.prems by (simp add: algebra_simps)
  ultimately show ?case by (simp del: if_split)
qed auto

lemma mul_words_eq:
  assumes "length a = nw" "length b = nw"
  shows "length (mul_words mac a b nw) = nw" "wval (mul_words mac a b nw) = take_bit (64 * nw) (wval a * wval b)"
  using mul_outer_eq [of "replicate nw 0" nw a b 0 nw] assms take_bit_wval [of "mul_words mac a b nw" "64 * nw"]
  by (simp_all add: mul_words_def)

end

lemma uint_halves:
  fixes x :: "'a::len word"
  assumes "LENGTH('a) = LENGTH('b::len) + LENGTH('b)"
  shows "uint (ucast x :: 'b word) = uint x mod 2 ^ LENGTH('b)"
    and "uint (ucast (drop_bit LENGTH('b) x) :: 'b word) = uint x div 2 ^ LENGTH('b)"
proof -
  have "take_bit LENGTH('b) (drop_bit LENGTH('b) (uint x)) = drop_bit LENGTH('b) (take_bit LENGTH('a) (uint x))"
    using assms drop_bit_take_bit [of "LENGTH('b)" "LENGTH('a)" "uint x"] by simp
  then show "uint (ucast (drop_bit LENGTH('b) x) :: 'b word) = uint x div 2 ^ LENGTH('b)"
    by (simp add: unsigned_ucast_eq unsigned_drop_bit_eq flip: drop_bit_eq_div)
qed (simp add: unsigned_ucast_eq take_bit_eq_mod)

lemma uint_mult32:
  fixes x y :: u32
  shows "uint (ucast x * ucast y :: u64) = uint x * uint y"
proof -
  have "uint x * uint y < 2 ^ 32 * 2 ^ 32"
    using uint_lt2p [of x] uint_lt2p [of y] by (intro mult_strict_mono') auto
  then show ?thesis by (simp add: uint_word_ariths unsigned_ucast_eq mod_pos_pos_trivial)
qed

lemma mul64_eq:
  assumes "mul64 a b = (lo, hi)"
  shows "uint lo + 2 ^ 64 * uint hi = uint a * uint b"
proof -
  define a0 a1 b0 b1 where d: "a0 = (ucast a :: u32)" "a1 = (ucast (drop_bit 32 a) :: u32)"
      "b0 = (ucast b :: u32)" "b1 = (ucast (drop_bit 32 b) :: u32)"
  have split: "uint x = uint (ucast x :: u32) + 2 ^ 32 * uint (ucast (drop_bit 32 x) :: u32)" for x :: u64
    using uint_halves [where 'b = 32, of x] by simp
  define p00 p01 p10 p11 where p: "p00 = (ucast a0 * ucast b0 :: u64)" "p01 = (ucast a0 * ucast b1 :: u64)"
      "p10 = (ucast a1 * ucast b0 :: u64)" "p11 = (ucast a1 * ucast b1 :: u64)"
  define mid mc lc where m: "mid = p01 + p10" "mc = (if mid < p01 then 1 else 0 :: u64)"
      "lc = (if lo < p00 then 1 else 0 :: u64)"
  have r: "lo = p00 + push_bit 32 mid" "hi = p11 + drop_bit 32 mid + push_bit 32 mc + lc"
    using assms unfolding mul64_def Let_def m p d by auto
  have mid: "uint mid + 2 ^ 64 * uint mc = uint p01 + uint p10"
    using add_carry [of p01 p10 False] by (auto simp: m)
  have lo: "uint lo + 2 ^ 64 * uint lc = uint p00 + uint (push_bit 32 mid)"
    using add_carry [of p00 "push_bit 32 mid" False] by (auto simp: m r)
  have "uint (push_bit 32 mid) = take_bit 64 (push_bit 32 (uint mid))"
    by (simp only: unsigned_push_bit_eq) simp
  then have pm: "uint (push_bit 32 mid) = 2 ^ 32 * (uint mid mod 2 ^ 32)"
    using mult_mod_right [of "2 ^ 32" "uint mid" "2 ^ 32"]
    by (simp only: push_bit_eq_mult take_bit_eq_mod) (simp add: mult.commute)
  have dm: "uint (drop_bit 32 mid) = uint mid div 2 ^ 32"
    by (simp only: drop_bit_eq_div uint_div) simp
  have pc: "uint (push_bit 32 mc) = 2 ^ 32 * uint mc" by (simp add: m)
  define H where "H = uint p11 + uint (drop_bit 32 mid) + uint (push_bit 32 mc) + uint lc"
  have ab: "uint a * uint b = uint p00 + 2 ^ 32 * (uint p01 + uint p10) + 2 ^ 64 * uint p11"
    unfolding p uint_mult32 split [of a] split [of b] d [symmetric] by (simp add: algebra_simps)
  have e: "uint a * uint b = uint lo + 2 ^ 64 * H"
  proof -
    define D M where "D = uint mid div 2 ^ 32" and "M = uint mid mod 2 ^ 32"
    have "uint mid = 2 ^ 32 * D + M" by (simp add: D_def M_def)
    then show ?thesis
      using mid lo unfolding ab H_def pm dm pc D_def [symmetric] M_def [symmetric] by (simp add: algebra_simps)
  qed
  have "uint a * uint b < 2 ^ 64 * 2 ^ 64"
    using uint_lt2p [of a] uint_lt2p [of b] by (intro mult_strict_mono') auto
  moreover have "2 ^ 64 * H \<le> uint a * uint b" using e uint_ge_0 [of lo] by linarith
  ultimately have "2 ^ 64 * H < 2 ^ 64 * 2 ^ 64" by linarith
  then have "H < 2 ^ 64" "0 \<le> H" by (auto simp: H_def)
  moreover have "hi = word_of_int H"
    unfolding r H_def by (simp only: of_int_add word_of_int_uint)
  ultimately have "uint hi = H" by (simp add: unsigned_of_int take_bit_int_eq_self)
  then show ?thesis using e by simp
qed

lemma mac_limb_eq:
  assumes "mac_limb r c a b = (r', c')"
  shows "uint r' + 2 ^ 64 * uint c' = uint a * uint b + uint r + uint c"
proof -
  let ?p = "uint a * uint b + uint r + uint c"
  have l: "uint r < 2 ^ 64" "uint c < 2 ^ 64" "uint a \<le> 2 ^ 64 - 1" "uint b \<le> 2 ^ 64 - 1"
    using uint_lt2p [of r] uint_lt2p [of c] uint_lt2p [of a] uint_lt2p [of b] by auto
  have "uint a * uint b \<le> (2 ^ 64 - 1) * (2 ^ 64 - 1)"
    using l by (intro mult_mono) auto
  then have b: "?p < 2 ^ 128" "0 \<le> ?p" using l by auto
  define q :: "128 word" where "q = ucast a * ucast b + ucast r + ucast c"
  have "q = word_of_int ?p" unfolding q_def by (simp only: ucast_eq of_int_add of_int_mult)
  then have q: "uint q = ?p" using b by (simp add: unsigned_of_int take_bit_int_eq_self del: of_int_add of_int_mult)
  have "r' = ucast q" "c' = ucast (drop_bit 64 q)" using assms by (simp_all add: mac_limb_def q_def Let_def)
  then have "uint r' = ?p mod 2 ^ 64" "uint c' = ?p div 2 ^ 64"
    using uint_halves [where 'b = 64, of q] unfolding q by simp_all
  then show ?thesis using mod_mult_div_eq [of ?p "2 ^ 64"] by (simp only:)
qed

lemma mac_limb_portable_eq:
  assumes "mac_limb_portable r c a b = (r', c')"
  shows "uint r' + 2 ^ 64 * uint c' = uint a * uint b + uint r + uint c"
proof -
  obtain plo phi where m: "mul64 a b = (plo, phi)" by fastforce
  define s1 c1 c2 where d: "s1 = plo + r" "c1 = (of_bool (s1 < plo) :: u64)" "c2 = (of_bool (s1 + c < s1) :: u64)"
  have r: "r' = s1 + c" "c' = phi + c1 + c2"
    using assms m unfolding mac_limb_portable_def Let_def d by auto
  have s: "uint s1 + 2 ^ 64 * uint c1 = uint plo + uint r" "uint r' + 2 ^ 64 * uint c2 = uint s1 + uint c"
    using add_carry [of plo r False] add_carry [of s1 c False] by (auto simp: d r of_bool_def)
  define H where "H = uint phi + uint c1 + uint c2"
  have e: "uint a * uint b + uint r + uint c = uint r' + 2 ^ 64 * H"
    using mul64_eq [OF m] s unfolding H_def by (simp add: algebra_simps)
  have l: "uint r < 2 ^ 64" "uint c < 2 ^ 64" "uint a \<le> 2 ^ 64 - 1" "uint b \<le> 2 ^ 64 - 1"
    using uint_lt2p [of r] uint_lt2p [of c] uint_lt2p [of a] uint_lt2p [of b] by auto
  have "uint a * uint b \<le> (2 ^ 64 - 1) * (2 ^ 64 - 1)"
    using l by (intro mult_mono) auto
  moreover have "2 ^ 64 * H \<le> uint a * uint b + uint r + uint c" using e uint_ge_0 [of r'] by linarith
  ultimately have "2 ^ 64 * H < 2 ^ 64 * 2 ^ 64" using l(1,2) by simp
  then have "H < 2 ^ 64" "0 \<le> H" by (auto simp: H_def)
  moreover have "c' = word_of_int H" unfolding r H_def by simp
  ultimately have "uint c' = H" by (simp add: unsigned_of_int take_bit_int_eq_self)
  then show ?thesis using e by simp
qed

interpretation mac128: limb_mac mac_limb
  by unfold_locales (rule mac_limb_eq)

interpretation mac_portable: limb_mac mac_limb_portable
  by unfold_locales (rule mac_limb_portable_eq)

end
