(* ===== verification/APInt_Shift.thy ===== *)
theory APInt_Shift
  imports APInt_Words
begin

unbundle bit_operations_syntax

text \<open>
  The second half of the limb routines of \<open>APInt.c\<close>: shifts, binary long division,
  extension to more limbs, the overflow test on a double-width product, signed division and
  the counting of leading and trailing bits.
\<close>

section \<open>Division\<close>

text \<open>\<open>rem <<= 1\<close>: the loop over \<open>j\<close> downwards, and the last line for limb 0.\<close>

fun rem_shl1 :: "nat \<Rightarrow> u64 list \<Rightarrow> u64 list" where
  "rem_shl1 0 rem = rem[0 := push_bit 1 (rem ! 0)]"
| "rem_shl1 (Suc j) rem =
     rem_shl1 j (rem[Suc j := push_bit 1 (rem ! Suc j) OR drop_bit 63 (rem ! j)])"

fun udivrem_loop ::
  "u64 list \<Rightarrow> u64 list \<Rightarrow> nat \<Rightarrow> nat \<Rightarrow> u64 list \<Rightarrow> u64 list \<Rightarrow> u64 list \<times> u64 list"
where
  "udivrem_loop a b nw 0 q rem = (q, rem)"
| "udivrem_loop a b nw (Suc i) q rem =
     (let rem = rem_shl1 (nw - 1) rem;
          rem = rem[0 := rem ! 0 OR (drop_bit (i mod 64) (a ! (i div 64)) AND 1)]
      in if compare_words rem b nw \<ge> 0
         then udivrem_loop a b nw i
                (q[i div 64 := q ! (i div 64) OR push_bit (i mod 64) 1]) (fst (addsub_words rem b True))
         else udivrem_loop a b nw i q rem)"

definition udivrem :: "u64 list \<Rightarrow> u64 list \<Rightarrow> nat \<Rightarrow> nat \<Rightarrow> u64 list \<times> u64 list" where
  "udivrem a b numbits nw = udivrem_loop a b nw numbits (replicate nw 0) (replicate nw 0)"

definition sdivrem :: "u64 list \<Rightarrow> u64 list \<Rightarrow> nat \<Rightarrow> nat \<Rightarrow> u64 list \<times> u64 list" where
  "sdivrem a b numbits nw =
     (let neg_a = is_negative a numbits;
          neg_b = is_negative b numbits;
          abs_a = (if neg_a then mask_top (negate_words a) nw numbits else a);
          abs_b = (if neg_b then mask_top (negate_words b) nw numbits else b);
          (q, rem) = udivrem abs_a abs_b numbits nw;
          q = (if neg_a \<noteq> neg_b then mask_top (negate_words q) nw numbits else q);
          rem = (if neg_a then mask_top (negate_words rem) nw numbits else rem)
      in (q, rem))"

section \<open>Shifts and extension\<close>

fun extract_shift_rest :: "u64 list \<Rightarrow> bool" where
  "extract_shift_rest [] = False"
| "extract_shift_rest (w # b) = (if w \<noteq> 0 then True else extract_shift_rest b)"

definition extract_shift :: "u64 list \<Rightarrow> nat \<Rightarrow> nat" where
  "extract_shift b numbits =
     (if extract_shift_rest (tl b) then numbits
      else if unat (b ! 0) \<ge> numbits then numbits else unat (b ! 0))"

definition shl_n :: "u64 list \<Rightarrow> nat \<Rightarrow> nat \<Rightarrow> u64 list" where
  "shl_n a shift nw =
     (let ws = shift div 64; bs = shift mod 64 in
      map (\<lambda>i. let lo = (if i \<ge> ws then a ! (i - ws) else 0);
                   hi = (if i > ws then a ! (i - ws - 1) else 0)
               in if bs = 0 then lo else push_bit bs lo OR drop_bit (64 - bs) hi) [0 ..< nw])"

definition shr_n :: "u64 list \<Rightarrow> nat \<Rightarrow> nat \<Rightarrow> u64 \<Rightarrow> u64 list" where
  "shr_n a shift nw fill =
     (let ws = shift div 64; bs = shift mod 64 in
      map (\<lambda>i. let hi = (if i + ws < nw then a ! (i + ws) else fill);
                   lo = (if i + ws + 1 < nw then a ! (i + ws + 1) else fill)
               in if bs = 0 then hi else drop_bit bs hi OR push_bit (64 - bs) lo) [0 ..< nw])"

definition extend :: "u64 list \<Rightarrow> nat \<Rightarrow> nat \<Rightarrow> bool \<Rightarrow> u64 list" where
  "extend a numbits total_nw is_sign =
     (let orig_nw = APINT_NWORDS numbits;
          fill = (if is_sign \<and> is_negative a numbits then UINT64_MAX else 0);
          top_bits = numbits mod 64;
          a = (if top_bits > 0 \<and> fill \<noteq> 0
               then a[orig_nw - 1 := a ! (orig_nw - 1) OR NOT (top_word_mask numbits)] else a)
      in take orig_nw a @ replicate (total_nw - orig_nw) fill)"

text \<open>The loop of \<open>check_overflow\<close> over the limbs above the value.\<close>

fun overflow_rest :: "u64 list \<Rightarrow> u64 \<Rightarrow> bool" where
  "overflow_rest [] expected = False"
| "overflow_rest (w # r) expected = (if w \<noteq> expected then True else overflow_rest r expected)"

definition check_overflow :: "u64 list \<Rightarrow> nat \<Rightarrow> u64 \<Rightarrow> bool" where
  "check_overflow r numbits expected =
     (let nw = APINT_NWORDS numbits; top_bits = numbits mod 64 in
      if top_bits \<noteq> 0 \<and>
         drop_bit top_bits (r ! (nw - 1)) \<noteq> (if expected \<noteq> 0 then drop_bit top_bits UINT64_MAX else 0)
      then True
      else overflow_rest (drop nw r) expected)"

section \<open>Counting bits\<close>

text \<open>The compiler's \<open>__builtin_ctzll\<close>, \<open>__builtin_clzll\<close> (of a non-zero word) and
  \<open>__builtin_popcountll\<close>.\<close>

definition builtin_ctzll :: "u64 \<Rightarrow> nat" where
  "builtin_ctzll v = length (takeWhile (\<lambda>i. \<not> bit v i) [0 ..< 64])"

definition builtin_clzll :: "u64 \<Rightarrow> nat" where
  "builtin_clzll v = length (takeWhile (\<lambda>i. \<not> bit v i) (rev [0 ..< 64]))"

definition builtin_popcountll :: "u64 \<Rightarrow> nat" where
  "builtin_popcountll v = length (filter (bit v) [0 ..< 64])"

fun countr_loop :: "u64 list \<Rightarrow> nat \<Rightarrow> bool \<Rightarrow> nat \<Rightarrow> nat" where
  "countr_loop [] numbits count_ones count = numbits"
| "countr_loop (w # a) numbits count_ones count =
     (let v = (if count_ones then NOT w else w) in
      if v \<noteq> 0 then count + builtin_ctzll v
      else countr_loop a numbits count_ones (count + 64))"

definition countr :: "u64 list \<Rightarrow> nat \<Rightarrow> bool \<Rightarrow> nat" where
  "countr a numbits count_ones = countr_loop a numbits count_ones 0"

fun countl_loop :: "u64 list \<Rightarrow> nat \<Rightarrow> nat \<Rightarrow> bool \<Rightarrow> nat \<Rightarrow> nat \<Rightarrow> nat" where
  "countl_loop a nw numbits count_ones 0 count = numbits"
| "countl_loop a nw numbits count_ones (Suc i) count =
     (let top_bits = numbits mod 64;
          val = (if i = nw - 1 \<and> top_bits > 0 \<and> count_ones
                 then a ! i OR NOT (top_word_mask numbits) else a ! i);
          v = (if count_ones then NOT val else val)
      in if v \<noteq> 0
         then (let lz = builtin_clzll v in
               if i = nw - 1 \<and> top_bits > 0 then count + lz - (64 - top_bits) else count + lz)
         else if i = nw - 1 \<and> top_bits > 0
              then countl_loop a nw numbits count_ones i (count + top_bits)
              else countl_loop a nw numbits count_ones i (count + 64))"

definition countl :: "u64 list \<Rightarrow> nat \<Rightarrow> bool \<Rightarrow> nat" where
  "countl a numbits count_ones = countl_loop a (length a) numbits count_ones (length a) 0"

definition is_min_int :: "u64 list \<Rightarrow> nat \<Rightarrow> bool" where
  "is_min_int a numbits \<longleftrightarrow> is_negative a numbits \<and> countr a numbits False = numbits - 1"

fun all_max :: "u64 list \<Rightarrow> bool" where
  "all_max [] = True"
| "all_max (w # a) = (if w \<noteq> UINT64_MAX then False else all_max a)"

definition is_neg_one :: "u64 list \<Rightarrow> nat \<Rightarrow> nat \<Rightarrow> bool" where
  "is_neg_one a numbits nw \<longleftrightarrow> all_max (take (nw - 1) a) \<and> a ! (nw - 1) = top_word_mask numbits"

section \<open>Shifts, bit by bit\<close>

lemma bit_wval_limb: "t < 64 \<Longrightarrow> bit (wval a) (64 * i + t) \<longleftrightarrow> i < length a \<and> bit (a ! i) t"
  by (simp add: bit_wval)

lemma limb_index: obtains i t where "m = 64 * i + t" "t < (64::nat)"
  using that [of "m div 64" "m mod 64"] by simp

lemma length_shl_n [simp]: "length (shl_n a s nw) = nw"
  by (simp add: shl_n_def Let_def)

lemma bit_limb_ge: "64 \<le> k \<Longrightarrow> \<not> bit (w :: u64) k"
  using bit_imp_le_length [of w k] by auto

lemma wval_shl_n:
  assumes "length a = nw"
  shows "wval (shl_n a s nw) = take_bit (64 * nw) (push_bit s (wval a))"
proof (rule bit_eqI)
  fix m :: nat
  obtain i t where m: "m = 64 * i + t" "t < 64" by (rule limb_index)
  obtain ws bs where s: "s = 64 * ws + bs" "bs < 64" by (rule limb_index)
  have ds: "s div 64 = ws" "s mod 64 = bs" using s by auto
  let ?lo = "if i \<ge> ws then a ! (i - ws) else 0" and ?hi = "if i > ws then a ! (i - ws - 1) else 0"
  have l: "bit (wval (shl_n a s nw)) m \<longleftrightarrow> i < nw \<and>
      bit (if bs = 0 then ?lo else push_bit bs ?lo OR drop_bit (64 - bs) ?hi) t"
    using m(2) unfolding m(1) bit_wval_limb [OF m(2)] length_shl_n
    by (intro conj_cong refl) (simp add: shl_n_def Let_def ds)
  have r: "bit (take_bit (64 * nw) (push_bit s (wval a))) m \<longleftrightarrow> i < nw \<and> s \<le> m \<and> bit (wval a) (m - s)"
    using m by (auto simp: bit_take_bit_iff bit_push_bit_iff)
  show "bit (wval (shl_n a s nw)) m \<longleftrightarrow> bit (take_bit (64 * nw) (push_bit s (wval a))) m"
  proof (cases "i < nw")
    case True
    have up: "bs \<le> t \<Longrightarrow> (s \<le> m \<longleftrightarrow> ws \<le> i) \<and> (ws \<le> i \<longrightarrow> m - s = 64 * (i - ws) + (t - bs))"
      using m s by auto
    have dn: "t < bs \<Longrightarrow> (s \<le> m \<longleftrightarrow> ws < i) \<and> (ws < i \<longrightarrow> m - s = 64 * (i - ws - 1) + (64 + t - bs))"
      using m s by auto
    show ?thesis
    proof (cases "bs \<le> t")
      case True
      then have "bit (wval a) (m - s) \<longleftrightarrow> bit (a ! (i - ws)) (t - bs)" if "ws \<le> i"
        using up that m \<open>i < nw\<close> assms bit_wval_limb [of "t - bs" a "i - ws"] by auto
      then show ?thesis unfolding l r using up True m(2) s(2) \<open>i < nw\<close>
        by (auto simp: bit_or_iff bit_push_bit_iff bit_drop_bit_eq bit_limb_ge)
    next
      case False
      then have "bit (wval a) (m - s) \<longleftrightarrow> bit (a ! (i - ws - 1)) (64 + t - bs)" if "ws < i"
        using dn that s \<open>i < nw\<close> assms bit_wval_limb [of "64 + t - bs" a "i - ws - 1"] by auto
      moreover have "64 - bs + t = 64 + t - bs" using s by simp
      ultimately show ?thesis unfolding l r using dn False m(2) s(2) \<open>i < nw\<close>
        by (auto simp: bit_or_iff bit_push_bit_iff bit_drop_bit_eq)
    qed
  qed (simp add: l r)
qed

lemma rem_shl1_nth:
  "j < length rem \<Longrightarrow> length (rem_shl1 j rem) = length rem \<and>
   (\<forall>k < length rem. rem_shl1 j rem ! k =
     (if k > j then rem ! k else if k = 0 then push_bit 1 (rem ! 0)
      else push_bit 1 (rem ! k) OR drop_bit 63 (rem ! (k - 1))))"
proof (induction j arbitrary: rem)
  case (Suc j)
  then have "Suc j = k" if "j < k" "\<not> Suc j < k" for k using that by simp
  then show ?case using Suc by (fastforce simp: nth_list_update)
qed (auto simp: nth_list_update)

lemma rem_shl1_eq:
  assumes "rem \<noteq> []"
  shows "rem_shl1 (length rem - 1) rem = shl_n rem 1 (length rem)"
  using rem_shl1_nth [of "length rem - 1" rem] assms
  by (intro nth_equalityI) (auto simp: shl_n_def Let_def)

lemma length_shr_n [simp]: "length (shr_n a s nw f) = nw"
  by (simp add: shr_n_def Let_def)

lemma wval_shr_n:
  assumes "length a = nw" "fill = (if neg then UINT64_MAX else 0)"
  shows "wval (shr_n a s nw fill) =
    take_bit (64 * nw) (drop_bit s (if neg then wval a OR NOT (mask (64 * nw)) else wval a))"
proof (rule bit_eqI)
  fix m :: nat
  let ?V = "if neg then wval a OR NOT (mask (64 * nw)) else wval a"
  obtain i t where m: "m = 64 * i + t" "t < 64" by (rule limb_index)
  obtain ws bs where s: "s = 64 * ws + bs" "bs < 64" by (rule limb_index)
  have ds: "s div 64 = ws" "s mod 64 = bs" using s by auto
  let ?hi = "if i + ws < nw then a ! (i + ws) else fill" and ?lo = "if i + ws + 1 < nw then a ! (i + ws + 1) else fill"
  have l: "bit (wval (shr_n a s nw fill)) m \<longleftrightarrow> i < nw \<and>
      bit (if bs = 0 then ?hi else drop_bit bs ?hi OR push_bit (64 - bs) ?lo) t"
    using m(2) unfolding m(1) bit_wval_limb [OF m(2)] length_shr_n
    by (intro conj_cong refl) (simp add: shr_n_def Let_def ds)
  have r: "bit (take_bit (64 * nw) (drop_bit s ?V)) m \<longleftrightarrow> i < nw \<and> bit ?V (s + m)"
    using m by (auto simp: bit_take_bit_iff bit_drop_bit_eq)
  have V: "bit ?V (64 * k + u) \<longleftrightarrow> bit (if k < nw then a ! k else fill) u" if "u < 64" for k u
    using that assms bit_wval_limb [OF that, of a k]
    by (auto simp: bit_or_iff bit_not_iff bit_mask_iff UINT64_MAX_def)
  show "bit (wval (shr_n a s nw fill)) m \<longleftrightarrow> bit (take_bit (64 * nw) (drop_bit s ?V)) m"
  proof (cases "bs + t < 64")
    case True
    have "s + m = 64 * (i + ws) + (bs + t)" using m s by simp
    then show ?thesis unfolding l r using V [OF True, of "i + ws"] True m(2)
      by (auto simp: bit_or_iff bit_push_bit_iff bit_drop_bit_eq)
  next
    case False
    have e: "s + m = 64 * (i + ws + 1) + (bs + t - 64)" "bs + t - 64 < 64" "t - (64 - bs) = bs + t - 64"
      using m s False by auto
    then show ?thesis unfolding l r e(1) V [OF e(2)] using False m(2) s(2)
      by (auto simp: bit_or_iff bit_push_bit_iff bit_drop_bit_eq bit_limb_ge)
  qed
qed

section \<open>Long division\<close>

lemma long_division_step:
  fixes X :: int
  assumes "0 < B" "X = 2 * Y + d" "0 \<le> d" "d \<le> 1"
  defines "R \<equiv> 2 * (Y mod B) + d"
  shows "X div B = 2 * (Y div B) + of_bool (B \<le> R)" "X mod B = R - B * of_bool (B \<le> R)"
proof -
  have y: "Y = B * (Y div B) + Y mod B" "0 \<le> Y mod B" "Y mod B < B" using assms(1) by auto
  have x: "X = B * (2 * (Y div B) + of_bool (B \<le> R)) + (R - B * of_bool (B \<le> R))"
  proof -
    define q r where "q = Y div B" and "r = Y mod B"
    have "Y = B * q + r" by (simp add: q_def r_def)
    then show ?thesis unfolding R_def assms(2) q_def [symmetric] r_def [symmetric] by (simp add: algebra_simps)
  qed
  have b: "0 \<le> R - B * of_bool (B \<le> R)" "R - B * of_bool (B \<le> R) < B"
    using y assms(3,4) by (auto simp: R_def)
  show "X div B = 2 * (Y div B) + of_bool (B \<le> R)" by (rule int_div_pos_eq [OF x b])
  show "X mod B = R - B * of_bool (B \<le> R)" by (rule int_mod_pos_eq [OF x b])
qed

lemma wval_set_bit:
  assumes "k div 64 < length q"
  shows "wval (q[k div 64 := q ! (k div 64) OR push_bit (k mod 64) 1]) = set_bit k (wval q)"
proof (rule bit_eqI)
  fix m :: nat
  obtain i t where m: "m = 64 * i + t" "t < 64" by (rule limb_index)
  have "m = k \<longleftrightarrow> i = k div 64 \<and> t = k mod 64" using m by auto
  then show "bit (wval (q[k div 64 := q ! (k div 64) OR push_bit (k mod 64) 1])) m \<longleftrightarrow> bit (set_bit k (wval q)) m"
    using assms m(2) unfolding m(1) bit_set_bit_iff bit_wval_limb [OF m(2)]
    by (cases "i = k div 64") (auto simp: bit_or_iff bit_exp_iff)
qed

lemma wval_or_bit0:
  assumes "rem \<noteq> []" "even (wval rem)"
  shows "wval (rem[0 := rem ! 0 OR (w AND 1)]) = wval rem + of_bool (bit w 0)"
proof -
  have "wval (rem[0 := rem ! 0 OR 1]) = wval rem + 1"
    using wval_set_bit [of 0 rem] assms by (simp add: set_bit_eq bit_0)
  moreover have "w AND 1 = (if bit w 0 then 1 else 0)"
    by (simp add: and_one_eq bit_0 odd_iff_mod_2_eq_one)
  ultimately show ?thesis by simp
qed

lemma udivrem_rem_step:
  assumes l: "length rem = nw" "length a = nw" and nw: "0 < nw" and i: "i < 64 * nw"
    and b: "0 < B" and rem: "wval rem = (wval a div 2 ^ Suc i) mod B"
  defines "r1 \<equiv> rem_shl1 (nw - 1) rem"
  defines "r2 \<equiv> r1[0 := r1 ! 0 OR (drop_bit (i mod 64) (a ! (i div 64)) AND 1)]"
  shows "length r2 = nw" "wval r2 = 2 * (wval a div 2 ^ Suc i mod B) + of_bool (bit (wval a) i)"
    "wval a div 2 ^ i = 2 * (wval a div 2 ^ Suc i) + of_bool (bit (wval a) i)"
proof -
  let ?Y = "wval a div 2 ^ Suc i"
  show x: "wval a div 2 ^ i = 2 * ?Y + of_bool (bit (wval a) i)"
    using mult_div_mod_eq [of 2 "wval a div 2 ^ i"]
    by (simp add: bit_iff_odd mod_2_eq_odd div_mult2_eq [symmetric] zdiv_zmult2_eq [symmetric] mult.commute)
  have ne: "rem \<noteq> []" using l nw by auto
  have r1: "r1 = shl_n rem 1 nw" using rem_shl1_eq [OF ne] l(1) by (simp add: r1_def)
  then show "length r2 = nw" by (simp add: r2_def)
  have "wval a div 2 ^ i \<le> wval a" using zdiv_mono2 [of "wval a" 1 "2 ^ i"] by simp
  moreover have "?Y mod B \<le> ?Y" by (rule zmod_le_nonneg_dividend) (simp add: pos_imp_zdiv_nonneg_iff)
  ultimately have "2 * (?Y mod B) < 2 ^ (64 * nw)"
    using x wval_less [of a] l(2) by (auto simp: of_bool_def split: if_splits)
  moreover have "0 \<le> ?Y mod B" using b by simp
  ultimately have w1: "wval r1 = 2 * (?Y mod B)"
    using wval_shl_n [OF l(1), of 1] rem unfolding r1 by (simp add: take_bit_int_eq_self)
  have "length r1 = nw" by (simp only: r1 length_shl_n)
  then have "r1 \<noteq> []" using nw by auto
  then have "wval r2 = wval r1 + of_bool (bit (drop_bit (i mod 64) (a ! (i div 64))) 0)"
    unfolding r2_def by (intro wval_or_bit0) (simp_all add: w1)
  moreover have "i div 64 < length a" using i l(2) by (simp add: div_less_iff_less_mult mult.commute)
  ultimately show "wval r2 = 2 * (?Y mod B) + of_bool (bit (wval a) i)"
    using w1 by (simp add: bit_drop_bit_eq bit_wval)
qed

lemma udivrem_loop_eq:
  assumes "length a = nw" "length b = nw" "0 < nw" "0 < wval b" "i \<le> 64 * nw" "length q = nw" "length rem = nw"
    "wval rem = (wval a div 2 ^ i) mod wval b" "wval q = 2 ^ i * (wval a div 2 ^ i div wval b)"
  shows "\<exists>q' r'. udivrem_loop a b nw i q rem = (q', r') \<and> length q' = nw \<and> length r' = nw \<and>
    wval q' = wval a div wval b \<and> wval r' = wval a mod wval b"
  using assms
proof (induction i arbitrary: q rem)
  case (Suc i)
  let ?B = "wval b" and ?X = "wval a div 2 ^ i" and ?Y = "wval a div 2 ^ Suc i"
  define r1 where "r1 = rem_shl1 (nw - 1) rem"
  define r2 where "r2 = r1[0 := r1 ! 0 OR (drop_bit (i mod 64) (a ! (i div 64)) AND 1)]"
  have i: "i < 64 * nw" using Suc.prems by simp
  note st = udivrem_rem_step [OF Suc.prems(7,1,3) i Suc.prems(4,8)]
  have l2: "length r2 = nw" and w2: "wval r2 = 2 * (?Y mod ?B) + of_bool (bit (wval a) i)"
    using st(1,2) unfolding r2_def r1_def by simp_all
  have dm: "?X div ?B = 2 * (?Y div ?B) + of_bool (?B \<le> wval r2)" "?X mod ?B = wval r2 - ?B * of_bool (?B \<le> wval r2)"
    using long_division_step [OF Suc.prems(4) st(3)] unfolding w2 by auto
  have cmp: "compare_words r2 b nw \<ge> 0 \<longleftrightarrow> ?B \<le> wval r2"
    using compare_words_eq [of nw r2 b] l2 Suc.prems(2) by (auto simp: sgn_if)
  have u: "udivrem_loop a b nw (Suc i) q rem = (if compare_words r2 b nw \<ge> 0
      then udivrem_loop a b nw i (q[i div 64 := q ! (i div 64) OR push_bit (i mod 64) 1]) (fst (addsub_words r2 b True))
      else udivrem_loop a b nw i q r2)"
    by (simp only: udivrem_loop.simps Let_def r1_def r2_def)
  show ?case
  proof (cases "?B \<le> wval r2")
    case True
    let ?q = "q[i div 64 := q ! (i div 64) OR push_bit (i mod 64) 1]" and ?r = "fst (addsub_words r2 b True)"
    have "\<not> bit (wval q) i" unfolding Suc.prems(9) by (simp add: bit_iff_odd)
    then have q: "wval ?q = 2 ^ i * (?X div ?B)"
      using wval_set_bit [of i q] Suc.prems(6,9) i dm(1) True
      by (simp add: set_bit_eq div_less_iff_less_mult mult.commute algebra_simps)
    have "wval r2 - ?B < 2 ^ (64 * nw)" using wval_less [of r2] l2 Suc.prems(4) by simp
    then have r: "length ?r = nw" "wval ?r = ?X mod ?B"
      using addsub_words_eq [of r2 b True] l2 Suc.prems(2) dm(2) True by (simp_all add: take_bit_int_eq_self)
    show ?thesis unfolding u
      using Suc.IH [of ?q ?r] Suc.prems q r cmp True by simp
  next
    case False
    then show ?thesis unfolding u
      using Suc.IH [of q r2] Suc.prems dm l2 cmp by simp
  qed
qed simp

lemma udivrem_eq:
  assumes "length a = nw" "length b = nw" "0 < nw" "0 < wval b" "n \<le> 64 * nw" "wval a < 2 ^ n"
  shows "\<exists>q r. udivrem a b n nw = (q, r) \<and> length q = nw \<and> length r = nw \<and>
    wval q = wval a div wval b \<and> wval r = wval a mod wval b"
  unfolding udivrem_def using assms by (intro udivrem_loop_eq) (simp_all add: div_pos_pos_trivial)

section \<open>Signed values\<close>

lemma signed_value:
  fixes A :: int
  assumes "0 < n" "0 \<le> A" "A < 2 ^ n"
  shows "signed_take_bit (n - 1) A = A - 2 ^ n * of_bool (bit A (n - 1))"
  using assms signed_take_bit_eq_take_bit_minus [of "n - 1" A] by (simp add: take_bit_int_eq_self)

lemma bit_top_iff:
  fixes A :: int
  assumes "0 < n" "0 \<le> A" "A < 2 ^ n"
  shows "bit A (n - 1) \<longleftrightarrow> 2 ^ (n - 1) \<le> A"
proof -
  have "(2::int) ^ n = 2 * 2 ^ (n - 1)" using assms(1) by (cases n) auto
  then have "A div 2 ^ (n - 1) = of_bool (2 ^ (n - 1) \<le> A)"
    using assms(2,3) by (cases "2 ^ (n - 1) \<le> A") (simp_all add: int_div_pos_eq [of A _ 1 "A - 2 ^ (n - 1)"] div_pos_pos_trivial)
  then show ?thesis by (simp add: bit_iff_odd)
qed

lemma abs_signed_value:
  fixes A :: int
  assumes "0 < n" "0 \<le> A" "A < 2 ^ n"
  defines "S \<equiv> signed_take_bit (n - 1) A"
  shows "bit A (n - 1) \<longleftrightarrow> S < 0" "\<bar>S\<bar> = (if bit A (n - 1) then take_bit n (- A) else A)" "\<bar>S\<bar> < 2 ^ n"
    "take_bit n S = A" "S = 0 \<longleftrightarrow> A = 0"
proof -
  have p: "(2::int) ^ n = 2 * 2 ^ (n - 1)" using assms(1) by (cases n) auto
  note s = signed_value [OF assms(1-3)] and t = bit_top_iff [OF assms(1-3)]
  show neg: "bit A (n - 1) \<longleftrightarrow> S < 0" using s t assms(2,3) by (auto simp: S_def of_bool_def)
  have m: "take_bit n (- A) = 2 ^ n - A" if "0 < A"
  proof -
    have "take_bit n (- A) = take_bit n (2 ^ n - A)" using take_bit_add_exp [of n "- A" 1] by simp
    also have "\<dots> = 2 ^ n - A" using that assms(3) by (intro take_bit_int_eq_self) auto
    finally show ?thesis .
  qed
  have pos: "0 < A" if "bit A (n - 1)" using that t less_le_trans [of 0 "2 ^ (n - 1)" A] by simp
  show "\<bar>S\<bar> = (if bit A (n - 1) then take_bit n (- A) else A)"
    using s neg m pos assms(3) by (auto simp: S_def)
  show "\<bar>S\<bar> < 2 ^ n" using s t p assms(2,3) by (auto simp: S_def of_bool_def split: if_splits)
  show "take_bit n S = A" unfolding S_def s using assms(2,3) by (simp add: take_bit_int_eq_self)
  show "S = 0 \<longleftrightarrow> A = 0" using s neg pos assms(2,3) by (auto simp: S_def)
qed

lemma wval_mask_negate:
  assumes "0 < n" "length a = APINT_NWORDS n"
  shows "wval (mask_top (negate_words a) (length a) n) = take_bit n (- wval a)"
    "length (mask_top (negate_words a) (length a) n) = length a"
proof -
  have "wval (mask_top (negate_words a) (length (negate_words a)) n) = take_bit n (take_bit (64 * length a) (- wval a))"
    using wval_mask_top [OF assms(1), of "negate_words a"] assms(2) by (simp add: negate_words_eq)
  then show "wval (mask_top (negate_words a) (length a) n) = take_bit n (- wval a)"
    using NWORDS_bounds(2) [OF assms(1)] assms(2) by (simp add: negate_words_eq min_def)
qed (simp add: mask_top_def negate_words_eq)

lemma sdivrem_eq:
  assumes n: "0 < n" and l: "length a = APINT_NWORDS n" "length b = APINT_NWORDS n"
    and A: "wval a < 2 ^ n" and B: "wval b < 2 ^ n" "wval b \<noteq> 0"
  defines "SA \<equiv> signed_take_bit (n - 1) (wval a)" and "SB \<equiv> signed_take_bit (n - 1) (wval b)"
  shows "\<exists>q r. sdivrem a b n (APINT_NWORDS n) = (q, r) \<and> length q = APINT_NWORDS n \<and> length r = APINT_NWORDS n \<and>
    wval q = take_bit n (SA sdiv SB) \<and> wval r = take_bit n (SA smod SB)"
proof -
  let ?nw = "APINT_NWORDS n"
  note sa = abs_signed_value [OF n wval_nonneg A, folded SA_def]
  note sb = abs_signed_value [OF n wval_nonneg B(1), folded SB_def]
  note nb = NWORDS_bounds [OF n]
  have neg: "is_negative a n \<longleftrightarrow> SA < 0" "is_negative b n \<longleftrightarrow> SB < 0"
    using is_negative_iff [OF n] l sa(1) sb(1) by simp_all
  let ?a = "if SA < 0 then mask_top (negate_words a) ?nw n else a"
  let ?b = "if SB < 0 then mask_top (negate_words b) ?nw n else b"
  have va: "wval ?a = \<bar>SA\<bar>" "length ?a = ?nw" and vb: "wval ?b = \<bar>SB\<bar>" "length ?b = ?nw"
    using wval_mask_negate [OF n l(1)] wval_mask_negate [OF n l(2)] l sa sb by auto
  obtain q r where qr: "udivrem ?a ?b n ?nw = (q, r)" "length q = ?nw" "length r = ?nw"
      "wval q = \<bar>SA\<bar> div \<bar>SB\<bar>" "wval r = \<bar>SA\<bar> mod \<bar>SB\<bar>"
    using udivrem_eq [of ?a ?nw ?b n] va vb nb(1,2) sa(3) sb(5) B(2) by auto
  let ?q = "if (SA < 0) \<noteq> (SB < 0) then mask_top (negate_words q) ?nw n else q"
  let ?r = "if SA < 0 then mask_top (negate_words r) ?nw n else r"
  have res: "sdivrem a b n ?nw = (?q, ?r)" using qr(1) neg by (simp add: sdivrem_def Let_def)
  have "\<bar>SA\<bar> div \<bar>SB\<bar> \<le> \<bar>SA\<bar>" using zdiv_mono2 [of "\<bar>SA\<bar>" 1 "\<bar>SB\<bar>"] sb(5) B(2) by simp
  moreover have "\<bar>SA\<bar> mod \<bar>SB\<bar> \<le> \<bar>SA\<bar>" by (rule zmod_le_nonneg_dividend) simp
  ultimately have t: "take_bit n (wval q) = wval q" "take_bit n (wval r) = wval r"
    using sa(3) wval_nonneg [of q] wval_nonneg [of r] unfolding qr(4,5) by (auto intro!: take_bit_int_eq_self)
  have "wval ?q = take_bit n (SA sdiv SB)"
    using wval_mask_negate(1) [OF n qr(2)] qr(2,4) t(1) sb(5) B(2)
    by (cases "SA = 0") (auto simp: signed_divide_int_def sgn_if)
  moreover have "wval ?r = take_bit n (SA smod SB)"
    using wval_mask_negate(1) [OF n qr(3)] qr(3,5) t(2)
    by (cases "SA = 0") (auto simp: smod_int_alt_def sgn_if)
  moreover have "length ?q = ?nw" "length ?r = ?nw"
    using wval_mask_negate(2) [OF n qr(2)] wval_mask_negate(2) [OF n qr(3)] qr(2,3) by auto
  ultimately show ?thesis using res by blast
qed

section \<open>Extension and the overflow test\<close>

lemma top_bits_cases:
  assumes "0 < n"
  obtains "n mod 64 = 0" "64 * APINT_NWORDS n = n" | "n mod 64 \<noteq> 0" "64 * (APINT_NWORDS n - 1) + n mod 64 = n" "0 < APINT_NWORDS n"
proof (cases "n mod 64 = 0")
  case True
  then obtain q where "n = 64 * q" by auto
  then show ?thesis using that(1) by (simp add: APINT_NWORDS_def)
next
  case False
  obtain q r where q: "n = 64 * q + r" "r < 64" by (rule limb_index)
  then have "APINT_NWORDS n = Suc q" using False unfolding APINT_NWORDS_def by auto
  then show ?thesis using that(2) False q by auto
qed

lemma bit_limb_above:
  assumes "length a = APINT_NWORDS n" "0 < n" "wval a < 2 ^ n" "n \<le> 64 * i + t" "t < 64" "i < length a"
  shows "\<not> bit (a ! i) t"
proof -
  have "\<not> bit (wval a) (64 * i + t)"
    using assms(3,4) take_bit_int_eq_self [OF wval_nonneg assms(3)] by (metis bit_take_bit_iff not_le)
  then show ?thesis using bit_wval_limb [OF assms(5), of a i] assms(6) by simp
qed

lemma wval_extend:
  assumes n: "0 < n" and l: "length a = APINT_NWORDS n" "length a \<le> tot" and A: "wval a < 2 ^ n"
  shows "length (extend a n tot sgd) = tot"
    "wval (extend a n tot sgd) = take_bit (64 * tot) (if sgd then signed_take_bit (n - 1) (wval a) else wval a)"
proof -
  let ?nw = "APINT_NWORDS n" and ?neg = "sgd \<and> bit (wval a) (n - 1)"
  have neg: "is_negative a n \<longleftrightarrow> bit (wval a) (n - 1)" using is_negative_iff [OF n] l by simp
  let ?a = "if n mod 64 > 0 \<and> ?neg then a[?nw - 1 := a ! (?nw - 1) OR NOT (top_word_mask n)] else a"
  let ?fill = "if ?neg then UINT64_MAX else 0"
  have e: "extend a n tot sgd = ?a @ replicate (tot - ?nw) ?fill"
    using l(1) neg by (auto simp: extend_def Let_def UINT64_MAX_def)
  then show len: "length (extend a n tot sgd) = tot" using l by simp
  show "wval (extend a n tot sgd) = take_bit (64 * tot) (if sgd then signed_take_bit (n - 1) (wval a) else wval a)"
  proof (rule bit_eqI)
    fix m :: nat
    obtain i t where m: "m = 64 * i + t" "t < 64" by (rule limb_index)
    have lim: "bit (extend a n tot sgd ! i) t \<longleftrightarrow> (if m < n then bit (wval a) m else ?neg)" if "i < tot"
    proof (cases "i < ?nw")
      case True
      have w: "bit (wval a) m \<longleftrightarrow> bit (a ! i) t" using bit_wval_limb [OF m(2), of a i] True l(1) m(1) by simp
      have ab: "n \<le> m \<Longrightarrow> \<not> bit (a ! i) t" using bit_limb_above [OF l(1) n A] m True l(1) by simp
      have lt: "i < ?nw - 1 \<Longrightarrow> m < n" using NWORDS_bounds(3) [OF n] m by linarith
      have top: "i = ?nw - 1 \<Longrightarrow> bit (top_word_mask n) t \<longleftrightarrow> m < n" using bit_top_word_mask [OF n m(2)] m(1) by simp
      have full: "n mod 64 = 0 \<Longrightarrow> m < n" using top_bits_cases [OF n] True m by fastforce
      show ?thesis using True l(1) w ab lt top full m(2) unfolding e
        by (cases "i = ?nw - 1") (auto simp: nth_append bit_or_iff bit_not_iff)
    next
      case False
      then have "n \<le> m" using NWORDS_bounds(2) [OF n] m by linarith
      then show ?thesis using False l that m(2) unfolding e by (auto simp: nth_append UINT64_MAX_def)
    qed
    have rhs: "bit (if sgd then signed_take_bit (n - 1) (wval a) else wval a) m \<longleftrightarrow> (if m < n then bit (wval a) m else ?neg)"
    proof (cases "m < n")
      case False
      then have "\<not> bit (wval a) m" using take_bit_int_eq_self [OF wval_nonneg A] by (metis bit_take_bit_iff)
      moreover have "min m (n - 1) = n - 1" using False by simp
      ultimately show ?thesis using False by (simp add: bit_signed_take_bit_iff)
    next
      case True
      then have "min m (n - 1) = m" by simp
      then show ?thesis using True by (simp add: bit_signed_take_bit_iff)
    qed
    show "bit (wval (extend a n tot sgd)) m \<longleftrightarrow>
        bit (take_bit (64 * tot) (if sgd then signed_take_bit (n - 1) (wval a) else wval a)) m"
      using lim m(2) unfolding bit_take_bit_iff rhs
      by (auto simp: m(1) bit_wval_limb [OF m(2)] len)
  qed
qed

lemma overflow_rest_iff: "overflow_rest r e \<longleftrightarrow> (\<exists>j < length r. r ! j \<noteq> e)"
  by (induction r) (auto simp: less_Suc_eq_0_disj)

text \<open>
  The overflow test in terms of bits: the spare words hold the fill value, the spare bits of the
  last used word do, and together these are the bits of the value from \<open>n\<close> on.
\<close>

lemma limb_eq_fill: "w = (if neg then UINT64_MAX else 0) \<longleftrightarrow> (\<forall>t < 64. bit w t = neg)"
  unfolding bit_eq_iff by (auto simp: UINT64_MAX_def possible_bit_word)

lemma overflow_rest_bits:
  assumes "e = (if neg then UINT64_MAX else 0)"
  shows "overflow_rest (drop m r) e \<longleftrightarrow> (\<exists>i < length r. m \<le> i \<and> (\<exists>t < 64. bit (r ! i) t \<noteq> neg))"
proof -
  have "overflow_rest (drop m r) e \<longleftrightarrow> (\<exists>j < length r - m. r ! (m + j) \<noteq> e)"
    unfolding overflow_rest_iff by auto
  also have "\<dots> \<longleftrightarrow> (\<exists>i < length r. m \<le> i \<and> r ! i \<noteq> e)"
  proof
    assume "\<exists>i < length r. m \<le> i \<and> r ! i \<noteq> e"
    then obtain i where "i < length r" "m \<le> i" "r ! i \<noteq> e" by blast
    then show "\<exists>j < length r - m. r ! (m + j) \<noteq> e" by (intro exI [of _ "i - m"]) auto
  next
    assume "\<exists>j < length r - m. r ! (m + j) \<noteq> e"
    then obtain j where "j < length r - m" "r ! (m + j) \<noteq> e" by blast
    then show "\<exists>i < length r. m \<le> i \<and> r ! i \<noteq> e" by (intro exI [of _ "m + j"]) auto
  qed
  finally show ?thesis unfolding assms limb_eq_fill by auto
qed

lemma overflow_top_bits:
  assumes e: "e = (if neg then UINT64_MAX else 0)"
  shows "drop_bit b w \<noteq> (if e \<noteq> 0 then drop_bit b UINT64_MAX else 0) \<longleftrightarrow> (\<exists>t < 64. b \<le> t \<and> bit w t \<noteq> neg)"
proof -
  have "(if e \<noteq> 0 then drop_bit b UINT64_MAX else 0) = drop_bit b e" unfolding e by simp
  moreover have "drop_bit b w = drop_bit b e \<longleftrightarrow> (\<forall>t < 64. b \<le> t \<longrightarrow> bit w t = neg)"
  proof
    assume a: "drop_bit b w = drop_bit b e"
    have "bit w (b + s) = bit e (b + s)" for s using a by (metis bit_drop_bit_eq comp_apply)
    then have "bit w t = bit e t" if "b \<le> t" for t using that le_iff_add by metis
    then show "\<forall>t < 64. b \<le> t \<longrightarrow> bit w t = neg" unfolding e by (auto simp: UINT64_MAX_def)
  next
    assume a: "\<forall>t < 64. b \<le> t \<longrightarrow> bit w t = neg"
    have "bit w (b + s) = bit e (b + s)" for s
      using a by (cases "b + s < 64") (auto simp: e UINT64_MAX_def bit_limb_ge)
    then show "drop_bit b w = drop_bit b e" by (intro bit_eqI) (simp add: bit_drop_bit_eq)
  qed
  ultimately show ?thesis by auto
qed

lemma spare_limb_bits:
  assumes n: "0 < n" and l: "APINT_NWORDS n \<le> length r"
  shows "(\<exists>i < length r. \<exists>t < 64. n \<le> 64 * i + t \<and> Q (r ! i) t) \<longleftrightarrow>
    n mod 64 \<noteq> 0 \<and> (\<exists>t < 64. n mod 64 \<le> t \<and> Q (r ! (APINT_NWORDS n - 1)) t) \<or>
    (\<exists>i < length r. APINT_NWORDS n \<le> i \<and> (\<exists>t < 64. Q (r ! i) t))"
proof (rule top_bits_cases [OF n])
  assume z: "n mod 64 = 0" "64 * APINT_NWORDS n = n"
  then have "n \<le> 64 * i + t \<longleftrightarrow> APINT_NWORDS n \<le> i" if "t < 64" for i t using that by linarith
  then show ?thesis using z by auto
next
  assume z: "n mod 64 \<noteq> 0" "64 * (APINT_NWORDS n - 1) + n mod 64 = n" "0 < APINT_NWORDS n"
  define W b where W: "W = APINT_NWORDS n - 1" "b = n mod 64"
  have nb: "n = 64 * W + b" "b < 64" "APINT_NWORDS n = Suc W" using z W by simp_all
  have *: "n \<le> 64 * i + t \<longleftrightarrow> (i = W \<and> b \<le> t) \<or> Suc W \<le> i" if "t < 64" for i t
    unfolding nb(1) using that nb(2) by (cases "i < W"; cases "i = W") auto
  have "W < length r" "b \<noteq> 0" using l nb(3) z(1) W(2) by simp_all
  then show ?thesis unfolding W [symmetric] nb(3) by (auto simp: * simp del: Suc_le_eq) (use * in blast)+
qed

lemma wval_bits_limbs:
  "(\<exists>k. n \<le> k \<and> k < 64 * length r \<and> bit (wval r) k \<noteq> neg) \<longleftrightarrow>
   (\<exists>i < length r. \<exists>t < 64. n \<le> 64 * i + t \<and> bit (r ! i) t \<noteq> neg)"
proof
  assume "\<exists>k. n \<le> k \<and> k < 64 * length r \<and> bit (wval r) k \<noteq> neg"
  then obtain k where k: "n \<le> k" "k < 64 * length r" "bit (wval r) k \<noteq> neg" by blast
  obtain i t where m: "k = 64 * i + t" "t < 64" by (rule limb_index)
  then have "i < length r" using k(2) by linarith
  then show "\<exists>i < length r. \<exists>t < 64. n \<le> 64 * i + t \<and> bit (r ! i) t \<noteq> neg"
    using k(1,3) m bit_wval_limb [OF m(2), of r i] by blast
next
  assume "\<exists>i < length r. \<exists>t < 64. n \<le> 64 * i + t \<and> bit (r ! i) t \<noteq> neg"
  then obtain i t where i: "i < length r" "t < 64" "n \<le> 64 * i + t" "bit (r ! i) t \<noteq> neg" by blast
  then have "64 * i + t < 64 * length r" by linarith
  then show "\<exists>k. n \<le> k \<and> k < 64 * length r \<and> bit (wval r) k \<noteq> neg"
    using i bit_wval_limb [OF i(2), of r i] by auto
qed

lemma check_overflow_iff:
  assumes n: "0 < n" and l: "APINT_NWORDS n \<le> length r" and e: "e = (if neg then UINT64_MAX else 0)"
  shows "check_overflow r n e \<longleftrightarrow> (\<exists>k. n \<le> k \<and> k < 64 * length r \<and> bit (wval r) k \<noteq> neg)"
  unfolding wval_bits_limbs spare_limb_bits [OF n l, where Q = "\<lambda>w t. bit w t \<noteq> neg"]
  by (auto simp: check_overflow_def Let_def overflow_rest_bits [OF e] overflow_top_bits [OF e])

section \<open>Counting\<close>

lemma length_takeWhile_eqI:
  assumes "r \<le> length xs" "\<And>i. i < r \<Longrightarrow> P (xs ! i)" "r < length xs \<Longrightarrow> \<not> P (xs ! r)"
  shows "length (takeWhile P xs) = r"
  using takeWhile_eq_take_P_nth [of r xs P] assms by (simp add: min_def)

lemma length_takeWhile_props:
  assumes "\<exists>x \<in> set xs. \<not> P x"
  defines "r \<equiv> length (takeWhile P xs)"
  shows "r < length xs" "\<not> P (xs ! r)" "\<And>i. i < r \<Longrightarrow> P (xs ! i)"
proof -
  have "takeWhile P xs \<noteq> xs" using assms(1) by (metis takeWhile_eq_all_conv)
  then show r: "r < length xs"
    using length_takeWhile_le [of P xs] takeWhile_eq_take [of P xs] unfolding r_def by (metis le_neq_implies_less take_all_iff le_refl)
  then show "\<not> P (xs ! r)" unfolding r_def by (rule nth_length_takeWhile)
  fix i assume "i < r"
  then show "P (xs ! i)" unfolding r_def using takeWhile_nth [of i P xs] set_takeWhileD [of "xs ! i" P xs] nth_mem [of i "takeWhile P xs"] by auto
qed

lemma limb_has_bit: "(v :: u64) \<noteq> 0 \<Longrightarrow> \<exists>i < 64. bit v i"
  using bit_eq_iff [of v 0] bit_imp_le_length [of v] by auto

lemma builtin_ctzll_props:
  assumes "v \<noteq> 0"
  shows "builtin_ctzll v < 64" "bit v (builtin_ctzll v)" "i < builtin_ctzll v \<Longrightarrow> \<not> bit v i"
proof -
  have e: "\<exists>x \<in> set [0 ..< 64]. \<not> \<not> bit v x" using limb_has_bit [OF assms] by auto
  note p = length_takeWhile_props [OF e, folded builtin_ctzll_def]
  show "builtin_ctzll v < 64" "bit v (builtin_ctzll v)" "i < builtin_ctzll v \<Longrightarrow> \<not> bit v i"
    using p(1,2) p(3) [of i] by auto
qed

lemma builtin_clzll_props:
  assumes "v \<noteq> 0"
  shows "builtin_clzll v < 64" "bit v (63 - builtin_clzll v)" "i < builtin_clzll v \<Longrightarrow> \<not> bit v (63 - i)"
proof -
  have e: "\<exists>x \<in> set (rev [0 ..< 64]). \<not> \<not> bit v x" using limb_has_bit [OF assms] by auto
  note p = length_takeWhile_props [OF e, folded builtin_clzll_def]
  show "builtin_clzll v < 64" "bit v (63 - builtin_clzll v)" "i < builtin_clzll v \<Longrightarrow> \<not> bit v (63 - i)"
    using p(1,2) p(3) [of i] by (auto simp: rev_nth)
qed

lemma countr_loop_spec:
  assumes l: "length a = APINT_NWORDS n" and n: "0 < n" and A: "wval a < 2 ^ n" and k: "k \<le> length a"
    and low: "\<forall>i < 64 * k. i < n \<longrightarrow> bit (wval a) i = ones"
  defines "r \<equiv> countr_loop (drop k a) n ones (64 * k)"
  shows "r \<le> n \<and> (\<forall>i < r. bit (wval a) i = ones) \<and> (r < n \<longrightarrow> bit (wval a) r \<noteq> ones)"
  using k low unfolding r_def
proof (induction "length a - k" arbitrary: k)
  case 0
  then show ?case using NWORDS_bounds(2) [OF n] l by auto
next
  case (Suc d)
  then have k: "k < length a" by simp
  define v where "v = (if ones then NOT (a ! k) else a ! k)"
  have bv: "bit v t \<longleftrightarrow> bit (wval a) (64 * k + t) \<noteq> ones" if "t < 64" for t
    using that k bit_wval_limb [OF that, of a k] by (auto simp: v_def bit_not_iff)
  have kn: "64 * k < n" using NWORDS_bounds(3) [OF n] k l by linarith
  have u: "countr_loop (drop k a) n ones (64 * k) = (if v \<noteq> 0 then 64 * k + builtin_ctzll v
      else countr_loop (drop (Suc k) a) n ones (64 * Suc k))"
    using Cons_nth_drop_Suc [OF k, symmetric] by (simp add: v_def Let_def add.commute)
  show ?case
  proof (cases "v = 0")
    case True
    have "bit (wval a) i = ones" if "i < 64 * Suc k" "i < n" for i
      using that Suc.prems(2) bv [of "i - 64 * k"] True by (cases "i < 64 * k") auto
    then show ?thesis using Suc.hyps(1) [of "Suc k"] Suc.hyps(2) k True unfolding u by simp
  next
    case False
    note c = builtin_ctzll_props [OF False]
    have le: "64 * k + builtin_ctzll v \<le> n"
    proof (rule ccontr)
      assume "\<not> ?thesis"
      then have g: "n < 64 * k + builtin_ctzll v" by simp
      have "\<not> bit (wval a) i" if "n \<le> i" for i
        using that take_bit_int_eq_self [OF wval_nonneg A] by (metis bit_take_bit_iff not_le)
      moreover have "\<not> bit v (n - 64 * k)" using c(3) [of "n - 64 * k"] g kn by linarith
      ultimately show False using bv [of "n - 64 * k"] bv [OF c(1)] c(1,2) g kn by auto
    qed
    have "bit (wval a) i = ones" if "i < 64 * k + builtin_ctzll v" for i
      using that Suc.prems(2) bv [of "i - 64 * k"] c(1) c(3) [of "i - 64 * k"] le by (cases "i < 64 * k") auto
    then show ?thesis using le False bv [OF c(1)] c(2) unfolding u by auto
  qed
qed

lemma countr_eq:
  assumes "length a = APINT_NWORDS n" "0 < n" "wval a < 2 ^ n"
  shows "countr a n ones = length (takeWhile (\<lambda>i. bit (wval a) i = ones) [0 ..< n])"
  using countr_loop_spec [OF assms, of 0 ones]
  by (intro length_takeWhile_eqI [symmetric]) (auto simp: countr_def)

lemma countl_loop_spec:
  assumes l: "length a = APINT_NWORDS n" and n: "0 < n" and A: "wval a < 2 ^ n" and k: "k \<le> length a"
    and cnt: "count = n - 64 * k"
    and up: "\<forall>i. 64 * k \<le> i \<longrightarrow> i < n \<longrightarrow> bit (wval a) i = ones"
  defines "r \<equiv> countl_loop a (length a) n ones k count"
  shows "r \<le> n \<and> (\<forall>i < r. bit (wval a) (n - 1 - i) = ones) \<and> (r < n \<longrightarrow> bit (wval a) (n - 1 - r) \<noteq> ones)"
  using k cnt up unfolding r_def
proof (induction k arbitrary: count)
  case (Suc k)
  let ?top = "k = length a - 1 \<and> n mod 64 > 0"
  have k: "k < length a" using Suc.prems by simp
  have kn: "64 * k < n" using NWORDS_bounds(3) [OF n] k l by linarith
  define w where "w = (if ?top then n mod 64 else 64)"
  have w: "0 < w" "w \<le> 64" "64 * k + w \<le> n" "count = n - (64 * k + w)" "64 * k + w = min n (64 * Suc k)"
  proof -
    show "0 < w" "w \<le> 64" by (auto simp: w_def)
    show e: "64 * k + w = min n (64 * Suc k)"
    proof (rule top_bits_cases [OF n])
      assume "n mod 64 = 0" "64 * APINT_NWORDS n = n"
      then show ?thesis using k l unfolding w_def by (simp add: min_def)
    next
      assume z: "n mod 64 \<noteq> 0" "64 * (APINT_NWORDS n - 1) + n mod 64 = n" "0 < APINT_NWORDS n"
      show ?thesis
      proof (cases "k = length a - 1")
        case True
        then show ?thesis using z l mod_less_divisor [of 64 n] unfolding w_def by simp
      next
        case False
        then have "64 * Suc k \<le> 64 * (APINT_NWORDS n - 1)" using k l by simp
        then show ?thesis using False z(2) unfolding w_def by simp
      qed
    qed
    show "64 * k + w \<le> n" "count = n - (64 * k + w)" using e Suc.prems(2) by auto
  qed
  define val where "val = (if ?top \<and> ones then a ! k OR NOT (top_word_mask n) else a ! k)"
  define v where "v = (if ones then NOT val else val)"
  have wn: "t < w \<longleftrightarrow> 64 * k + t < n" if "t < 64" for t using w(5) that by (cases "n \<le> 64 * Suc k") auto
  have bv: "bit v t \<longleftrightarrow> t < w \<and> bit (wval a) (64 * k + t) \<noteq> ones" if "t < 64" for t
  proof -
    have "bit (top_word_mask n) t \<longleftrightarrow> t < w" if "?top" using bit_top_word_mask [OF n \<open>t < 64\<close>] that l wn [OF \<open>t < 64\<close>] by simp
    moreover have "bit (wval a) (64 * k + t) \<longleftrightarrow> bit (a ! k) t" using bit_wval_limb [OF that, of a k] k by simp
    moreover have "t < w" if "\<not> ?top" using that \<open>t < 64\<close> unfolding w_def by auto
    moreover have "\<not> bit (a ! k) t" if "\<not> t < w" using bit_limb_above [OF l n A] that \<open>t < 64\<close> wn k by auto
    ultimately show ?thesis using that unfolding v_def val_def by (cases ones) (auto simp: bit_not_iff bit_or_iff)
  qed
  have u: "countl_loop a (length a) n ones (Suc k) count =
      (if v \<noteq> 0 then count + builtin_clzll v - (64 - w) else countl_loop a (length a) n ones k (count + w))"
    using k w(1,2) unfolding countl_loop.simps Let_def v_def [symmetric] val_def w_def by (auto simp: v_def val_def)
  show ?case
  proof (cases "v = 0")
    case True
    have "bit (wval a) i = ones" if "64 * k \<le> i" "i < n" for i
      using that Suc.prems(3) bv [of "i - 64 * k"] wn [of "i - 64 * k"] True by (cases "i < 64 * Suc k") auto
    then show ?thesis using Suc.IH [of "count + w"] k w(3,4) True unfolding u by simp
  next
    case False
    note c = builtin_clzll_props [OF False]
    define lz where "lz = builtin_clzll v"
    have top: "63 - lz < w" "bit (wval a) (64 * k + (63 - lz)) \<noteq> ones" using bv [of "63 - lz"] c(2) by (auto simp: lz_def)
    have r: "count + lz - (64 - w) = n - 1 - (64 * k + (63 - lz))" "64 * k + (63 - lz) < n"
      using w top c(1) by (simp_all add: lz_def [symmetric])
    have "bit (wval a) j = ones" if "64 * k + (63 - lz) < j" "j < n" for j
    proof (cases "j < 64 * Suc k")
      case True
      then have "63 - (j - 64 * k) < lz" "63 - (63 - (j - 64 * k)) = j - 64 * k" using that(1) c(1) by (simp_all add: lz_def [symmetric])
      then have "\<not> bit v (j - 64 * k)" using c(3) [of "63 - (j - 64 * k)"] by (simp add: lz_def)
      then show ?thesis using True that bv [of "j - 64 * k"] wn [of "j - 64 * k"] by auto
    qed (use Suc.prems(3) that in auto)
    then show ?thesis using r top(2) False unfolding u lz_def [symmetric] by auto
  qed
qed simp

lemma countl_eq:
  assumes "length a = APINT_NWORDS n" "0 < n" "wval a < 2 ^ n"
  shows "countl a n ones = length (takeWhile (\<lambda>i. bit (wval a) i = ones) (rev [0 ..< n]))"
  using countl_loop_spec [OF assms order_refl, of "n - 64 * length a" ones] NWORDS_bounds(2) [OF assms(2)] assms(1)
  by (intro length_takeWhile_eqI [symmetric]) (auto simp: countl_def rev_nth)

lemma popcount_limbs:
  "sum_list (map builtin_popcountll a) = length (filter (bit (wval a)) [0 ..< 64 * length a])"
proof (induction a rule: rev_induct)
  case (snoc w a)
  let ?k = "64 * length a"
  have lo: "filter (bit (wval (a @ [w]))) [0 ..< ?k] = filter (bit (wval a)) [0 ..< ?k]"
    by (rule filter_cong) (auto simp: bit_wval nth_append)
  have "filter (bit (wval (a @ [w]))) (map ((+) ?k) [0 ..< 64]) = map ((+) ?k) (filter (bit w) [0 ..< 64])"
    unfolding filter_map by (intro arg_cong [where f = "map ((+) ?k)"] filter_cong) (auto simp: bit_wval)
  moreover have "map ((+) ?k) [0 ..< 64] = [?k ..< ?k + 64]" 
  proof -
    have "map ((+) ?k) [0 ..< 64] = map (\<lambda>i. i + ?k) [0 ..< 64]" by (rule map_cong) auto
    then show ?thesis by (simp only: map_add_upt add.commute)
  qed
  moreover have "[0 ..< 64 * length (a @ [w])] = [0 ..< ?k] @ [?k ..< ?k + 64]"
    by (simp only: length_append_singleton mult_Suc_right upt_add_eq_append [of 0 ?k 64] add.commute [of 64] le0)
  ultimately show ?case using snoc lo by (simp add: builtin_popcountll_def)
qed simp

lemma popcount_eq:
  assumes "length a = APINT_NWORDS n" "0 < n" "wval a < 2 ^ n"
  shows "sum_list (map builtin_popcountll a) = card {i. i < n \<and> bit (wval a) i}"
proof -
  have "i < n" if "bit (wval a) i" for i
    using that take_bit_int_eq_self [OF wval_nonneg assms(3)] by (metis bit_take_bit_iff)
  then have "{i. i < n \<and> bit (wval a) i} = set (filter (bit (wval a)) [0 ..< 64 * length a])"
    using NWORDS_bounds(2) [OF assms(2)] assms(1) by (auto intro: less_le_trans)
  then show ?thesis unfolding popcount_limbs by (simp only: distinct_card [OF distinct_filter [OF distinct_upt]])
qed

section \<open>Extreme values and shift counts\<close>

lemma is_min_int_iff:
  assumes l: "length a = APINT_NWORDS n" and n: "0 < n" and A: "wval a < 2 ^ n"
  shows "is_min_int a n \<longleftrightarrow> wval a = 2 ^ (n - 1)"
proof -
  define r where "r = countr a n False"
  have r: "\<forall>i < r. \<not> bit (wval a) i" "r < n \<Longrightarrow> bit (wval a) r" "r \<le> n"
    using countr_loop_spec [OF l n A, of 0 False] by (auto simp: r_def countr_def)
  have hi: "\<not> bit (wval a) i" if "n \<le> i" for i
    using that take_bit_int_eq_self [OF wval_nonneg A] by (metis bit_take_bit_iff not_le)
  have "is_min_int a n \<longleftrightarrow> bit (wval a) (n - 1) \<and> r = n - 1"
    using is_negative_iff [OF n, of a] l by (simp add: is_min_int_def r_def)
  also have "\<dots> \<longleftrightarrow> wval a = 2 ^ (n - 1)"
  proof
    assume b: "bit (wval a) (n - 1) \<and> r = n - 1"
    show "wval a = 2 ^ (n - 1)"
    proof (rule bit_eqI)
      fix k
      consider "k < n - 1" | "k = n - 1" | "n \<le> k" by linarith
      then show "bit (wval a) k \<longleftrightarrow> bit ((2::int) ^ (n - 1)) k"
        using b r(1) hi [of k] n by cases (auto simp: bit_exp_iff)
    qed
  next
    assume a: "wval a = 2 ^ (n - 1)"
    then have b: "bit (wval a) k \<longleftrightarrow> k = n - 1" for k by (auto simp: bit_exp_iff)
    moreover have "r < n" using r(1,3) b [of "n - 1"] n by (metis diff_less le_neq_implies_less zero_less_one)
    ultimately show "bit (wval a) (n - 1) \<and> r = n - 1" using r(2) by simp
  qed
  finally show ?thesis .
qed

lemma all_max_iff: "all_max a \<longleftrightarrow> (\<forall>i < length a. a ! i = UINT64_MAX)"
  by (induction a) (auto simp: less_Suc_eq_0_disj)

lemma is_neg_one_iff:
  assumes l: "length a = APINT_NWORDS n" and n: "0 < n"
  shows "is_neg_one a n (APINT_NWORDS n) \<longleftrightarrow> wval a = mask n"
proof -
  let ?nw = "APINT_NWORDS n"
  note nb = NWORDS_bounds [OF n]
  have low: "i < ?nw - 1 \<Longrightarrow> t < 64 \<Longrightarrow> 64 * i + t < n" for i t using nb(3) by linarith
  have "is_neg_one a n ?nw \<longleftrightarrow> (\<forall>i < ?nw. \<forall>t < 64. bit (a ! i) t \<longleftrightarrow> 64 * i + t < n)"
  proof
    assume m: "is_neg_one a n ?nw"
    show "\<forall>i < ?nw. \<forall>t < 64. bit (a ! i) t \<longleftrightarrow> 64 * i + t < n"
    proof (intro allI impI)
      fix i t :: nat assume i: "i < ?nw" "t < 64"
      show "bit (a ! i) t \<longleftrightarrow> 64 * i + t < n"
        using m i low [of i t] bit_top_word_mask [OF n i(2)] l
        by (cases "i < ?nw - 1") (auto simp: is_neg_one_def all_max_iff UINT64_MAX_def not_less dest: le_antisym)
    qed
  next
    assume m: "\<forall>i < ?nw. \<forall>t < 64. bit (a ! i) t \<longleftrightarrow> 64 * i + t < n"
    have "a ! i = UINT64_MAX" if "i < ?nw - 1" for i
      using that m low [of i] by (intro bit_word_eqI) (auto simp: UINT64_MAX_def)
    moreover have "a ! (?nw - 1) = top_word_mask n"
      using m nb(1) bit_top_word_mask [OF n] by (intro bit_word_eqI) auto
    ultimately show "is_neg_one a n ?nw" using l by (simp add: is_neg_one_def all_max_iff)
  qed
  also have "\<dots> \<longleftrightarrow> wval a = mask n"
  proof
    assume m: "\<forall>i < ?nw. \<forall>t < 64. bit (a ! i) t \<longleftrightarrow> 64 * i + t < n"
    show "wval a = mask n"
    proof (rule bit_eqI)
      fix k :: nat
      obtain i t where k: "k = 64 * i + t" "t < 64" by (rule limb_index)
      have "i < ?nw" if "k < n" using that nb(2) k by linarith
      then show "bit (wval a) k \<longleftrightarrow> bit (mask n :: int) k"
        using m k bit_wval_limb [OF k(2), of a i] l by (auto simp: bit_mask_iff)
    qed
  next
    assume m: "wval a = mask n"
    show "\<forall>i < ?nw. \<forall>t < 64. bit (a ! i) t \<longleftrightarrow> 64 * i + t < n"
    proof (intro allI impI)
      fix i t :: nat assume "i < ?nw" "t < 64"
      then show "bit (a ! i) t \<longleftrightarrow> 64 * i + t < n" using bit_wval_limb [of t a i] l m by (simp add: bit_mask_iff)
    qed
  qed
  finally show ?thesis .
qed

lemma extract_shift_rest_iff: "extract_shift_rest b \<longleftrightarrow> wval b \<noteq> 0"
proof -
  have "extract_shift_rest b \<longleftrightarrow> \<not> is_zero b" by (induction b) auto
  then show ?thesis by (simp add: is_zero_iff)
qed

lemma extract_shift_eq:
  assumes "b \<noteq> []" "n < 2 ^ 64"
  shows "extract_shift b n = nat (min (int n) (wval b))"
proof (cases b)
  case (Cons w bs)
  show ?thesis
  proof (cases "wval bs = 0")
    case True
    have "uint w = int (unat w)" by simp
    then have "wval b = int (unat w)" using Cons True by (simp del: int_nat_eq)
    moreover have "extract_shift b n = min n (unat w)" using Cons True by (simp add: extract_shift_def extract_shift_rest_iff)
    ultimately show ?thesis by (simp only: of_nat_min [symmetric] nat_int)
  next
    case False
    then have "1 \<le> wval bs" using wval_nonneg [of bs] by linarith
    then have "2 ^ 64 \<le> 2 ^ 64 * wval bs" by simp
    then have "2 ^ 64 \<le> wval b" using Cons uint_ge_0 [of w] by (simp only: wval.simps)
    moreover have "int n < 2 ^ 64" using assms(2) by (metis of_nat_less_iff of_nat_numeral of_nat_power)
    ultimately show ?thesis using Cons False by (simp add: extract_shift_def extract_shift_rest_iff)
  qed
qed (use assms in simp)

end
