(* ===== verification/APInt.thy ===== *)
theory APInt
  imports APInt_Shift
begin

unbundle bit_operations_syntax

text \<open>
  The exported operations of \<open>APInt.c\<close> on little-endian byte buffers.  The C functions load
  their operands into local limbs before they store the result, so the result buffer may be
  an operand; here an operation takes the operand buffers and returns the bytes it writes.
  Each is shown to compute the arithmetic operation on the number its operands denote, as an
  unsigned (\<open>uval\<close>) or two's complement (\<open>sval\<close>) integer, with its overflow flag or error.
\<close>

section \<open>Addition, subtraction, multiplication\<close>

definition APInt_neg :: "nat \<Rightarrow> u8 list \<Rightarrow> u8 list result" where
  "APInt_neg numbits pa =
     rbind (load pa numbits) (\<lambda>a.
       Inr (store (mask_top (negate_words a) (APINT_NWORDS numbits) numbits) numbits))"

definition APInt_addsub_ov ::
  "nat \<Rightarrow> u8 list \<Rightarrow> u8 list \<Rightarrow> bool \<Rightarrow> bool \<Rightarrow> (u8 list \<times> bool) result"
where
  "APInt_addsub_ov numbits pa pb is_sub is_signed =
     rbind (load pa numbits) (\<lambda>a.
     rbind (load pb numbits) (\<lambda>b.
       let nw = APINT_NWORDS numbits;
           neg_a = is_negative a numbits;
           neg_b = is_negative b numbits;
           neg_b = (if is_sub then \<not> neg_b else neg_b);
           r = mask_top (fst (addsub_words a b is_sub)) nw numbits;
           neg_r = is_negative r numbits;
           carry = ((neg_a \<and> neg_b) \<or> ((neg_a \<or> neg_b) \<and> \<not> neg_r))
       in Inr (store r numbits,
               if is_signed then neg_a = neg_b \<and> neg_a \<noteq> neg_r
               else if is_sub then \<not> carry else carry)))"

definition APInt_add :: "nat \<Rightarrow> u8 list \<Rightarrow> u8 list \<Rightarrow> u8 list result" where
  "APInt_add n pa pb = rbind (APInt_addsub_ov n pa pb False False) (\<lambda>(pr, _). Inr pr)"

definition APInt_sub :: "nat \<Rightarrow> u8 list \<Rightarrow> u8 list \<Rightarrow> u8 list result" where
  "APInt_sub n pa pb = rbind (APInt_addsub_ov n pa pb True False) (\<lambda>(pr, _). Inr pr)"

definition APInt_add_uov :: "nat \<Rightarrow> u8 list \<Rightarrow> u8 list \<Rightarrow> (u8 list \<times> bool) result" where
  "APInt_add_uov n pa pb = APInt_addsub_ov n pa pb False False"

definition APInt_add_sov :: "nat \<Rightarrow> u8 list \<Rightarrow> u8 list \<Rightarrow> (u8 list \<times> bool) result" where
  "APInt_add_sov n pa pb = APInt_addsub_ov n pa pb False True"

definition APInt_sub_uov :: "nat \<Rightarrow> u8 list \<Rightarrow> u8 list \<Rightarrow> (u8 list \<times> bool) result" where
  "APInt_sub_uov n pa pb = APInt_addsub_ov n pa pb True False"

definition APInt_sub_sov :: "nat \<Rightarrow> u8 list \<Rightarrow> u8 list \<Rightarrow> (u8 list \<times> bool) result" where
  "APInt_sub_sov n pa pb = APInt_addsub_ov n pa pb True True"

definition APInt_mul :: "nat \<Rightarrow> u8 list \<Rightarrow> u8 list \<Rightarrow> u8 list result" where
  "APInt_mul numbits pa pb =
     rbind (load pa numbits) (\<lambda>a.
     rbind (load pb numbits) (\<lambda>b.
       let nw = APINT_NWORDS numbits in
       Inr (store (mask_top (mul_words mac_limb a b nw) nw numbits) numbits)))"

text \<open>The product limbs above \<open>nw\<close> are not stored, so the model keeps the first \<open>nw\<close>.\<close>

definition APInt_mul_ov :: "nat \<Rightarrow> u8 list \<Rightarrow> u8 list \<Rightarrow> bool \<Rightarrow> (u8 list \<times> bool) result" where
  "APInt_mul_ov numbits pa pb is_signed =
     rbind (load pa numbits) (\<lambda>a.
     rbind (load pb numbits) (\<lambda>b.
       let nw = APINT_NWORDS numbits;
           nw2 = 2 * nw;
           a = extend a numbits nw2 is_signed;
           b = extend b numbits nw2 is_signed;
           r = mul_words mac_limb a b nw2;
           expected = (if is_signed \<and> is_negative r numbits then UINT64_MAX else 0);
           overflow = check_overflow r numbits expected
       in Inr (store (mask_top r nw numbits) numbits, overflow)))"

definition APInt_mul_uov :: "nat \<Rightarrow> u8 list \<Rightarrow> u8 list \<Rightarrow> (u8 list \<times> bool) result" where
  "APInt_mul_uov n pa pb = APInt_mul_ov n pa pb False"

definition APInt_mul_sov :: "nat \<Rightarrow> u8 list \<Rightarrow> u8 list \<Rightarrow> (u8 list \<times> bool) result" where
  "APInt_mul_sov n pa pb = APInt_mul_ov n pa pb True"

section \<open>Division\<close>

text \<open>\<open>pq\<close> and \<open>pr\<close> say which of the two result pointers is not NULL; a buffer that is not
  written is \<open>None\<close>.\<close>

definition APInt_divrem ::
  "nat \<Rightarrow> u8 list \<Rightarrow> u8 list \<Rightarrow> bool \<Rightarrow> bool \<Rightarrow> bool \<Rightarrow> (u8 list option \<times> u8 list option \<times> bool) result"
where
  "APInt_divrem numbits pa pb pq pr is_signed =
     rbind (load pa numbits) (\<lambda>a.
     rbind (load pb numbits) (\<lambda>b.
       let nw = APINT_NWORDS numbits in
       if is_zero b then Inr (None, None, True)
       else
         let overflow = (is_signed \<and> pq \<and> is_min_int a numbits \<and> is_neg_one b numbits nw);
             (q, rem) = (if is_signed then sdivrem a b numbits nw else udivrem a b numbits nw);
             q = mask_top q nw numbits;
             rem = mask_top rem nw numbits
         in Inr (if pq then Some (store q numbits) else None,
                 if pr then Some (store rem numbits) else None, overflow)))"

definition APInt_div_sov :: "nat \<Rightarrow> u8 list \<Rightarrow> u8 list \<Rightarrow> (u8 list option \<times> bool) result" where
  "APInt_div_sov n pa pb = rbind (APInt_divrem n pa pb True False True) (\<lambda>(q, _, ov). Inr (q, ov))"

definition APInt_div_uov :: "nat \<Rightarrow> u8 list \<Rightarrow> u8 list \<Rightarrow> (u8 list option \<times> bool) result" where
  "APInt_div_uov n pa pb = rbind (APInt_divrem n pa pb True False False) (\<lambda>(q, _, ov). Inr (q, ov))"

definition APInt_rem_sov :: "nat \<Rightarrow> u8 list \<Rightarrow> u8 list \<Rightarrow> (u8 list option \<times> bool) result" where
  "APInt_rem_sov n pa pb = rbind (APInt_divrem n pa pb False True True) (\<lambda>(_, r, ov). Inr (r, ov))"

definition APInt_rem_uov :: "nat \<Rightarrow> u8 list \<Rightarrow> u8 list \<Rightarrow> (u8 list option \<times> bool) result" where
  "APInt_rem_uov n pa pb = rbind (APInt_divrem n pa pb False True False) (\<lambda>(_, r, ov). Inr (r, ov))"

definition jl_diverror :: c_error where
  "jl_diverror = JlThrow ''DivideError'' ''''"

definition APInt_sdiv :: "nat \<Rightarrow> u8 list \<Rightarrow> u8 list \<Rightarrow> u8 list option result" where
  "APInt_sdiv n pa pb = rbind (APInt_div_sov n pa pb) (\<lambda>(r, ov). if ov then Inl jl_diverror else Inr r)"

definition APInt_udiv :: "nat \<Rightarrow> u8 list \<Rightarrow> u8 list \<Rightarrow> u8 list option result" where
  "APInt_udiv n pa pb = rbind (APInt_div_uov n pa pb) (\<lambda>(r, ov). if ov then Inl jl_diverror else Inr r)"

definition APInt_srem :: "nat \<Rightarrow> u8 list \<Rightarrow> u8 list \<Rightarrow> u8 list option result" where
  "APInt_srem n pa pb = rbind (APInt_rem_sov n pa pb) (\<lambda>(r, ov). if ov then Inl jl_diverror else Inr r)"

definition APInt_urem :: "nat \<Rightarrow> u8 list \<Rightarrow> u8 list \<Rightarrow> u8 list option result" where
  "APInt_urem n pa pb = rbind (APInt_rem_uov n pa pb) (\<lambda>(r, ov). if ov then Inl jl_diverror else Inr r)"

section \<open>Comparison and bitwise operations\<close>

definition APInt_cmp :: "nat \<Rightarrow> u8 list \<Rightarrow> u8 list \<Rightarrow> bool \<Rightarrow> int result" where
  "APInt_cmp numbits pa pb is_signed =
     rbind (load pa numbits) (\<lambda>a.
     rbind (load pb numbits) (\<lambda>b.
       let neg_a = is_negative a numbits; neg_b = is_negative b numbits in
       if is_signed \<and> neg_a \<noteq> neg_b then Inr (if neg_a then - 1 else 1)
       else Inr (compare_words a b (APINT_NWORDS numbits))))"

definition APInt_eq :: "nat \<Rightarrow> u8 list \<Rightarrow> u8 list \<Rightarrow> bool result" where
  "APInt_eq n pa pb = rbind (APInt_cmp n pa pb False) (\<lambda>c. Inr (c = 0))"

definition APInt_ne :: "nat \<Rightarrow> u8 list \<Rightarrow> u8 list \<Rightarrow> bool result" where
  "APInt_ne n pa pb = rbind (APInt_cmp n pa pb False) (\<lambda>c. Inr (c \<noteq> 0))"

definition APInt_slt :: "nat \<Rightarrow> u8 list \<Rightarrow> u8 list \<Rightarrow> bool result" where
  "APInt_slt n pa pb = rbind (APInt_cmp n pa pb True) (\<lambda>c. Inr (c < 0))"

definition APInt_ult :: "nat \<Rightarrow> u8 list \<Rightarrow> u8 list \<Rightarrow> bool result" where
  "APInt_ult n pa pb = rbind (APInt_cmp n pa pb False) (\<lambda>c. Inr (c < 0))"

definition APInt_sle :: "nat \<Rightarrow> u8 list \<Rightarrow> u8 list \<Rightarrow> bool result" where
  "APInt_sle n pa pb = rbind (APInt_cmp n pa pb True) (\<lambda>c. Inr (c \<le> 0))"

definition APInt_ule :: "nat \<Rightarrow> u8 list \<Rightarrow> u8 list \<Rightarrow> bool result" where
  "APInt_ule n pa pb = rbind (APInt_cmp n pa pb False) (\<lambda>c. Inr (c \<le> 0))"

definition limbwise :: "(u64 \<Rightarrow> u64 \<Rightarrow> u64) \<Rightarrow> u64 list \<Rightarrow> u64 list \<Rightarrow> u64 list" where
  "limbwise f a b = map2 f a b"

definition APInt_and :: "nat \<Rightarrow> u8 list \<Rightarrow> u8 list \<Rightarrow> u8 list result" where
  "APInt_and numbits pa pb =
     rbind (load pa numbits) (\<lambda>a. rbind (load pb numbits) (\<lambda>b. Inr (store (limbwise (AND) a b) numbits)))"

definition APInt_or :: "nat \<Rightarrow> u8 list \<Rightarrow> u8 list \<Rightarrow> u8 list result" where
  "APInt_or numbits pa pb =
     rbind (load pa numbits) (\<lambda>a. rbind (load pb numbits) (\<lambda>b. Inr (store (limbwise (OR) a b) numbits)))"

definition APInt_xor :: "nat \<Rightarrow> u8 list \<Rightarrow> u8 list \<Rightarrow> u8 list result" where
  "APInt_xor numbits pa pb =
     rbind (load pa numbits) (\<lambda>a. rbind (load pb numbits) (\<lambda>b. Inr (store (limbwise (XOR) a b) numbits)))"

definition APInt_not :: "nat \<Rightarrow> u8 list \<Rightarrow> u8 list result" where
  "APInt_not numbits pa =
     rbind (load pa numbits) (\<lambda>a.
       Inr (store (mask_top (map NOT a) (APINT_NWORDS numbits) numbits) numbits))"

section \<open>Shifts\<close>

definition APInt_shl :: "nat \<Rightarrow> u8 list \<Rightarrow> u8 list \<Rightarrow> u8 list result" where
  "APInt_shl numbits pa pb =
     rbind (load pa numbits) (\<lambda>a.
     rbind (load pb numbits) (\<lambda>b.
       let nw = APINT_NWORDS numbits;
           shift = extract_shift b numbits
       in Inr (store (mask_top (shl_n a shift nw) nw numbits) numbits)))"

definition APInt_shr :: "nat \<Rightarrow> u8 list \<Rightarrow> u8 list \<Rightarrow> bool \<Rightarrow> u8 list result" where
  "APInt_shr numbits pa pb is_signed =
     rbind (load pa numbits) (\<lambda>a.
     rbind (load pb numbits) (\<lambda>b.
       let nw = APINT_NWORDS numbits;
           shift = extract_shift b numbits;
           neg = (is_signed \<and> is_negative a numbits);
           a = (if neg then extend a numbits nw is_signed else a)
       in Inr (store (mask_top (shr_n a shift nw (if neg then UINT64_MAX else 0)) nw numbits) numbits)))"

definition APInt_lshr :: "nat \<Rightarrow> u8 list \<Rightarrow> u8 list \<Rightarrow> u8 list result" where
  "APInt_lshr n pa pb = APInt_shr n pa pb False"

definition APInt_ashr :: "nat \<Rightarrow> u8 list \<Rightarrow> u8 list \<Rightarrow> u8 list result" where
  "APInt_ashr n pa pb = APInt_shr n pa pb True"

section \<open>Byte swap and bit counts\<close>

text \<open>The loop \<open>dst[nb - 1 - i] = src[i]\<close> over the zeroed bytes of \<open>r\<close>.\<close>

fun bswap_loop :: "u8 list \<Rightarrow> nat \<Rightarrow> nat \<Rightarrow> u8 list \<Rightarrow> u8 list" where
  "bswap_loop src nb 0 dst = dst"
| "bswap_loop src nb (Suc k) dst =
     (let i = nb - Suc k in bswap_loop src nb k (dst[nb - 1 - i := src ! i]))"

definition APInt_bswap :: "nat \<Rightarrow> u8 list \<Rightarrow> u8 list result" where
  "APInt_bswap numbits pa =
     (let nb = APINT_NBYTES numbits; nw = APINT_NWORDS numbits in
      if length pa < nb then Inl OutOfBounds
      else Inr (take nb (bswap_loop pa nb nb (replicate (8 * nw) 0))))"

definition APInt_popcount :: "nat \<Rightarrow> u8 list \<Rightarrow> nat result" where
  "APInt_popcount numbits pa =
     rbind (load pa numbits) (\<lambda>a. Inr (sum_list (map builtin_popcountll a)))"

definition APInt_countr :: "nat \<Rightarrow> u8 list \<Rightarrow> bool \<Rightarrow> nat result" where
  "APInt_countr numbits pa count_ones =
     rbind (load pa numbits) (\<lambda>a. Inr (countr a numbits count_ones))"

definition APInt_countl :: "nat \<Rightarrow> u8 list \<Rightarrow> bool \<Rightarrow> nat result" where
  "APInt_countl numbits pa count_ones =
     rbind (load pa numbits) (\<lambda>a. Inr (countl a numbits count_ones))"

definition APInt_countr_zero :: "nat \<Rightarrow> u8 list \<Rightarrow> nat result" where
  "APInt_countr_zero n pa = APInt_countr n pa False"

definition APInt_countr_one :: "nat \<Rightarrow> u8 list \<Rightarrow> nat result" where
  "APInt_countr_one n pa = APInt_countr n pa True"

definition APInt_countl_zero :: "nat \<Rightarrow> u8 list \<Rightarrow> nat result" where
  "APInt_countl_zero n pa = APInt_countl n pa False"

definition APInt_countl_one :: "nat \<Rightarrow> u8 list \<Rightarrow> nat result" where
  "APInt_countl_one n pa = APInt_countl n pa True"

section \<open>Extension, truncation, sign\<close>

text \<open>A type is given by its number of bits (\<open>jl_datatype_nbits\<close>) and, for the output, the bytes
  of its storage (\<open>jl_datatype_size\<close>).  The output buffer has that many bytes.\<close>

definition APInt_sext :: "nat \<Rightarrow> u8 list \<Rightarrow> nat \<Rightarrow> nat \<Rightarrow> u8 list result" where
  "APInt_sext inumbits pa onumbits onumbytes =
     (let inumbytes = APINT_NBYTES inumbits in
      if \<not> onumbits > inumbits
      then Inl (JlThrow ''ErrorException'' ''SExt: output bitsize must be > input bitsize'')
      else
        let bits = (8 - inumbits mod 8) mod 8; signbit = (inumbits - 1) mod 8 in
        rbind (rget pa (inumbytes - 1)) (\<lambda>byte.
          let sign = bit byte signbit in
          if onumbytes < inumbytes \<or> length pa < inumbytes then Inl OutOfBounds
          else
            let pr = take inumbytes pa;
                pr = (if bits \<noteq> 0
                      then pr[inumbytes - 1 := (if sign then byte OR push_bit (8 - bits) 0xFF
                                                else byte AND drop_bit bits 0xFF)]
                      else pr)
            in Inr (pr @ replicate (onumbytes - inumbytes) (if sign then 0xFF else 0))))"

definition APInt_zext :: "nat \<Rightarrow> u8 list \<Rightarrow> nat \<Rightarrow> nat \<Rightarrow> u8 list result" where
  "APInt_zext inumbits pa onumbits onumbytes =
     (let inumbytes = APINT_NBYTES inumbits in
      if \<not> onumbits > inumbits
      then Inl (JlThrow ''ErrorException'' ''ZExt: output bitsize must be > input bitsize'')
      else if onumbytes < inumbytes \<or> length pa < inumbytes then Inl OutOfBounds
      else
        let bits = (8 - inumbits mod 8) mod 8;
            pr = take inumbytes pa;
            pr = (if bits \<noteq> 0
                  then pr[inumbytes - 1 := pa ! (inumbytes - 1) AND drop_bit bits 0xFF] else pr)
        in Inr (pr @ replicate (onumbytes - inumbytes) 0))"

definition APInt_trunc :: "nat \<Rightarrow> u8 list \<Rightarrow> nat \<Rightarrow> nat \<Rightarrow> u8 list result" where
  "APInt_trunc inumbits pa onumbits onumbytes_storage =
     (let onumbytes_value = APINT_NBYTES onumbits in
      if \<not> onumbits < inumbits
      then Inl (JlThrow ''ErrorException'' ''Trunc: output bitsize must be < input bitsize'')
      else if length pa < onumbytes_value \<or> onumbytes_storage < onumbytes_value then Inl OutOfBounds
      else
        let pr = take onumbytes_value pa;
            pr = (if onumbits mod 8 \<noteq> 0
                  then pr[onumbytes_value - 1 :=
                            pr ! (onumbytes_value - 1) AND (push_bit (onumbits mod 8) 1 - 1)]
                  else pr)
        in Inr (pr @ replicate (onumbytes_storage - onumbytes_value) 0))"

definition APInt_flipsign :: "nat \<Rightarrow> u8 list \<Rightarrow> u8 list \<Rightarrow> u8 list result" where
  "APInt_flipsign numbits pa pb =
     (let numbytes = APINT_NBYTES numbits; signbit = (numbits - 1) mod 8 in
      rbind (rget pb (numbytes - 1)) (\<lambda>byte.
        if byte AND push_bit signbit 1 \<noteq> 0 then APInt_neg numbits pa
        else if length pa < numbytes then Inl OutOfBounds
        else Inr (take numbytes pa)))"

section \<open>What the operations promise\<close>

text \<open>The number in a buffer under the chosen signedness, and whether a number is representable.\<close>

definition ival :: "bool \<Rightarrow> nat \<Rightarrow> u8 list \<Rightarrow> int" where
  "ival sgd n p = (if sgd then sval n p else uval n p)"

definition fits :: "bool \<Rightarrow> nat \<Rightarrow> int \<Rightarrow> bool" where
  "fits sgd n x \<longleftrightarrow> (if sgd then - (2 ^ (n - 1)) \<le> x \<and> x < 2 ^ (n - 1) else 0 \<le> x \<and> x < 2 ^ n)"

text \<open>Buffers that hold an \<open>n\<close>-bit number.\<close>

definition holds :: "nat \<Rightarrow> u8 list \<Rightarrow> bool" where
  "holds n p \<longleftrightarrow> 0 < n \<and> APINT_NBYTES n \<le> length p"

definition encodes :: "nat \<Rightarrow> u8 list \<Rightarrow> int \<Rightarrow> bool" where
  "encodes n p x \<longleftrightarrow> length p = APINT_NBYTES n \<and> bval p = take_bit n x"

section \<open>Correctness of the arithmetic\<close>

lemma take_bit_uval [simp]: "take_bit n (uval n p) = uval n p"
  by (simp add: uval_def)

lemma uval_bounds [simp]: "0 \<le> uval n p" "uval n p < 2 ^ n"
  by (simp_all add: uval_def)

lemma sval_uval: "0 < n \<Longrightarrow> sval n p = signed_take_bit (n - 1) (uval n p)"
  by (rule bit_eqI) (auto simp: sval_def uval_def bit_signed_take_bit_iff bit_take_bit_iff)

text \<open>Storing a masked limb array writes exactly the \<open>n\<close>-bit number.\<close>

lemma store_masked:
  assumes "0 < n" "APINT_NWORDS n \<le> length r"
  shows "length (store (mask_top r (APINT_NWORDS n) n) n) = APINT_NBYTES n"
    "bval (store (mask_top r (APINT_NWORDS n) n) n) = take_bit n (wval r)"
proof -
  let ?nw = "APINT_NWORDS n"
  let ?t = "take ?nw r"
  note b = NWORDS_bounds [OF assms(1)]
  have m: "mask_top r ?nw n = mask_top ?t (length ?t) n @ drop ?nw r"
  proof -
    have "mask_top (t @ d) ?nw n = mask_top t (length t) n @ d" if "length t = ?nw" for t d
      using that b(1) by (simp add: mask_top_def list_update_append1 nth_append)
    from this [of ?t "drop ?nw r"] show ?thesis using assms(2) by simp
  qed
  have "store (mask_top r ?nw n) n = store (mask_top ?t (length ?t) n) n"
    using b(4) assms(2) unfolding m store_def by (simp add: length_concat_limbs mask_top_def)
  moreover have "take_bit n (wval ?t) = take_bit n (wval r)"
  proof -
    have "wval r = wval ?t + 2 ^ (64 * ?nw) * wval (drop ?nw r)" by (rule wval_split [OF assms(2)])
    moreover have "(2::int) ^ (64 * ?nw) = 2 ^ n * 2 ^ (64 * ?nw - n)" using b(2) by (simp flip: power_add)
    ultimately show ?thesis by (simp add: mult.assoc)
  qed
  moreover have l: "length ?t = ?nw" using assms(2) by simp
  then have "length (mask_top ?t (length ?t) n) = ?nw" "wval (mask_top ?t (length ?t) n) = take_bit n (wval ?t)"
    using wval_mask_top [OF assms(1) l] by (simp_all add: mask_top_def)
  moreover note store_ok [OF this(1) assms(1)]
  moreover have "take_bit (8 * APINT_NBYTES n) (take_bit n x) = take_bit n x" for x :: int
    using b(5) by (simp add: min_absorb2)
  ultimately show "length (store (mask_top r ?nw n) n) = APINT_NBYTES n"
    "bval (store (mask_top r ?nw n) n) = take_bit n (wval r)"
    by (simp_all only:)
qed

lemma mask_top_props:
  assumes "0 < n" "length r = APINT_NWORDS n"
  shows "wval (mask_top r (APINT_NWORDS n) n) = take_bit n (wval r)" "length (mask_top r (APINT_NWORDS n) n) = APINT_NWORDS n"
  using wval_mask_top [OF assms] assms(2) by (simp_all add: mask_top_def)

lemma load_holds:
  assumes "holds n p"
  obtains a where "load p n = Inr a" "length a = APINT_NWORDS n" "wval a = uval n p" "0 < n"
  using load_ok [of n p] assms by (auto simp: holds_def)

lemma encodes_store:
  assumes "0 < n" "APINT_NWORDS n \<le> length r" "take_bit n (wval r) = take_bit n x"
  shows "encodes n (store (mask_top r (APINT_NWORDS n) n) n) x"
  using store_masked [OF assms(1,2)] assms(3) by (simp add: encodes_def)

lemma take_bit_ival: "0 < n \<Longrightarrow> take_bit n (ival sgd n p) = uval n p"
  using abs_signed_value(4) [of n "uval n p"] by (simp add: ival_def sval_uval)

lemma take_bit_ival_diff: "0 < n \<Longrightarrow> take_bit n (ival sgd n p - ival sgd n p') = take_bit n (uval n p - uval n p')"
  by (metis take_bit_diff take_bit_ival)

lemma take_bit_ival_add: "0 < n \<Longrightarrow> take_bit n (ival sgd n p + ival sgd n p') = take_bit n (uval n p + uval n p')"
  by (metis take_bit_add take_bit_ival)

lemma take_bit_ival_mult: "0 < n \<Longrightarrow> take_bit n (ival sgd n p * ival sgd n p') = take_bit n (uval n p * uval n p')"
  by (metis take_bit_mult take_bit_ival)

lemma take_bit_wrap:
  fixes x :: int
  assumes "- (2 ^ n) \<le> x" "x < 2 * 2 ^ n"
  shows "take_bit n x = (if x < 0 then x + 2 ^ n else if x < 2 ^ n then x else x - 2 ^ n)"
proof -
  have "take_bit n (x + 2 ^ n) = take_bit n x" "take_bit n (x - 2 ^ n) = take_bit n x"
    using take_bit_add_exp [of n x 1] take_bit_diff_exp [of n x 1] by simp_all
  then show ?thesis using assms
    take_bit_int_eq_self [of "x + 2 ^ n" n] take_bit_int_eq_self [of x n] take_bit_int_eq_self [of "x - 2 ^ n" n] by auto
qed

lemma addsub_flag:
  fixes A B :: int and sub :: bool
  assumes n: "0 < n" and A: "0 \<le> A" "A < 2 ^ n" and B: "0 \<le> B" "B < 2 ^ n"
  defines "x \<equiv> (if sub then A - B else A + B)"
  defines "na \<equiv> bit A (n - 1)" and "nb \<equiv> bit B (n - 1) \<noteq> sub" and "nr \<equiv> bit (take_bit n x) (n - 1)"
  shows "(na = nb \<and> na \<noteq> nr) \<longleftrightarrow> \<not> fits True n
        (if sub then signed_take_bit (n - 1) A - signed_take_bit (n - 1) B else signed_take_bit (n - 1) A + signed_take_bit (n - 1) B)"
    and "(((na \<and> nb) \<or> ((na \<or> nb) \<and> \<not> nr)) \<noteq> sub) \<longleftrightarrow> \<not> fits False n x"
proof -
  define h :: int where "h = 2 ^ (n - 1)"
  have p: "(2::int) ^ n = 2 * h" using n by (cases n) (auto simp: h_def)
  have x: "- (2 ^ n) \<le> x" "x < 2 * 2 ^ n" using A B by (auto simp: x_def)
  let ?R = "take_bit n x"
  have R: "0 \<le> ?R" "?R < 2 ^ n" by simp_all
  note t = bit_top_iff [OF n, folded h_def]
  note sv = signed_value [OF n A] signed_value [OF n B]
  have ba: "bit A (n - 1) \<longleftrightarrow> h \<le> A" and bb: "bit B (n - 1) \<longleftrightarrow> h \<le> B" and br: "bit ?R (n - 1) \<longleftrightarrow> h \<le> ?R"
    using t [OF A] t [OF B] t [OF R] by auto
  have R: "?R = (if x < 0 then x + 2 * h else if x < 2 * h then x else x - 2 * h)"
    using take_bit_wrap [OF x] p by simp
  have neg: "na \<longleftrightarrow> h \<le> A" "nb \<longleftrightarrow> (h \<le> B) \<noteq> sub" "nr \<longleftrightarrow> h \<le> ?R"
    using ba bb br by (auto simp: na_def nb_def nr_def)
  have lim: "0 \<le> A" "A < 2 * h" "0 \<le> B" "B < 2 * h" "0 < h" using A B p by (auto simp: h_def)
  have sa: "signed_take_bit (n - 1) A = (if h \<le> A then A - 2 * h else A)"
    "signed_take_bit (n - 1) B = (if h \<le> B then B - 2 * h else B)"
    using sv ba bb p by auto
  show "(na = nb \<and> na \<noteq> nr) \<longleftrightarrow> \<not> fits True n
        (if sub then signed_take_bit (n - 1) A - signed_take_bit (n - 1) B else signed_take_bit (n - 1) A + signed_take_bit (n - 1) B)"
    unfolding neg sa fits_def h_def [symmetric] R unfolding x_def using lim
    by (cases sub; cases "h \<le> A"; cases "h \<le> B") auto
  show "(((na \<and> nb) \<or> ((na \<or> nb) \<and> \<not> nr)) \<noteq> sub) \<longleftrightarrow> \<not> fits False n x"
    unfolding neg fits_def p R unfolding x_def using lim
    by (cases sub; cases "h \<le> A"; cases "h \<le> B") auto
qed

text \<open>
  C1: for every width \<open>n\<close>, checked addition and subtraction store the sum or difference modulo
  \<open>2^n\<close>, and report overflow exactly when the true result is not representable, for signed
  and for unsigned operands.
\<close>

theorem APInt_addsub_correct:
  fixes is_sub is_signed :: bool
  assumes "holds n pa" "holds n pb"
  defines "x \<equiv> (if is_sub then ival is_signed n pa - ival is_signed n pb else ival is_signed n pa + ival is_signed n pb)"
  shows "\<exists>pr. APInt_addsub_ov n pa pb is_sub is_signed = Inr (pr, \<not> fits is_signed n x) \<and> encodes n pr x"
proof -
  obtain a where a: "load pa n = Inr a" "length a = APINT_NWORDS n" "wval a = uval n pa" "0 < n"
    using load_holds [OF assms(1)] .
  obtain b where b: "load pb n = Inr b" "length b = APINT_NWORDS n" "wval b = uval n pb"
    using load_holds [OF assms(2)] .
  let ?nw = "APINT_NWORDS n" and ?u = "if is_sub then uval n pa - uval n pb else uval n pa + uval n pb"
  let ?r = "mask_top (fst (addsub_words a b is_sub)) ?nw n"
  have s: "length (fst (addsub_words a b is_sub)) = ?nw" "take_bit n (wval (fst (addsub_words a b is_sub))) = take_bit n ?u"
    using addsub_words_eq [of a b is_sub] a b NWORDS_bounds(2) [OF a(4)] by (simp_all add: min_absorb1)
  have u: "take_bit n ?u = take_bit n x"
    using take_bit_ival_add [OF a(4), of is_signed pa pb] take_bit_ival_diff [OF a(4), of is_signed pa pb] by (simp add: x_def)
  have "encodes n (store ?r n) x" using encodes_store [OF a(4), of "fst (addsub_words a b is_sub)" x] s u by simp
  moreover have "is_negative a n \<longleftrightarrow> bit (uval n pa) (n - 1)" "is_negative b n \<longleftrightarrow> bit (uval n pb) (n - 1)"
    "is_negative ?r n \<longleftrightarrow> bit (take_bit n ?u) (n - 1)"
    using is_negative_iff [OF a(4)] a b s mask_top_props [OF a(4) s(1)] by simp_all
  moreover note addsub_flag [OF a(4) uval_bounds uval_bounds, of pa pb is_sub]
  ultimately show ?thesis using a(1,4) b(1)
    by (cases is_signed; cases is_sub) (auto simp: APInt_addsub_ov_def Let_def ival_def sval_uval x_def)
qed

definition sample_a :: "u8 list" where "sample_a = [0xFE, 0x0F]"
definition sample_b :: "u8 list" where "sample_b = [0x05, 0x00]"

text \<open>A sum that wraps at 12 bits.\<close>

theorem APInt_addsub_correct_witness:
  "\<exists>pr. APInt_addsub_ov 12 sample_a sample_b False False =
       Inr (pr, \<not> fits False 12 (ival False 12 sample_a + ival False 12 sample_b)) \<and>
     encodes 12 pr (ival False 12 sample_a + ival False 12 sample_b)"
  using APInt_addsub_correct [of 12 sample_a sample_b False False]
  by (simp add: holds_def APINT_NBYTES_def sample_a_def sample_b_def)

subsection \<open>Multiplication\<close>

lemma fits_iff_bits:
  assumes "0 < n"
  shows "fits sgd n P \<longleftrightarrow> (\<forall>k \<ge> n. bit P k = (sgd \<and> bit P (n - 1)))"
proof (cases sgd)
  case True
  have "fits sgd n P \<longleftrightarrow> signed_take_bit (n - 1) P = P" using True by (simp add: fits_def signed_take_bit_int_eq_self_iff)
  also have "\<dots> \<longleftrightarrow> (\<forall>k. bit P (min k (n - 1)) = bit P k)" by (simp add: bit_eq_iff bit_signed_take_bit_iff min.commute)
  also have "\<dots> \<longleftrightarrow> (\<forall>k \<ge> n. bit P k = bit P (n - 1))"
  proof
    assume a: "\<forall>k. bit P (min k (n - 1)) = bit P k"
    have "min k (n - 1) = n - 1" if "n \<le> k" for k using that by simp
    then show "\<forall>k \<ge> n. bit P k = bit P (n - 1)" using a by metis
  next
    assume "\<forall>k \<ge> n. bit P k = bit P (n - 1)"
    then have "bit P (min k (n - 1)) = bit P k" for k by (cases "n \<le> k") auto
    then show "\<forall>k. bit P (min k (n - 1)) = bit P k" by blast
  qed
  finally show ?thesis using True by simp
next
  case False
  have "fits sgd n P \<longleftrightarrow> take_bit n P = P" using False by (simp add: fits_def take_bit_int_eq_self_iff)
  also have "\<dots> \<longleftrightarrow> (\<forall>k \<ge> n. \<not> bit P k)"
  proof
    assume a: "take_bit n P = P"
    have "\<not> bit (take_bit n P) k" if "n \<le> k" for k using that by (simp add: bit_take_bit_iff)
    then show "\<forall>k \<ge> n. \<not> bit P k" unfolding a by blast
  next
    assume a: "\<forall>k \<ge> n. \<not> bit P k"
    have "bit (take_bit n P) k = bit P k" for k using a by (cases "n \<le> k") (auto simp: bit_take_bit_iff)
    then show "take_bit n P = P" by (rule bit_eqI)
  qed
  finally show ?thesis using False by simp
qed

lemma fits_ival: "0 < n \<Longrightarrow> fits sgd n (ival sgd n p)"
  by (cases sgd) (simp_all add: fits_iff_bits ival_def sval_def uval_def bit_signed_take_bit_iff bit_take_bit_iff)

lemma fits_mult:
  assumes "fits sgd n x" "fits sgd n y" "0 < n"
  shows "fits sgd (2 * n) (x * y)"
proof (cases sgd)
  case True
  then have "\<bar>x\<bar> \<le> 2 ^ (n - 1)" "\<bar>y\<bar> \<le> 2 ^ (n - 1)" using assms by (auto simp: fits_def)
  then have "\<bar>x\<bar> * \<bar>y\<bar> \<le> 2 ^ (n - 1) * 2 ^ (n - 1)" by (intro mult_mono) auto
  moreover have "(2::int) ^ (n - 1) * 2 ^ (n - 1) < 2 ^ (2 * n - 1)"
  proof -
    have "2 * n - 1 = Suc (n - 1 + (n - 1))" using assms(3) by simp
    then show ?thesis by (simp flip: power_add)
  qed
  ultimately have "\<bar>x * y\<bar> < 2 ^ (2 * n - 1)" by (simp add: abs_mult)
  then show ?thesis using True by (auto simp: fits_def)
next
  case False
  then have "x * y < 2 ^ n * 2 ^ n" "0 \<le> x * y" using assms by (auto simp: fits_def intro!: mult_strict_mono')
  then show ?thesis using False by (simp add: fits_def mult_2 power_add)
qed

lemma fits_mono:
  assumes "fits sgd n x" "0 < n" "n \<le> m"
  shows "fits sgd m x"
proof -
  have "(2::int) ^ (n - 1) \<le> 2 ^ (m - 1)" "(2::int) ^ n \<le> 2 ^ m" using assms(2,3) by simp_all
  then show ?thesis using assms(1) unfolding fits_def by (cases sgd) (simp_all del: power_increasing_iff)
qed

lemma mul_overflow_iff:
  assumes n: "0 < n" "n < N" and r: "wval r = take_bit N P" "N = 64 * length r" and nw: "APINT_NWORDS n \<le> length r"
    and P: "fits sgd N P"
  shows "check_overflow r n (if sgd \<and> is_negative r n then UINT64_MAX else 0) \<longleftrightarrow> \<not> fits sgd n P"
proof -
  let ?neg = "sgd \<and> bit P (n - 1)"
  have "is_negative r n \<longleftrightarrow> bit P (n - 1)" using is_negative_iff [OF n(1) nw] r(1) n(2) by (auto simp: bit_take_bit_iff)
  then have "check_overflow r n (if sgd \<and> is_negative r n then UINT64_MAX else 0) \<longleftrightarrow> (\<exists>k. n \<le> k \<and> k < N \<and> bit P k \<noteq> ?neg)"
    using check_overflow_iff [OF n(1) nw, of _ ?neg] r by (auto simp: bit_take_bit_iff)
  also have "\<dots> \<longleftrightarrow> (\<exists>k \<ge> n. bit P k \<noteq> ?neg)"
  proof
    assume "\<exists>k \<ge> n. bit P k \<noteq> ?neg"
    then obtain k where k: "n \<le> k" "bit P k \<noteq> ?neg" by blast
    show "\<exists>k. n \<le> k \<and> k < N \<and> bit P k \<noteq> ?neg"
    proof (cases "k < N")
      case False
      have "bit P k = (sgd \<and> bit P (N - 1))" using P fits_iff_bits [of N sgd P] n False by simp
      then have "sgd" "bit P (N - 1) \<noteq> ?neg" using k(2) by auto
      then show ?thesis using n by (intro exI [of _ "N - 1"]) auto
    qed (use k in blast)
  qed auto
  finally show ?thesis using fits_iff_bits [OF n(1), of sgd P] by auto
qed

text \<open>
  C2: checked multiplication, signed or unsigned, stores the product modulo \<open>2^n\<close> and reports
  overflow exactly when the true product is not representable; the unchecked \<open>APInt_mul\<close>
  stores the same bytes.
\<close>

theorem APInt_mul_correct:
  assumes "holds n pa" "holds n pb"
  shows "\<exists>pr. APInt_mul_ov n pa pb is_signed =
        Inr (pr, \<not> fits is_signed n (ival is_signed n pa * ival is_signed n pb)) \<and>
      APInt_mul n pa pb = Inr pr \<and> encodes n pr (ival is_signed n pa * ival is_signed n pb)"
proof -
  obtain a where a: "load pa n = Inr a" "length a = APINT_NWORDS n" "wval a = uval n pa" "0 < n"
    using load_holds [OF assms(1)] .
  obtain b where b: "load pb n = Inr b" "length b = APINT_NWORDS n" "wval b = uval n pb"
    using load_holds [OF assms(2)] .
  let ?nw = "APINT_NWORDS n" and ?P = "ival is_signed n pa * ival is_signed n pb"
  note nb = NWORDS_bounds [OF a(4)]
  define N where "N = 64 * (2 * ?nw)"
  let ?a = "extend a n (2 * ?nw) is_signed" and ?b = "extend b n (2 * ?nw) is_signed"
  have ea: "length ?a = 2 * ?nw" "wval ?a = take_bit N (ival is_signed n pa)"
    using wval_extend [OF a(4), of a "2 * ?nw" is_signed] a by (simp_all add: N_def ival_def sval_uval)
  have eb: "length ?b = 2 * ?nw" "wval ?b = take_bit N (ival is_signed n pb)"
    using wval_extend [OF a(4), of b "2 * ?nw" is_signed] a(4) b by (simp_all add: N_def ival_def sval_uval)
  let ?r = "mul_words mac_limb ?a ?b (2 * ?nw)"
  have r: "length ?r = 2 * ?nw" "wval ?r = take_bit N ?P"
    using mac128.mul_words_eq [OF ea(1) eb(1)] unfolding ea(2) eb(2) by (simp_all add: take_bit_mult N_def)
  have N: "n < N" "2 * n \<le> N" using nb(2) a(4) by (auto simp: N_def)
  have "fits is_signed N ?P"
    by (rule fits_mono [OF fits_mult [OF fits_ival [OF a(4)] fits_ival [OF a(4)] a(4)]]) (use N a(4) in simp_all)
  then have ov: "check_overflow ?r n (if is_signed \<and> is_negative ?r n then UINT64_MAX else 0) \<longleftrightarrow> \<not> fits is_signed n ?P"
    by (intro mul_overflow_iff [OF a(4) N(1) r(2)]) (simp_all add: r(1) N_def)
  have enc: "encodes n (store (mask_top ?r ?nw n) n) ?P"
    using encodes_store [OF a(4), of ?r ?P] r N(1) by (simp add: min_absorb1)
  let ?s = "mul_words mac_limb a b ?nw"
  have s: "length ?s = ?nw" "wval ?s = take_bit (64 * ?nw) (uval n pa * uval n pb)"
    using mac128.mul_words_eq [OF a(2) b(2)] a(3) b(3) by simp_all
  have enc': "encodes n (store (mask_top ?s ?nw n) n) ?P"
    using encodes_store [OF a(4), of ?s ?P] s nb(2) take_bit_ival_mult [OF a(4), of is_signed pa pb] by (simp add: min_absorb1)
  have eq: "store (mask_top ?s ?nw n) n = store (mask_top ?r ?nw n) n"
    by (rule bval_inj) (use enc enc' in \<open>simp_all add: encodes_def\<close>)
  show ?thesis using a(1) b(1) enc ov eq by (simp add: APInt_mul_ov_def APInt_mul_def Let_def)
qed

theorem APInt_mul_correct_witness:
  "\<exists>pr. APInt_mul_ov 12 sample_a sample_b True =
        Inr (pr, \<not> fits True 12 (ival True 12 sample_a * ival True 12 sample_b)) \<and>
      APInt_mul 12 sample_a sample_b = Inr pr \<and> encodes 12 pr (ival True 12 sample_a * ival True 12 sample_b)"
  using APInt_mul_correct [of 12 sample_a sample_b True]
  by (simp add: holds_def APINT_NBYTES_def sample_a_def sample_b_def)

text \<open>
  C9: the portable multiply-accumulate step, built from 32-bit products with explicit carries,
  computes the same limb and carry as the one that uses a 128-bit product.
\<close>

theorem mac_limb_portable_equiv: "mac_limb_portable rword carry a b = mac_limb rword carry a b"
  unfolding mac128.mac_unique mac_portable.mac_unique ..

subsection \<open>Division\<close>

text \<open>Truncated division and its remainder, as C and Julia's \<open>div\<close> and \<open>rem\<close> have them.\<close>

definition tdiv :: "bool \<Rightarrow> int \<Rightarrow> int \<Rightarrow> int" where
  "tdiv sgd x y = (if sgd then x sdiv y else x div y)"

definition trem :: "bool \<Rightarrow> int \<Rightarrow> int \<Rightarrow> int" where
  "trem sgd x y = (if sgd then x smod y else x mod y)"

lemma divrem_limbs:
  assumes n: "0 < n" and l: "length a = APINT_NWORDS n" "length b = APINT_NWORDS n"
    and v: "wval a = uval n pa" "wval b = uval n pb" and z: "uval n pb \<noteq> 0"
  shows "\<exists>q r. (if sgd then sdivrem a b n (APINT_NWORDS n) else udivrem a b n (APINT_NWORDS n)) = (q, r) \<and>
     length q = APINT_NWORDS n \<and> length r = APINT_NWORDS n \<and>
     take_bit n (wval q) = take_bit n (tdiv sgd (ival sgd n pa) (ival sgd n pb)) \<and>
     take_bit n (wval r) = take_bit n (trem sgd (ival sgd n pa) (ival sgd n pb))"
proof (cases sgd)
  case True
  then show ?thesis using sdivrem_eq [OF n l] v z n by (auto simp: tdiv_def trem_def ival_def sval_uval)
next
  case False
  have "0 < uval n pb" using z uval_bounds(1) [of n pb] by linarith
  then show ?thesis using False udivrem_eq [OF l NWORDS_bounds(1) [OF n] _ NWORDS_bounds(2) [OF n]] v
    by (auto simp: tdiv_def trem_def ival_def)
qed

lemma div_overflow_iff:
  assumes n: "0 < n" and l: "length a = APINT_NWORDS n" "length b = APINT_NWORDS n"
    and v: "wval a = uval n pa" "wval b = uval n pb"
  shows "is_min_int a n \<and> is_neg_one b n (APINT_NWORDS n) \<longleftrightarrow> sval n pa = - (2 ^ (n - 1)) \<and> sval n pb = - 1"
proof -
  have p: "(2::int) ^ n = 2 * 2 ^ (n - 1)" using n by (cases n) auto
  have s: "sval n x = uval n x - 2 ^ n * of_bool (2 ^ (n - 1) \<le> uval n x)" for x
    using signed_value [OF n uval_bounds, of x] bit_top_iff [OF n uval_bounds, of x] by (simp add: sval_uval [OF n])
  have "is_min_int a n \<longleftrightarrow> sval n pa = - (2 ^ (n - 1))"
  proof -
    define h :: int where "h = 2 ^ (n - 1)"
    have "U = h \<longleftrightarrow> U - 2 * h * of_bool (h \<le> U) = - h" if "0 < h" "0 \<le> U" for U using that by (auto simp: of_bool_def)
    from this [of "uval n pa"] show ?thesis
      using is_min_int_iff [OF l(1) n] v(1) s [of pa] p uval_bounds [of n pa] by (simp add: h_def)
  qed
  moreover have "is_neg_one b n (APINT_NWORDS n) \<longleftrightarrow> sval n pb = - 1"
  proof -
    define h :: int where "h = 2 ^ (n - 1)"
    have "U = 2 * h - 1 \<longleftrightarrow> U - 2 * h * of_bool (h \<le> U) = - 1" if "0 < h" "0 \<le> U" for U using that by (auto simp: of_bool_def)
    from this [of "uval n pb"] show ?thesis
      using is_neg_one_iff [OF l(2) n] v(2) s [of pb] p uval_bounds [of n pb] by (simp add: h_def mask_eq_exp_minus_1)
  qed
  ultimately show ?thesis by simp
qed

text \<open>
  C3: signed and unsigned division return, on every width, the truncated quotient and the
  remainder modulo \<open>2^n\<close>.  A zero divisor is flagged and writes nothing; the only other flagged
  case is a requested quotient of the smallest signed number by \<open>-1\<close>.
\<close>

theorem APInt_divrem_correct:
  assumes "holds n pa" "holds n pb"
  shows "(uval n pb = 0 \<longrightarrow> APInt_divrem n pa pb pq pr sgd = Inr (None, None, True)) \<and>
    (uval n pb \<noteq> 0 \<longrightarrow> (\<exists>q r. APInt_divrem n pa pb pq pr sgd =
        Inr (if pq then Some q else None, if pr then Some r else None,
             sgd \<and> pq \<and> sval n pa = - (2 ^ (n - 1)) \<and> sval n pb = - 1) \<and>
      encodes n q (tdiv sgd (ival sgd n pa) (ival sgd n pb)) \<and>
      encodes n r (trem sgd (ival sgd n pa) (ival sgd n pb))))"
proof -
  obtain a where a: "load pa n = Inr a" "length a = APINT_NWORDS n" "wval a = uval n pa" "0 < n"
    using load_holds [OF assms(1)] .
  obtain b where b: "load pb n = Inr b" "length b = APINT_NWORDS n" "wval b = uval n pb"
    using load_holds [OF assms(2)] .
  show ?thesis
  proof (cases "uval n pb = 0")
    case True
    then have "is_zero b" using b(3) is_zero_iff by simp
    then show ?thesis using a(1) b(1) True by (simp add: APInt_divrem_def Let_def)
  next
    case False
    then have z: "\<not> is_zero b" using b(3) is_zero_iff by simp
    obtain q r where qr: "(if sgd then sdivrem a b n (APINT_NWORDS n) else udivrem a b n (APINT_NWORDS n)) = (q, r)"
        "length q = APINT_NWORDS n" "length r = APINT_NWORDS n"
        "take_bit n (wval q) = take_bit n (tdiv sgd (ival sgd n pa) (ival sgd n pb))"
        "take_bit n (wval r) = take_bit n (trem sgd (ival sgd n pa) (ival sgd n pb))"
      using divrem_limbs [OF a(4,2) b(2) a(3) b(3) False, of sgd] by blast
    have "encodes n (store (mask_top q (APINT_NWORDS n) n) n) (tdiv sgd (ival sgd n pa) (ival sgd n pb))"
      "encodes n (store (mask_top r (APINT_NWORDS n) n) n) (trem sgd (ival sgd n pa) (ival sgd n pb))"
      using encodes_store [OF a(4)] qr by simp_all
    moreover have "APInt_divrem n pa pb pq pr sgd =
        Inr (if pq then Some (store (mask_top q (APINT_NWORDS n) n) n) else None,
             if pr then Some (store (mask_top r (APINT_NWORDS n) n) n) else None,
             sgd \<and> pq \<and> sval n pa = - (2 ^ (n - 1)) \<and> sval n pb = - 1)"
      using a(1) b(1) z qr(1) div_overflow_iff [OF a(4,2) b(2) a(3) b(3)] by (auto simp: APInt_divrem_def Let_def)
    ultimately show ?thesis using False by auto
  qed
qed

theorem APInt_divrem_correct_witness:
  "\<exists>q r. APInt_divrem 12 sample_a sample_b True True True = Inr (Some q, Some r, False) \<and>
      encodes 12 q (tdiv True (ival True 12 sample_a) (ival True 12 sample_b)) \<and>
      encodes 12 r (trem True (ival True 12 sample_a) (ival True 12 sample_b))"
proof -
  have "uval 12 sample_b = 5" "sval 12 sample_b = 5"
    by (simp_all add: uval_def sval_def sample_b_def signed_take_bit_int_eq_self)
  then show ?thesis using APInt_divrem_correct [of 12 sample_a sample_b True True True]
    by (simp add: holds_def APINT_NBYTES_def sample_a_def sample_b_def)
qed

subsection \<open>Comparison\<close>

text \<open>
  C10: the six comparisons decide the order of the operands as unsigned or as two's complement
  integers, on every width.
\<close>

theorem APInt_comparisons_correct:
  assumes "holds n pa" "holds n pb"
  shows "APInt_eq n pa pb = Inr (uval n pa = uval n pb) \<and> APInt_ne n pa pb = Inr (uval n pa \<noteq> uval n pb) \<and>
    APInt_ult n pa pb = Inr (uval n pa < uval n pb) \<and> APInt_ule n pa pb = Inr (uval n pa \<le> uval n pb) \<and>
    APInt_slt n pa pb = Inr (sval n pa < sval n pb) \<and> APInt_sle n pa pb = Inr (sval n pa \<le> sval n pb)"
proof -
  obtain a where a: "load pa n = Inr a" "length a = APINT_NWORDS n" "wval a = uval n pa" "0 < n"
    using load_holds [OF assms(1)] .
  obtain b where b: "load pb n = Inr b" "length b = APINT_NWORDS n" "wval b = uval n pb"
    using load_holds [OF assms(2)] .
  have c: "compare_words a b (APINT_NWORDS n) = sgn (uval n pa - uval n pb)"
    using compare_words_eq [of "APINT_NWORDS n" a b] a b by simp
  have neg: "is_negative a n \<longleftrightarrow> sval n pa < 0" "is_negative b n \<longleftrightarrow> sval n pb < 0"
    using is_negative_iff [OF a(4)] a b abs_signed_value(1) [OF a(4) uval_bounds] by (simp_all add: sval_uval)
  have sv: "sval n x = uval n x - 2 ^ n * of_bool (sval n x < 0)" for x
    using signed_value [OF a(4) uval_bounds, of x] abs_signed_value(1) [OF a(4) uval_bounds, of x] by (simp add: sval_uval [OF a(4)])
  have u: "APInt_cmp n pa pb False = Inr (sgn (uval n pa - uval n pb))"
    using a(1) b(1) c by (simp add: APInt_cmp_def Let_def)
  have "APInt_cmp n pa pb True = Inr (sgn (sval n pa - sval n pb))"
  proof (cases "(sval n pa < 0) = (sval n pb < 0)")
    case True
    then have "sval n pa - sval n pb = uval n pa - uval n pb" using sv [of pa] sv [of pb] by simp
    then show ?thesis using True a(1) b(1) c neg by (simp add: APInt_cmp_def Let_def)
  next
    case False
    then have "APInt_cmp n pa pb True = Inr (if sval n pa < 0 then - 1 else 1)"
      using a(1) b(1) neg by (simp add: APInt_cmp_def Let_def)
    then show ?thesis using False by (auto simp: sgn_if)
  qed
  then show ?thesis using u
    by (auto simp: APInt_eq_def APInt_ne_def APInt_ult_def APInt_ule_def APInt_slt_def APInt_sle_def sgn_if)
qed

theorem APInt_comparisons_correct_witness:
  "APInt_eq 12 sample_a sample_b = Inr (uval 12 sample_a = uval 12 sample_b) \<and>
    APInt_ne 12 sample_a sample_b = Inr (uval 12 sample_a \<noteq> uval 12 sample_b) \<and>
    APInt_ult 12 sample_a sample_b = Inr (uval 12 sample_a < uval 12 sample_b) \<and>
    APInt_ule 12 sample_a sample_b = Inr (uval 12 sample_a \<le> uval 12 sample_b) \<and>
    APInt_slt 12 sample_a sample_b = Inr (sval 12 sample_a < sval 12 sample_b) \<and>
    APInt_sle 12 sample_a sample_b = Inr (sval 12 sample_a \<le> sval 12 sample_b)"
  using APInt_comparisons_correct [of 12 sample_a sample_b]
  by (simp add: holds_def APINT_NBYTES_def sample_a_def sample_b_def)

subsection \<open>Bitwise operations and shifts\<close>

lemma bit_limbwise:
  assumes "length a = length b" "\<And>x y t. t < 64 \<Longrightarrow> bit (f x y) t = g (bit x t) (bit y t)" "\<not> g False False"
  shows "bit (wval (limbwise f a b)) k = g (bit (wval a) k) (bit (wval b) k)"
proof -
  obtain i t where k: "k = 64 * i + t" "t < 64" by (rule limb_index)
  show ?thesis using assms k unfolding k(1) bit_wval_limb [OF k(2)] limbwise_def by (cases "i < length a") auto
qed

lemma encodes_store_limbs:
  assumes "0 < n" "length r = APINT_NWORDS n" "wval r = take_bit n x"
  shows "encodes n (store r n) x"
  using store_ok [OF assms(2,1)] assms(3) NWORDS_bounds(5) [OF assms(1)] by (simp add: encodes_def min_absorb2)

lemma length_limbwise [simp]: "length (limbwise f a b) = min (length a) (length b)"
  by (simp add: limbwise_def)

text \<open>
  The bitwise operations compute the conjunction, disjunction, exclusive or and complement
  of their \<open>n\<close>-bit operands.
\<close>

theorem APInt_bitwise_correct:
  assumes "holds n pa" "holds n pb"
  shows "\<exists>c d x m. APInt_and n pa pb = Inr c \<and> encodes n c (uval n pa AND uval n pb) \<and>
    APInt_or n pa pb = Inr d \<and> encodes n d (uval n pa OR uval n pb) \<and>
    APInt_xor n pa pb = Inr x \<and> encodes n x (uval n pa XOR uval n pb) \<and>
    APInt_not n pa = Inr m \<and> encodes n m (NOT (uval n pa))"
proof -
  obtain a where a: "load pa n = Inr a" "length a = APINT_NWORDS n" "wval a = uval n pa" "0 < n"
    using load_holds [OF assms(1)] .
  obtain b where b: "load pb n = Inr b" "length b = APINT_NWORDS n" "wval b = uval n pb"
    using load_holds [OF assms(2)] .
  have lw: "wval (limbwise f a b) = take_bit n (h (uval n pa) (uval n pb))"
    if "\<And>x y t. t < 64 \<Longrightarrow> bit (f x y) t = g (bit x t) (bit y t)" "\<not> g False False"
      "\<And>x y k. bit (h x y) k = g (bit x k) (bit y k)" for f g h
  proof (rule bit_eqI)
    fix k
    show "bit (wval (limbwise f a b)) k \<longleftrightarrow> bit (take_bit n (h (uval n pa) (uval n pb))) k"
      using bit_limbwise [of a b f g k] that a b by (cases "k < n") (auto simp: bit_take_bit_iff uval_def)
  qed
  note w = lw [of "(AND)" "(\<and>)" "(AND)"] lw [of "(OR)" "(\<or>)" "(OR)"] lw [of "(XOR)" "(\<noteq>)" "(XOR)"]
  have e: "encodes n (store (limbwise (AND) a b) n) (uval n pa AND uval n pb)"
    "encodes n (store (limbwise (OR) a b) n) (uval n pa OR uval n pb)"
    "encodes n (store (limbwise (XOR) a b) n) (uval n pa XOR uval n pb)"
    by (rule encodes_store_limbs [OF a(4)]; use a(2) b(2) w in \<open>simp add: bit_and_iff bit_or_iff bit_xor_iff\<close>)+
  have "take_bit n (wval (map NOT a)) = take_bit n (NOT (uval n pa))"
  proof (rule bit_eqI)
    fix k :: nat
    obtain i t where k: "k = 64 * i + t" "t < 64" by (rule limb_index)
    have "i < length a" if "k < n" using that NWORDS_bounds(2) [OF a(4)] a(2) k by linarith
    then show "bit (take_bit n (wval (map NOT a))) k \<longleftrightarrow> bit (take_bit n (NOT (uval n pa))) k"
      using k bit_wval_limb [OF k(2), of a i] bit_wval_limb [OF k(2), of "map NOT a" i] a(3)
      by (cases "k < n") (simp_all add: bit_take_bit_iff bit_not_iff)
  qed
  then have "encodes n (store (mask_top (map NOT a) (APINT_NWORDS n) n) n) (NOT (uval n pa))"
    using encodes_store [OF a(4), of "map NOT a"] a(2) by simp
  then show ?thesis using a(1) b(1) e
    by (simp add: APInt_and_def APInt_or_def APInt_xor_def APInt_not_def)
qed

theorem APInt_bitwise_correct_witness:
  "\<exists>c d x m. APInt_and 12 sample_a sample_b = Inr c \<and> encodes 12 c (uval 12 sample_a AND uval 12 sample_b) \<and>
    APInt_or 12 sample_a sample_b = Inr d \<and> encodes 12 d (uval 12 sample_a OR uval 12 sample_b) \<and>
    APInt_xor 12 sample_a sample_b = Inr x \<and> encodes 12 x (uval 12 sample_a XOR uval 12 sample_b) \<and>
    APInt_not 12 sample_a = Inr m \<and> encodes 12 m (NOT (uval 12 sample_a))"
  by (rule APInt_bitwise_correct) (simp_all add: holds_def APINT_NBYTES_def sample_a_def sample_b_def)

lemma take_bit_push_min:
  "take_bit n (push_bit (min n s) x) = take_bit n (push_bit s (x :: int))"
  by (cases "s \<le> n") (simp_all add: take_bit_push_bit)

lemma take_bit_drop_min:
  fixes x :: int
  assumes "\<And>k. n \<le> k \<Longrightarrow> bit x k = f"
  shows "take_bit n (drop_bit (min n s) x) = take_bit n (drop_bit s x)"
proof (rule bit_eqI)
  fix k
  show "bit (take_bit n (drop_bit (min n s) x)) k \<longleftrightarrow> bit (take_bit n (drop_bit s x)) k"
    using assms by (cases "s \<le> n") (auto simp: bit_take_bit_iff bit_drop_bit_eq)
qed

lemma bit_ival_above: "0 < n \<Longrightarrow> n \<le> k \<Longrightarrow> bit (ival sgd n p) k = (sgd \<and> bit (bval p) (n - 1))"
  by (cases sgd) (simp_all add: ival_def sval_def uval_def bit_signed_take_bit_iff bit_take_bit_iff min_absorb2)

lemma shr_limbs:
  fixes sgd :: bool
  assumes n: "0 < n" and l: "length a = APINT_NWORDS n" and v: "wval a = uval n p"
  defines "neg \<equiv> sgd \<and> is_negative a n"
  defines "a' \<equiv> (if neg then extend a n (APINT_NWORDS n) sgd else a)"
  shows "wval (shr_n a' s (APINT_NWORDS n) (if neg then UINT64_MAX else 0)) =
    take_bit (64 * APINT_NWORDS n) (drop_bit s (ival sgd n p))"
proof -
  let ?N = "64 * APINT_NWORDS n"
  have ng: "neg \<longleftrightarrow> sgd \<and> bit (uval n p) (n - 1)" using is_negative_iff [OF n] l v by (simp add: neg_def)
  have l': "length a' = APINT_NWORDS n" using wval_extend(1) [OF n l] l v by (simp add: a'_def)
  have "(if neg then wval a' OR NOT (mask ?N) else wval a') = ival sgd n p"
  proof (cases neg)
    case True
    then have w: "wval a' = take_bit ?N (ival sgd n p)"
      using wval_extend(2) [OF n l, of "APINT_NWORDS n" sgd] l v ng n by (simp add: a'_def ival_def sval_uval)
    have "wval a' OR NOT (mask ?N) = ival sgd n p"
    proof (rule bit_eqI)
      fix k
      have "bit (ival sgd n p) k" if "?N \<le> k"
        using bit_ival_above [OF n, of k sgd p] that True ng n NWORDS_bounds(2) [OF n] by (simp add: uval_def bit_take_bit_iff)
      then show "bit (wval a' OR NOT (mask ?N)) k \<longleftrightarrow> bit (ival sgd n p) k"
        by (auto simp: w bit_or_iff bit_not_iff bit_mask_iff bit_take_bit_iff)
    qed
    then show ?thesis using True by simp
  next
    case False
    then have "ival sgd n p = uval n p"
      using ng signed_value [OF n uval_bounds, of p] by (auto simp: ival_def sval_uval [OF n])
    then show ?thesis using False v by (simp add: a'_def)
  qed
  then show ?thesis using wval_shr_n [OF l' refl, of s neg] by simp
qed

text \<open>
  C11: the shifts multiply by a power of two modulo \<open>2^n\<close>, and divide the unsigned or the signed
  operand by one, rounding down.  A shift count of the width or more gives zero (the sign fill,
  for the arithmetic shift), however large the count is.
\<close>

theorem APInt_shifts_correct:
  assumes "holds n pa" "holds n pb" "n < 2 ^ 32"
  shows "\<exists>l r. APInt_shl n pa pb = Inr l \<and> encodes n l (push_bit (nat (uval n pb)) (uval n pa)) \<and>
    APInt_shr n pa pb is_signed = Inr r \<and> encodes n r (drop_bit (nat (uval n pb)) (ival is_signed n pa))"
proof -
  obtain a where a: "load pa n = Inr a" "length a = APINT_NWORDS n" "wval a = uval n pa" "0 < n"
    using load_holds [OF assms(1)] .
  obtain b where b: "load pb n = Inr b" "length b = APINT_NWORDS n" "wval b = uval n pb"
    using load_holds [OF assms(2)] .
  let ?nw = "APINT_NWORDS n" and ?S = "nat (uval n pb)"
  note nb = NWORDS_bounds [OF a(4)]
  have "b \<noteq> []" using b(2) nb(1) by auto
  moreover have "n < 2 ^ 64" using assms(3) by simp
  ultimately have sh: "extract_shift b n = min n ?S" using extract_shift_eq [of b n] b(3) by (simp add: min_def le_nat_iff)
  let ?l = "shl_n a (min n ?S) ?nw"
  have "take_bit n (wval ?l) = take_bit n (push_bit ?S (uval n pa))"
    using wval_shl_n [OF a(2), of "min n ?S"] a(3) nb(2) take_bit_push_min [of n ?S "uval n pa"] by (simp add: min_absorb1)
  then have l: "encodes n (store (mask_top ?l ?nw n) n) (push_bit ?S (uval n pa))"
    using encodes_store [OF a(4), of ?l] by simp
  let ?neg = "is_signed \<and> is_negative a n"
  let ?r = "shr_n (if ?neg then extend a n ?nw is_signed else a) (min n ?S) ?nw (if ?neg then UINT64_MAX else 0)"
  have "take_bit n (wval ?r) = take_bit n (drop_bit ?S (ival is_signed n pa))"
    using shr_limbs [OF a(4,2,3), of is_signed "min n ?S"] nb(2) take_bit_drop_min [where s = ?S, OF bit_ival_above [OF a(4), of _ is_signed pa]]
    by (simp add: min_absorb1)
  then have "encodes n (store (mask_top ?r ?nw n) n) (drop_bit ?S (ival is_signed n pa))"
    using encodes_store [OF a(4), of ?r] by simp
  then show ?thesis using l a(1) b(1) sh by (simp add: APInt_shl_def APInt_shr_def Let_def)
qed

theorem APInt_shifts_correct_witness:
  "\<exists>l r. APInt_shl 12 sample_a sample_b = Inr l \<and> encodes 12 l (push_bit (nat (uval 12 sample_b)) (uval 12 sample_a)) \<and>
    APInt_shr 12 sample_a sample_b True = Inr r \<and> encodes 12 r (drop_bit (nat (uval 12 sample_b)) (ival True 12 sample_a))"
  by (rule APInt_shifts_correct) (simp_all add: holds_def APINT_NBYTES_def sample_a_def sample_b_def)

subsection \<open>Bit counts and byte swap\<close>

text \<open>
  The population count is the number of set bits below the width, and the leading and
  trailing counts are the lengths of the maximal runs of zeros or ones at either end, with the
  whole width when every bit agrees.
\<close>

theorem APInt_counts_correct:
  assumes "holds n pa"
  shows "APInt_popcount n pa = Inr (card {i. i < n \<and> bit (uval n pa) i}) \<and>
    APInt_countr n pa ones = Inr (length (takeWhile (\<lambda>i. bit (uval n pa) i = ones) [0 ..< n])) \<and>
    APInt_countl n pa ones = Inr (length (takeWhile (\<lambda>i. bit (uval n pa) i = ones) (rev [0 ..< n])))"
proof -
  obtain a where a: "load pa n = Inr a" "length a = APINT_NWORDS n" "wval a = uval n pa" "0 < n"
    using load_holds [OF assms(1)] .
  have "wval a < 2 ^ n" using a(3) by simp
  then show ?thesis using popcount_eq [OF a(2,4)] countr_eq [OF a(2,4)] countl_eq [OF a(2,4)] a(1,3)
    by (simp add: APInt_popcount_def APInt_countr_def APInt_countl_def)
qed

theorem APInt_counts_correct_witness:
  "APInt_popcount 12 sample_a = Inr (card {i. i < 12 \<and> bit (uval 12 sample_a) i}) \<and>
    APInt_countr 12 sample_a False = Inr (length (takeWhile (\<lambda>i. bit (uval 12 sample_a) i = False) [0 ..< 12])) \<and>
    APInt_countl 12 sample_a False = Inr (length (takeWhile (\<lambda>i. bit (uval 12 sample_a) i = False) (rev [0 ..< 12])))"
  by (rule APInt_counts_correct) (simp_all add: holds_def APINT_NBYTES_def sample_a_def)

lemma bswap_loop_nth:
  "k \<le> nb \<Longrightarrow> nb \<le> length dst \<Longrightarrow> length (bswap_loop src nb k dst) = length dst \<and>
   (\<forall>j < length dst. bswap_loop src nb k dst ! j = (if j < k then src ! (nb - 1 - j) else dst ! j))"
proof (induction k arbitrary: dst)
  case (Suc k)
  have k: "nb - 1 - (nb - Suc k) = k" "nb - 1 - k = nb - Suc k" using Suc.prems by simp_all
  let ?d = "dst[k := src ! (nb - 1 - k)]"
  have "bswap_loop src nb (Suc k) dst = bswap_loop src nb k ?d"
    unfolding bswap_loop.simps Let_def k by (rule refl)
  moreover have "bswap_loop src nb k ?d ! j = (if j < Suc k then src ! (nb - 1 - j) else dst ! j)" if "j < length dst" for j
    using Suc.IH [of ?d] Suc.prems that by (cases "j = k") simp_all
  ultimately show ?case using Suc.IH [of ?d] Suc.prems by simp
qed simp

text \<open>
  Byte swapping writes the operand's bytes in reverse order, so swapping twice is the
  identity; the word-sized scratch buffer it goes through never shows.
\<close>

theorem APInt_bswap_correct:
  assumes "holds n pa"
  shows "\<exists>pr. APInt_bswap n pa = Inr pr \<and> pr = rev (take (APINT_NBYTES n) pa) \<and>
    APInt_bswap n pr = Inr (take (APINT_NBYTES n) pa)"
proof -
  have n: "0 < n" "APINT_NBYTES n \<le> length pa" using assms by (auto simp: holds_def)
  let ?nb = "APINT_NBYTES n"
  have sw: "APInt_bswap n p = Inr (rev (take ?nb p))" if "?nb \<le> length p" for p
  proof -
    let ?d = "replicate (8 * APINT_NWORDS n) (0 :: u8)"
    have nb: "?nb \<le> length ?d" using NWORDS_bounds(4) [OF n(1)] by simp
    then have "take ?nb (bswap_loop p ?nb ?nb ?d) = rev (take ?nb p)"
      using bswap_loop_nth [of ?nb ?nb ?d p] that
      by (intro nth_equalityI) (auto simp: rev_nth)
    then show ?thesis using that by (simp add: APInt_bswap_def Let_def)
  qed
  show ?thesis using sw [OF n(2)] sw [of "rev (take ?nb pa)"] n(2) by simp
qed

theorem APInt_bswap_correct_witness:
  "\<exists>pr. APInt_bswap 16 sample_a = Inr pr \<and> pr = rev (take (APINT_NBYTES 16) sample_a) \<and>
    APInt_bswap 16 pr = Inr (take (APINT_NBYTES 16) sample_a)"
  by (rule APInt_bswap_correct) (simp_all add: holds_def APINT_NBYTES_def sample_a_def)

subsection \<open>Extension, truncation, sign\<close>

lemma byte_index: obtains i t where "m = 8 * i + t" "t < (8::nat)"
  using that [of "m div 8" "m mod 8"] by simp

lemma bit_bval_byte: "t < 8 \<Longrightarrow> bit (bval bs) (8 * i + t) \<longleftrightarrow> i < length bs \<and> bit (bs ! i) t"
  by (simp add: bit_bval)

text \<open>The sign bit of the buffer and the mask of its last byte.\<close>

lemma last_byte:
  assumes n: "0 < n"
  defines "nb \<equiv> APINT_NBYTES n"
  shows "8 * (nb - 1) + (n - 1) mod 8 = n - 1" "n mod 8 = 0 \<Longrightarrow> 8 * nb = n" "n mod 8 \<noteq> 0 \<Longrightarrow> 8 * (nb - 1) + n mod 8 = n"
proof -
  obtain i t where k: "n = 8 * i + t" "t < 8" by (rule byte_index)
  have nb: "nb = (if t = 0 then i else Suc i)" using k unfolding nb_def APINT_NBYTES_def by (cases "t = 0") auto
  have m: "n mod 8 = t" using k by simp
  show "n mod 8 = 0 \<Longrightarrow> 8 * nb = n" "n mod 8 \<noteq> 0 \<Longrightarrow> 8 * (nb - 1) + n mod 8 = n" using nb m k(1) by simp_all
  show "8 * (nb - 1) + (n - 1) mod 8 = n - 1"
  proof (cases t)
    case 0
    then obtain j where j: "i = Suc j" using n k by (cases i) auto
    then have "n - 1 = 8 * j + 7" using k 0 by simp
    then show ?thesis using nb 0 j by simp
  next
    case (Suc u)
    then have "n - 1 = 8 * i + u" using k by simp
    then show ?thesis using nb Suc k(2) by simp
  qed
qed

lemma bit_0xFF: "bit (0xFF :: u8) j \<longleftrightarrow> j < 8"
proof -
  have "(0xFF :: u8) = mask 8" by (simp add: mask_eq_exp_minus_1)
  then show ?thesis by (simp only: bit_mask_iff possible_bit_word) simp
qed

lemma bit_patched:
  assumes n: "0 < n" and nb: "APINT_NBYTES n \<le> length pa" "APINT_NBYTES n \<le> osz"
    and low: "take (APINT_NBYTES n - 1) p = take (APINT_NBYTES n - 1) pa" "length p = APINT_NBYTES n"
    and top: "\<And>t. t < 8 \<Longrightarrow> bit (p ! (APINT_NBYTES n - 1)) t =
        (if 8 * (APINT_NBYTES n - 1) + t < n then bit (pa ! (APINT_NBYTES n - 1)) t else f)"
  shows "bit (bval (p @ replicate (osz - APINT_NBYTES n) (if f then 0xFF else 0))) k \<longleftrightarrow>
    k < 8 * osz \<and> (if k < n then bit (bval pa) k else f)"
proof -
  let ?nb = "APINT_NBYTES n" and ?pr = "p @ replicate (osz - APINT_NBYTES n) (if f then 0xFF else 0 :: u8)"
  obtain i t where k: "k = 8 * i + t" "t < 8" by (rule byte_index)
  note b = NWORDS_bounds [OF n]
  have ff: "bit (0xFF :: u8) t" using k(2) by (simp only: bit_0xFF)
  have len: "length ?pr = osz" using nb(2) low(2) by simp
  have osz: "k < 8 * osz \<longleftrightarrow> i < osz" using k by linarith
  have "bit (?pr ! i) t = (if k < n then bit (bval pa) k else f)" if "i < osz"
  proof -
    consider "i < ?nb - 1" | "i = ?nb - 1" | "?nb \<le> i" by linarith
    then show ?thesis
    proof cases
      case 1
      then have "p ! i = pa ! i" using low(1) by (metis nth_take)
      moreover have "k < n" "i < ?nb" "i < length pa" using 1 k b(6) nb(1) by linarith+
      ultimately show ?thesis using low(2) k bit_bval_byte [OF k(2), of pa i] by (simp add: nth_append)
    next
      case 2
      then have "i < length pa" using nb(1) b(7) by linarith
      then show ?thesis using 2 top [OF k(2)] low(2) nb(1) b(7) k bit_bval_byte [OF k(2), of pa i] by (simp add: nth_append)
    next
      case 3
      then have "n \<le> k" using k b(5) by linarith
      then show ?thesis using 3 low(2) that ff by (simp add: nth_append)
    qed
  qed
  then show ?thesis using bit_bval_byte [OF k(2), of ?pr i] k(1) len osz by auto
qed

lemma mask_last_byte:
  assumes "0 < n" "t < 8" "n mod 8 \<noteq> 0"
  defines "bits \<equiv> (8 - n mod 8) mod 8"
  shows "bits \<noteq> 0" "bit (drop_bit bits 0xFF :: u8) t \<longleftrightarrow> 8 * (APINT_NBYTES n - 1) + t < n"
    "bit (push_bit (8 - bits) 0xFF :: u8) t \<longleftrightarrow> n \<le> 8 * (APINT_NBYTES n - 1) + t"
    "bit (push_bit (n mod 8) 1 - 1 :: u8) t \<longleftrightarrow> 8 * (APINT_NBYTES n - 1) + t < n"
proof -
  have u: "n mod 8 < 8" "bits = 8 - n mod 8" "8 - bits = n mod 8" using assms(3) by (auto simp: bits_def)
  have n: "8 * (APINT_NBYTES n - 1) + n mod 8 = n" using last_byte(3) [OF assms(1,3)] .
  have m: "push_bit (n mod 8) 1 - (1::u8) = mask (n mod 8)" by (simp add: mask_eq_exp_minus_1 push_bit_eq_mult)
  show "bits \<noteq> 0" using u by simp
  show "bit (drop_bit bits 0xFF :: u8) t \<longleftrightarrow> 8 * (APINT_NBYTES n - 1) + t < n"
    unfolding bit_drop_bit_eq comp_apply bit_0xFF using u n by linarith
  show "bit (push_bit (8 - bits) 0xFF :: u8) t \<longleftrightarrow> n \<le> 8 * (APINT_NBYTES n - 1) + t"
    unfolding u(3) bit_push_bit_iff bit_0xFF using u n assms(2) by (auto simp: possible_bit_word)
  show "bit (push_bit (n mod 8) 1 - 1 :: u8) t \<longleftrightarrow> 8 * (APINT_NBYTES n - 1) + t < n"
    unfolding m bit_mask_iff using n assms(2) by (auto simp: possible_bit_word)
qed

text \<open>
  Sign extension, zero extension and truncation write the signed, the unsigned and the
  truncated value of the operand into the output type's storage, whatever the operand's unused
  top bits hold; a width that does not grow (or shrink) is an error.
\<close>

theorem APInt_extensions_correct:
  assumes "holds n pa" "APINT_NBYTES n \<le> osz"
  shows "(m \<le> n \<longrightarrow>
       APInt_sext n pa m osz = Inl (JlThrow ''ErrorException'' ''SExt: output bitsize must be > input bitsize'') \<and>
       APInt_zext n pa m osz = Inl (JlThrow ''ErrorException'' ''ZExt: output bitsize must be > input bitsize'') \<and>
       APInt_trunc m pa n osz = Inl (JlThrow ''ErrorException'' ''Trunc: output bitsize must be < input bitsize'')) \<and>
    (n < m \<longrightarrow> (\<exists>s z t. APInt_sext n pa m osz = Inr s \<and> length s = osz \<and> bval s = take_bit (8 * osz) (sval n pa) \<and>
         APInt_zext n pa m osz = Inr z \<and> length z = osz \<and> bval z = uval n pa \<and>
         APInt_trunc m pa n osz = Inr t \<and> t = z))"
proof -
  have n: "0 < n" "APINT_NBYTES n \<le> length pa" using assms by (auto simp: holds_def)
  let ?nb = "APINT_NBYTES n" and ?bits = "(8 - n mod 8) mod 8" and ?byte = "pa ! (APINT_NBYTES n - 1)"
  let ?sign = "bit ?byte ((n - 1) mod 8)"
  note b = NWORDS_bounds [OF n(1)]
  have sg: "?sign \<longleftrightarrow> bit (bval pa) (n - 1)"
    using bit_bval_byte [of "(n - 1) mod 8" pa "?nb - 1"] last_byte(1) [OF n(1)] n(2) b(7) by auto
  define ps where "ps = (if ?bits \<noteq> 0 then (take ?nb pa)[?nb - 1 := (if ?sign then ?byte OR push_bit (8 - ?bits) 0xFF
      else ?byte AND drop_bit ?bits 0xFF)] else take ?nb pa)"
  define pz where "pz = (if ?bits \<noteq> 0 then (take ?nb pa)[?nb - 1 := ?byte AND drop_bit ?bits 0xFF] else take ?nb pa)"
  have full: "8 * (?nb - 1) + t < n" if "n mod 8 = 0" "t < 8" for t using last_byte(2) [OF n(1)] that b(7) by linarith
  have z0: "?bits = 0 \<longleftrightarrow> n mod 8 = 0" by presburger
  have tops: "bit (ps ! (?nb - 1)) t = (if 8 * (?nb - 1) + t < n then bit ?byte t else ?sign)"
    "bit (pz ! (?nb - 1)) t = (if 8 * (?nb - 1) + t < n then bit ?byte t else False)" if "t < 8" for t
    using mask_last_byte [OF n(1) that] full [OF _ that] n(2) b(7)
    by (cases "n mod 8 = 0"; auto simp: ps_def pz_def z0 bit_or_iff bit_and_iff)+
  have lows: "take (?nb - 1) ps = take (?nb - 1) pa" "length ps = ?nb" "take (?nb - 1) pz = take (?nb - 1) pa" "length pz = ?nb"
    using n(2) by (auto simp: ps_def pz_def)
  let ?s = "ps @ replicate (osz - ?nb) (if ?sign then 0xFF else 0)" and ?z = "pz @ replicate (osz - ?nb) 0"
  have "bval ?s = take_bit (8 * osz) (sval n pa)"
  proof (rule bit_eqI)
    fix k
    have "bit (sval n pa) k \<longleftrightarrow> (if k < n then bit (bval pa) k else ?sign)"
    proof -
      have "min k (n - 1) = (if k < n then k else n - 1)" by auto
      then show ?thesis unfolding sg sval_def bit_signed_take_bit_iff by (simp add: min.commute)
    qed
    then show "bit (bval ?s) k \<longleftrightarrow> bit (take_bit (8 * osz) (sval n pa)) k"
      using bit_patched [OF n assms(2) lows(1,2) tops(1)] by (simp add: bit_take_bit_iff)
  qed
  moreover have "bval ?z = uval n pa"
  proof (rule bit_eqI)
    fix k
    have "n \<le> 8 * osz" using assms(2) b(5) by linarith
    then show "bit (bval ?z) k \<longleftrightarrow> bit (uval n pa) k"
      using bit_patched [OF n assms(2) lows(3,4) tops(2)] by (auto simp: uval_def bit_take_bit_iff)
  qed
  moreover have "APInt_sext n pa m osz = Inr ?s" "APInt_zext n pa m osz = Inr ?z" if "n < m"
    using that n(2) b(7) assms(2) unfolding APInt_sext_def APInt_zext_def Let_def ps_def pz_def by simp_all
  moreover have "APInt_trunc m pa n osz = Inr ?z" if "n < m"
  proof -
    have "?byte AND (push_bit (n mod 8) 1 - 1) = ?byte AND drop_bit ?bits 0xFF" if "n mod 8 \<noteq> 0"
      using mask_last_byte(2,4) [OF n(1) _ that] by (intro bit_word_eqI) (simp add: bit_and_iff)
    then show ?thesis using that n(2) b(7) assms(2) z0 unfolding APInt_trunc_def Let_def pz_def by auto
  qed
  ultimately show ?thesis using lows(2,4) assms(2) by (auto simp: APInt_sext_def APInt_zext_def APInt_trunc_def)
qed

theorem APInt_extensions_correct_witness:
  "\<exists>s z t. APInt_sext 12 sample_a 32 4 = Inr s \<and> length s = 4 \<and> bval s = take_bit 32 (sval 12 sample_a) \<and>
     APInt_zext 12 sample_a 32 4 = Inr z \<and> length z = 4 \<and> bval z = uval 12 sample_a \<and>
     APInt_trunc 32 sample_a 12 4 = Inr t \<and> t = z"
  using APInt_extensions_correct [of 12 sample_a 4 32]
  by (simp add: holds_def APINT_NBYTES_def sample_a_def)

text \<open>
  Negation is two's complement negation, and \<open>flipsign\<close> negates its first operand exactly
  when the second is negative.
\<close>

theorem APInt_flipsign_correct:
  assumes "holds n pa" "holds n pb"
  shows "\<exists>m f. APInt_neg n pa = Inr m \<and> encodes n m (- sval n pa) \<and>
    APInt_flipsign n pa pb = Inr f \<and> length f = APINT_NBYTES n \<and>
    uval n f = take_bit n (if sval n pb < 0 then - sval n pa else sval n pa)"
proof -
  obtain a where a: "load pa n = Inr a" "length a = APINT_NWORDS n" "wval a = uval n pa" "0 < n"
    using load_holds [OF assms(1)] .
  let ?nb = "APINT_NBYTES n" and ?m = "store (mask_top (negate_words a) (APINT_NWORDS n) n) n"
  have l: "?nb \<le> length pa" "?nb \<le> length pb" using assms by (auto simp: holds_def)
  note b = NWORDS_bounds [OF a(4)]
  have u: "take_bit n (sval n pa) = uval n pa" using take_bit_ival [OF a(4), of True pa] by (simp add: ival_def)
  then have mu: "take_bit n (- sval n pa) = take_bit n (- uval n pa)" by (metis take_bit_minus)
  have "take_bit n (wval (negate_words a)) = take_bit n (- sval n pa)"
    using negate_words_eq [of a] a b(2) mu by (simp add: min_absorb1)
  then have m: "encodes n ?m (- sval n pa)" "APInt_neg n pa = Inr ?m"
    using encodes_store [OF a(4), of "negate_words a"] a negate_words_eq(1) [of a] by (simp_all add: APInt_neg_def)
  have sg: "bit (pb ! (?nb - 1)) ((n - 1) mod 8) \<longleftrightarrow> sval n pb < 0"
  proof -
    have "bit (pb ! (?nb - 1)) ((n - 1) mod 8) \<longleftrightarrow> bit (bval pb) (n - 1)"
      using bit_bval_byte [of "(n - 1) mod 8" pb "?nb - 1"] last_byte(1) [OF a(4)] l(2) b(7) by auto
    then show ?thesis
      using abs_signed_value(1) [OF a(4) uval_bounds, of pb] a(4) by (simp add: sval_uval [OF a(4)]) (simp add: uval_def bit_take_bit_iff)
  qed
  have "pb ! (?nb - 1) AND push_bit ((n - 1) mod 8) 1 \<noteq> 0 \<longleftrightarrow> bit (pb ! (?nb - 1)) ((n - 1) mod 8)"
    by (simp add: and_exp_eq_0_iff_not_bit push_bit_eq_mult)
  then have f: "APInt_flipsign n pa pb = Inr (if sval n pb < 0 then ?m else take ?nb pa)"
    using m(2) sg l b(7) by (simp add: APInt_flipsign_def Let_def rget_def)
  have "uval n (take ?nb pa) = uval n pa" using b(5) by (simp add: uval_def bval_take min_absorb1)
  then show ?thesis using m f l u by (auto simp: encodes_def uval_def)
qed

theorem APInt_flipsign_correct_witness:
  "\<exists>m f. APInt_neg 12 sample_b = Inr m \<and> encodes 12 m (- sval 12 sample_b) \<and>
    APInt_flipsign 12 sample_b sample_a = Inr f \<and> length f = APINT_NBYTES 12 \<and>
    uval 12 f = take_bit 12 (if sval 12 sample_a < 0 then - sval 12 sample_b else sval 12 sample_b)"
  by (rule APInt_flipsign_correct) (simp_all add: holds_def APINT_NBYTES_def sample_a_def sample_b_def)

end
