(* ===== verification/Utf8.thy ===== *)
theory Utf8
  imports Prelude
begin

unbundle bit_operations_syntax

text \<open>
  \<open>support/utf8.c\<close>: encoding, decoding, navigation, escaping, searching and validation of
  UTF-8.  A C string is the list of its bytes, terminator included where the code reads it;
  every read is checked against the list, so an over-read is the value \<open>Inl OutOfBounds\<close>.
  \<open>utf8proc_charwidth\<close> (a library) and \<open>iswprint\<close> (the locale's) are parameters.
\<close>

section \<open>Tables and predicates\<close>

definition offsetsFromUTF8 :: "u32 list" where
  "offsetsFromUTF8 = [0x00000000, 0x00003080, 0x000E2080, 0x03C82080, 0xFA082080, 0x82082080]"

definition trailingBytesForUTF8 :: "nat list" where
  "trailingBytesForUTF8 = replicate 192 0 @ replicate 32 1 @ replicate 16 2 @ replicate 8 3 @
     replicate 4 4 @ replicate 4 5"

definition isutf :: "u8 \<Rightarrow> bool" where
  "isutf c \<longleftrightarrow> c AND 0xC0 \<noteq> 0x80"

definition u8_seqlen :: "u8 \<Rightarrow> nat" where
  "u8_seqlen s0 = trailingBytesForUTF8 ! unat s0 + 1"

definition u8_charlen :: "u32 \<Rightarrow> nat" where
  "u8_charlen ch =
     (if ch < 0x80 then 1 else if ch < 0x800 then 2 else if ch < 0x10000 then 3
      else if ch < 0x110000 then 4 else 0)"

section \<open>Conversion\<close>

text \<open>The switch that falls through: \<open>k\<close> bytes shifted in, then the last one added.\<close>

fun u8_gather :: "u8 list \<Rightarrow> nat \<Rightarrow> nat \<Rightarrow> u32 \<Rightarrow> u32 result" where
  "u8_gather s p 0 ch = rbind (rget s p) (\<lambda>b. Inr (ch + ucast b))"
| "u8_gather s p (Suc k) ch =
     rbind (rget s p) (\<lambda>b. u8_gather s (p + 1) k (push_bit 6 (ch + ucast b)))"

function u8_toucs_loop :: "nat \<Rightarrow> u8 list \<Rightarrow> nat \<Rightarrow> nat \<Rightarrow> u32 list \<Rightarrow> u32 list result" where
  "u8_toucs_loop sz s srcsz p dest =
     (if length dest < sz then
        rbind (rget s p) (\<lambda>b.
          if \<not> isutf b then
            (let dest = dest @ [0xFFFD]; p = p + 1 in
             if p \<ge> srcsz then Inr dest else u8_toucs_loop sz s srcsz p dest)
          else
            (let nb = trailingBytesForUTF8 ! unat b in
             if p + nb \<ge> srcsz then Inr dest
             else rbind (u8_gather s p nb 0) (\<lambda>ch.
                    u8_toucs_loop sz s srcsz (p + nb + 1) (dest @ [ch - offsetsFromUTF8 ! nb]))))
      else Inr dest)"
  by pat_completeness auto
termination by (relation "measure (\<lambda>(sz, s, srcsz, p, dest). sz - length dest)") auto

definition u8_toucs :: "nat \<Rightarrow> u8 list \<Rightarrow> nat \<Rightarrow> u32 list result" where
  "u8_toucs sz src srcsz = (if sz = 0 \<or> srcsz = 0 then Inr [] else u8_toucs_loop sz src srcsz 0 [])"

definition u8_wc_toutf8 :: "u32 \<Rightarrow> u8 list" where
  "u8_wc_toutf8 ch =
     (if ch < 0x80 then [ucast ch]
      else if ch < 0x800 then [ucast (drop_bit 6 ch OR 0xC0), ucast ((ch AND 0x3F) OR 0x80)]
      else if ch < 0x10000 then
        [ucast (drop_bit 12 ch OR 0xE0), ucast ((drop_bit 6 ch AND 0x3F) OR 0x80),
         ucast ((ch AND 0x3F) OR 0x80)]
      else if ch < 0x110000 then
        [ucast (drop_bit 18 ch OR 0xF0), ucast ((drop_bit 12 ch AND 0x3F) OR 0x80),
         ucast ((drop_bit 6 ch AND 0x3F) OR 0x80), ucast ((ch AND 0x3F) OR 0x80)]
      else [0xEF, 0xBF, 0xBD])"

fun u8_toutf8_loop :: "nat \<Rightarrow> u32 list \<Rightarrow> u8 list \<Rightarrow> u8 list" where
  "u8_toutf8_loop sz [] dest = dest"
| "u8_toutf8_loop sz (ch # src) dest =
     (if ch < 0x80 then
        if length dest \<ge> sz then dest
        else u8_toutf8_loop sz src (dest @ [ucast ch])
      else if ch < 0x800 then
        if length dest + 1 \<ge> sz then dest
        else u8_toutf8_loop sz src
          (dest @ [ucast (drop_bit 6 ch OR 0xC0), ucast ((ch AND 0x3F) OR 0x80)])
      else if ch < 0x10000 then
        if length dest + 2 \<ge> sz then dest
        else u8_toutf8_loop sz src
          (dest @ [ucast (drop_bit 12 ch OR 0xE0), ucast ((drop_bit 6 ch AND 0x3F) OR 0x80),
                   ucast ((ch AND 0x3F) OR 0x80)])
      else if ch < 0x110000 then
        if length dest + 3 \<ge> sz then dest
        else u8_toutf8_loop sz src
          (dest @ [ucast (drop_bit 18 ch OR 0xF0), ucast ((drop_bit 12 ch AND 0x3F) OR 0x80),
                   ucast ((drop_bit 6 ch AND 0x3F) OR 0x80), ucast ((ch AND 0x3F) OR 0x80)])
      else
        if length dest + 2 \<ge> sz then dest
        else u8_toutf8_loop sz src (dest @ [0xEF, 0xBF, 0xBD]))"

definition u8_toutf8 :: "nat \<Rightarrow> u32 list \<Rightarrow> u8 list" where
  "u8_toutf8 sz src = u8_toutf8_loop sz src []"

section \<open>Navigation\<close>

fun u8_offset_loop :: "u8 list \<Rightarrow> nat \<Rightarrow> nat \<Rightarrow> nat result" where
  "u8_offset_loop s 0 i = Inr i"
| "u8_offset_loop s (Suc charnum) i =
     rbind (rget s i) (\<lambda>b.
       if b AND 0x80 \<noteq> 0 then
         rbind (rget s (i + 2)) (\<lambda>c.
           if isutf c then u8_offset_loop s charnum (i + 2)
           else rbind (rget s (i + 3)) (\<lambda>d.
             if isutf d then u8_offset_loop s charnum (i + 3)
             else u8_offset_loop s charnum (i + 4)))
       else u8_offset_loop s charnum (i + 1))"

definition u8_offset :: "u8 list \<Rightarrow> nat \<Rightarrow> nat result" where
  "u8_offset s charnum = u8_offset_loop s charnum 0"

fun u8_charnum :: "u8 list \<Rightarrow> nat \<Rightarrow> nat result" where
  "u8_charnum s 0 = Inr 0"
| "u8_charnum [] (Suc offset) = Inl OutOfBounds"
| "u8_charnum (b # s) (Suc offset) =
     rbind (u8_charnum s offset) (\<lambda>n. Inr (of_bool (b AND 0xC0 \<noteq> 0x80) + n))"

function u8_strwidth_loop :: "(u32 \<Rightarrow> nat) \<Rightarrow> u8 list \<Rightarrow> nat \<Rightarrow> nat \<Rightarrow> nat result" where
  "u8_strwidth_loop charwidth s p tot =
     rbind (rget s p) (\<lambda>sc.
       if sc = 0 then Inr tot
       else if 0 \<le> sint sc then u8_strwidth_loop charwidth s (p + 1) (tot + 1)
       else if \<not> isutf sc then u8_strwidth_loop charwidth s (p + 1) (tot + 1)
       else
         (let nb = trailingBytesForUTF8 ! unat sc in
          rbind (u8_gather s p nb 0) (\<lambda>ch.
            u8_strwidth_loop charwidth s (p + nb + 1) (tot + charwidth (ch - offsetsFromUTF8 ! nb)))))"
  by pat_completeness auto
termination
  by (relation "measure (\<lambda>(w, s, p, tot). length s - p)") (auto simp: rget_def split: if_splits)

definition u8_strwidth :: "(u32 \<Rightarrow> nat) \<Rightarrow> u8 list \<Rightarrow> nat result" where
  "u8_strwidth charwidth s = u8_strwidth_loop charwidth s 0 0"

fun u8_nextchar_loop :: "u8 list \<Rightarrow> nat \<Rightarrow> nat \<Rightarrow> u32 \<Rightarrow> (u32 \<times> nat) result" where
  "u8_nextchar_loop s 0 i ch = Inr (ch, i)"
| "u8_nextchar_loop s (Suc j) i ch =
     rbind (rget s i) (\<lambda>b. u8_nextchar_loop s j (i + 1) (push_bit 6 ch + ucast b))"

definition u8_nextchar :: "u8 list \<Rightarrow> nat \<Rightarrow> (u32 \<times> nat) result" where
  "u8_nextchar s i =
     rbind (rget s i) (\<lambda>b.
       let sz = u8_seqlen b in
       rbind (u8_nextchar_loop s sz i 0) (\<lambda>(ch, i). Inr (ch - offsetsFromUTF8 ! (sz - 1), i)))"

definition u8_nextmemchar :: "u8 list \<Rightarrow> nat \<Rightarrow> (u32 \<times> nat) result" where
  "u8_nextmemchar s i = u8_nextchar s i"

definition u8_inc :: "u8 list \<Rightarrow> nat \<Rightarrow> nat result" where
  "u8_inc s i =
     rbind (rget s (i + 1)) (\<lambda>b. if isutf b then Inr (i + 1) else
     rbind (rget s (i + 2)) (\<lambda>c. if isutf c then Inr (i + 2) else
     rbind (rget s (i + 3)) (\<lambda>d. if isutf d then Inr (i + 3) else Inr (i + 4))))"

text \<open>\<open>--(*i)\<close> on a \<open>size_t\<close>.\<close>

definition size_pred :: "nat \<Rightarrow> nat" where
  "size_pred i = (if i = 0 then 2 ^ 64 - 1 else i - 1)"

definition u8_dec :: "u8 list \<Rightarrow> nat \<Rightarrow> nat result" where
  "u8_dec s i =
     (let i1 = size_pred i; i2 = size_pred i1; i3 = size_pred i2 in
      rbind (rget s i1) (\<lambda>b. if isutf b then Inr i1 else
      rbind (rget s i2) (\<lambda>c. if isutf c then Inr i2 else
      rbind (rget s i3) (\<lambda>d. if isutf d then Inr i3 else Inr (size_pred i3)))))"

section \<open>Escapes\<close>

definition octal_digit :: "u8 \<Rightarrow> bool" where
  "octal_digit c \<longleftrightarrow> 48 \<le> c \<and> c \<le> 55"

definition hex_digit :: "u8 \<Rightarrow> bool" where
  "hex_digit c \<longleftrightarrow> (48 \<le> c \<and> c \<le> 57) \<or> (65 \<le> c \<and> c \<le> 70) \<or> (97 \<le> c \<and> c \<le> 102)"

text \<open>A character constant of the source.\<close>

definition chr :: "char \<Rightarrow> u8" where
  "chr c = of_char c"

definition read_escape_control_char :: "u8 \<Rightarrow> u8" where
  "read_escape_control_char c =
     (if c = chr CHR ''n'' then 0x0A
      else if c = chr CHR ''t'' then 0x09
      else if c = chr CHR ''r'' then 0x0D
      else if c = chr CHR ''e'' then 0x1B
      else if c = chr CHR ''b'' then 0x08
      else if c = chr CHR ''f'' then 0x0C
      else if c = chr CHR ''v'' then 0x0B
      else if c = chr CHR ''a'' then 0x07
      else c)"

text \<open>\<open>strtol\<close> on a string of digits of the base.\<close>

definition digit_value :: "u8 \<Rightarrow> nat" where
  "digit_value c =
     (if c \<le> 57 then unat c - 48 else if c \<le> 70 then unat c - 55 else unat c - 87)"

definition strtol :: "nat \<Rightarrow> u8 list \<Rightarrow> nat" where
  "strtol base digs = foldl (\<lambda>v c. base * v + digit_value c) 0 digs"

text \<open>The digit loops: at most \<open>n\<close> more digits from position \<open>i\<close>, within \<open>ssz\<close> bytes.\<close>

fun u8_digits :: "(u8 \<Rightarrow> bool) \<Rightarrow> u8 list \<Rightarrow> nat \<Rightarrow> nat \<Rightarrow> nat \<Rightarrow> u8 list result" where
  "u8_digits is_digit str ssz 0 i = Inr []"
| "u8_digits is_digit str ssz (Suc n) i =
     (if i < ssz then
        rbind (rget str i) (\<lambda>c.
          if is_digit c then rbind (u8_digits is_digit str ssz n (i + 1)) (\<lambda>cs. Inr (c # cs))
          else Inr [])
      else Inr [])"

definition u8_read_escape_sequence :: "u8 list \<Rightarrow> nat \<Rightarrow> (u32 \<times> nat) option result" where
  "u8_read_escape_sequence str ssz =
     rbind (assert_that (ssz > 0)) (\<lambda>_.
     rbind (rget str 0) (\<lambda>c0.
       if octal_digit c0 then
         rbind (u8_digits octal_digit str ssz 2 1) (\<lambda>digs.
           Inr (Some (of_nat (strtol 8 (c0 # digs)), 1 + length digs)))
       else
         let ndig = (if c0 = chr CHR ''x'' then 2 else if c0 = chr CHR ''u'' then 4
                     else if c0 = chr CHR ''U'' then 8 else 0 :: nat) in
         if ndig \<noteq> 0 then
           rbind (u8_digits hex_digit str ssz ndig 1) (\<lambda>digs.
             if digs = [] then Inr None
             else Inr (Some (of_nat (strtol 16 digs), 1 + length digs)))
         else Inr (Some (scast (read_escape_control_char c0), 1))))"

text \<open>\<open>snprintf\<close> of a letter and a number in hexadecimal, padded with zeros to \<open>w\<close> digits:
  what is left in a buffer of \<open>sz\<close> bytes, and the length it reports.\<close>

definition hex_char :: "nat \<Rightarrow> u8" where
  "hex_char d = (if d < 10 then of_nat (48 + d) else of_nat (87 + d))"

fun hex_digits :: "nat \<Rightarrow> nat \<Rightarrow> u8 list" where
  "hex_digits 0 n = []"
| "hex_digits (Suc w) n = hex_digits w (n div 16) @ [hex_char (n mod 16)]"

definition snprintf_hex :: "nat \<Rightarrow> char \<Rightarrow> nat \<Rightarrow> nat \<Rightarrow> u8 list \<times> nat" where
  "snprintf_hex sz l w n =
     (let out = chr CHR 0x5C # chr l # hex_digits w n in (take (sz - 1) out, length out))"

text \<open>The bytes put in the buffer (without the terminator) and the count returned.\<close>

definition u8_escape_wchar :: "nat \<Rightarrow> u32 \<Rightarrow> (u8 list \<times> nat) result" where
  "u8_escape_wchar sz ch =
     rbind (assert_that (sz > 2)) (\<lambda>_.
       Inr (if ch = 0x0A then ([chr CHR 0x5C, chr CHR ''n''], 2)
            else if ch = 0x09 then ([chr CHR 0x5C, chr CHR ''t''], 2)
            else if ch = 0x0D then ([chr CHR 0x5C, chr CHR ''r''], 2)
            else if ch = 0x1B then ([chr CHR 0x5C, chr CHR ''e''], 2)
            else if ch = 0x08 then ([chr CHR 0x5C, chr CHR ''b''], 2)
            else if ch = 0x0C then ([chr CHR 0x5C, chr CHR ''f''], 2)
            else if ch = 0x0B then ([chr CHR 0x5C, chr CHR ''v''], 2)
            else if ch = 0x07 then ([chr CHR 0x5C, chr CHR ''a''], 2)
            else if ch = 0x5C then ([chr CHR 0x5C, chr CHR 0x5C], 2)
            else if ch < 32 \<or> ch = 0x7F then snprintf_hex sz CHR ''x'' 2 (unat (ucast ch :: u8))
            else if ch > 0xFFFF then snprintf_hex sz CHR ''U'' 8 (unat ch)
            else if ch \<ge> 0x80 then snprintf_hex sz CHR ''u'' 4 (unat (ucast ch :: u16))
            else ([ucast ch], 1)))"

text \<open>The copy of one sequence: bytes up to the next lead byte.\<close>

function u8_copy_seq :: "u8 list \<Rightarrow> nat \<Rightarrow> u8 list \<Rightarrow> (u8 list \<times> nat) result" where
  "u8_copy_seq src i buf =
     rbind (rget src i) (\<lambda>b.
     rbind (rget src (i + 1)) (\<lambda>c.
       if isutf c then Inr (buf @ [b], i + 1) else u8_copy_seq src (i + 1) (buf @ [b])))"
  by pat_completeness auto
termination
  by (relation "measure (\<lambda>(src, i, buf). length src - i)") (auto simp: rget_def split: if_splits)

declare u8_toucs_loop.simps [simp del] u8_strwidth_loop.simps [simp del] u8_copy_seq.simps [simp del]

lemma u8_nextchar_loop_index: "u8_nextchar_loop s j i ch = Inr (c, i') \<Longrightarrow> i' = i + j"
  by (induction s j i ch rule: u8_nextchar_loop.induct) (auto simp: rbind_eq_Inr_iff)

lemma u8_nextchar_index: "u8_nextchar s i = Inr (c, i') \<Longrightarrow> i < i' \<and> i < length s"
  by (auto simp: u8_nextchar_def u8_seqlen_def Let_def rbind_eq_Inr_iff rget_def
      dest!: u8_nextchar_loop_index split: if_splits)

lemma u8_copy_seq_index: "u8_copy_seq s i buf = Inr (b, i') \<Longrightarrow> i < i' \<and> i < length s"
proof (induction s i buf rule: u8_copy_seq.induct)
  case (1 src i buf)
  obtain b' c where b: "rget src i = Inr b'" "rget src (i + 1) = Inr c"
      "(if isutf c then Inr (buf @ [b'], i + 1) else u8_copy_seq src (i + 1) (buf @ [b'])) = Inr (b, i')"
    using 1(2) unfolding u8_copy_seq.simps [of src i buf] by (auto simp: rbind_eq_Inr_iff)
  then show ?case using 1(1) [OF b(1,2)] by (cases "isutf c") (auto simp: rget_def split: if_splits)
qed

function u8_escape_loop ::
  "(u32 \<Rightarrow> bool) \<Rightarrow> nat \<Rightarrow> u8 list \<Rightarrow> nat \<Rightarrow> u8 list option \<Rightarrow> bool \<Rightarrow> nat \<Rightarrow> u8 list \<Rightarrow> (u8 list \<times> nat) result"
where
  "u8_escape_loop iswprint sz src end escapes ascii i buf =
     (if i < end \<and> length buf < sz - 11 then
        rbind (rget src i) (\<lambda>b.
          if b = chr CHR 0x5C \<or> (case escapes of None \<Rightarrow> False | Some e \<Rightarrow> b = 0 \<or> b \<in> set e)
          then u8_escape_loop iswprint sz src end escapes ascii (i + 1) (buf @ [chr CHR 0x5C, b])
          else rbind (u8_nextmemchar src i) (\<lambda>(ch, i').
            if ascii \<or> \<not> iswprint ch then
              rbind (u8_escape_wchar (sz - length buf) ch) (\<lambda>(out, _).
                u8_escape_loop iswprint sz src end escapes ascii i' (buf @ out))
            else rbind (u8_copy_seq src i []) (\<lambda>(out, i').
                u8_escape_loop iswprint sz src end escapes ascii i' (buf @ out))))
      else Inr (buf, i))"
  by pat_completeness auto
termination
proof (relation "measure (\<lambda>(w, sz, src, end, escapes, ascii, i, buf). length src - i)")
qed (use u8_nextchar_index u8_copy_seq_index in \<open>fastforce simp: rget_def u8_nextmemchar_def split: if_splits\<close>)+

declare u8_escape_loop.simps [simp del]

text \<open>The buffer with its terminator, the new \<open>*pi\<close>, and the count with the terminator.\<close>

definition u8_escape ::
  "(u32 \<Rightarrow> bool) \<Rightarrow> nat \<Rightarrow> u8 list \<Rightarrow> nat \<Rightarrow> nat \<Rightarrow> u8 list option \<Rightarrow> bool \<Rightarrow> (u8 list \<times> nat \<times> nat) result"
where
  "u8_escape iswprint sz src pi end escapes ascii =
     rbind (assert_that (sz > 11)) (\<lambda>_.
     rbind (u8_escape_loop iswprint sz src end escapes ascii pi []) (\<lambda>(buf, i).
       Inr (buf @ [0], i, length buf + 1)))"

section \<open>Search\<close>

text \<open>The inner loop of \<open>u8_memchr\<close>: one sequence, its value and its number of bytes.\<close>

function u8_memchr_seq :: "u8 list \<Rightarrow> nat \<Rightarrow> nat \<Rightarrow> u32 \<Rightarrow> nat \<Rightarrow> (u32 \<times> nat \<times> nat) result" where
  "u8_memchr_seq s sz i c csz =
     rbind (rget s i) (\<lambda>b.
       let c = push_bit 6 c + ucast b; i = i + 1; csz = csz + 1 in
       if i < sz then
         rbind (rget s i) (\<lambda>b'. if \<not> isutf b' then u8_memchr_seq s sz i c csz else Inr (c, i, csz))
       else Inr (c, i, csz))"
  by pat_completeness auto
termination
  by (relation "measure (\<lambda>(s, sz, i, c, csz). length s - i)") (auto simp: rget_def split: if_splits)

declare u8_memchr_seq.simps [simp del]

lemma u8_memchr_seq_index: "u8_memchr_seq s sz i c csz = Inr (c', i', n) \<Longrightarrow> i < i' \<and> i < length s"
proof (induction s sz i c csz rule: u8_memchr_seq.induct)
  case (1 s sz i c csz)
  from 1(2) obtain b where b: "rget s i = Inr b" unfolding u8_memchr_seq.simps [of s sz i c csz] by (auto simp: rbind_eq_Inr_iff)
  then have i: "i < length s" by (simp add: rget_def split: if_splits)
  show ?case
  proof (cases "i + 1 < sz")
    case True
    let ?k = "\<lambda>b'. if \<not> isutf b' then u8_memchr_seq s sz (i + 1) (push_bit 6 c + ucast b) (csz + 1)
          else Inr (push_bit 6 c + ucast b, i + 1, csz + 1)"
    have "rbind (rget s (i + 1)) ?k = Inr (c', i', n)"
      using 1(2) b True unfolding u8_memchr_seq.simps [of s sz i c csz] Let_def by (simp only: rbind_simps if_True)
    then obtain b' where b': "rget s (i + 1) = Inr b'" "?k b' = Inr (c', i', n)" unfolding rbind_eq_Inr_iff by blast
    then show ?thesis using 1(1) [OF b refl refl refl True b'(1)] i by (cases "isutf b'") auto
  next
    case False
    then show ?thesis using 1(2) b i unfolding u8_memchr_seq.simps [of s sz i c csz] by (simp add: Let_def)
  qed
qed

text \<open>The offset where the character starts, if it occurs, and \<open>*charn\<close>.\<close>

function u8_memchr_loop :: "u8 list \<Rightarrow> u32 \<Rightarrow> nat \<Rightarrow> nat \<Rightarrow> nat \<Rightarrow> (nat option \<times> nat) result" where
  "u8_memchr_loop s ch sz i charn =
     (if i < sz then
        rbind (u8_memchr_seq s sz i 0 0) (\<lambda>(c, i', csz).
        rbind (rget offsetsFromUTF8 (csz - 1)) (\<lambda>off.
          if c - off = ch then Inr (Some i, charn) else u8_memchr_loop s ch sz i' (charn + 1)))
      else Inr (None, charn))"
  by pat_completeness auto
termination
proof (relation "measure (\<lambda>(s, ch, sz, i, charn). length s - i)")
qed (use u8_memchr_seq_index in \<open>fastforce simp: rget_def split: if_splits\<close>)+

declare u8_memchr_loop.simps [simp del]

definition u8_memchr :: "u8 list \<Rightarrow> u32 \<Rightarrow> nat \<Rightarrow> (nat option \<times> nat) result" where
  "u8_memchr s ch sz = u8_memchr_loop s ch sz 0 0"

fun u8_back_to_lead :: "u8 list \<Rightarrow> nat \<Rightarrow> nat result" where
  "u8_back_to_lead s 0 = Inr 0"
| "u8_back_to_lead s (Suc i) =
     rbind (rget s (Suc i)) (\<lambda>b. if \<not> isutf b then u8_back_to_lead s i else Inr (Suc i))"

text \<open>The loop of \<open>u8_memrchr\<close> ends when \<open>u8_dec\<close> wraps around; otherwise the index decreases.\<close>

function u8_memrchr_loop :: "u8 list \<Rightarrow> u32 \<Rightarrow> nat \<Rightarrow> nat option result" where
  "u8_memrchr_loop s ch i =
     rbind (u8_nextmemchar s i) (\<lambda>(c, _).
       if c = ch then Inr (Some i)
       else if i = 0 then Inr None
       else rbind (u8_dec s i) (\<lambda>i'. if i' \<ge> i then Inr None else u8_memrchr_loop s ch i'))"
  by pat_completeness auto
termination by (relation "measure (\<lambda>(s, ch, i). i)") auto

declare u8_memrchr_loop.simps [simp del]

definition u8_memrchr :: "u8 list \<Rightarrow> u32 \<Rightarrow> nat \<Rightarrow> nat option result" where
  "u8_memrchr s ch sz =
     (if sz = 0 then Inr None
      else rbind (u8_back_to_lead s (sz - 1)) (\<lambda>i. u8_memrchr_loop s ch i))"

section \<open>Validation\<close>

text \<open>The scan over the bytes that remain: \<open>r\<close> is the value returned at the end of the string,
  1 before the first non-ASCII byte and 2 after a multi-byte sequence.\<close>

function u8_isvalid_scan :: "nat \<Rightarrow> u8 list \<Rightarrow> nat" where
  "u8_isvalid_scan r [] = r"
| "u8_isvalid_scan r (byt # pnt) =
     (if byt AND 0x80 = 0 then u8_isvalid_scan r pnt
      else if pnt = [] then 0
      else if (ucast byt - 0xC2 :: u32) > 0xF4 - 0xC2 then 0
      else if byt < 0xE0 then
        if pnt ! 0 AND 0xC0 \<noteq> 0x80 then 0 else u8_isvalid_scan 2 (drop 1 pnt)
      else if byt < 0xF0 then
        if length pnt \<le> 1 \<or> pnt ! 0 AND 0xC0 \<noteq> 0x80 \<or> pnt ! 1 AND 0xC0 \<noteq> 0x80 then 0
        else if byt = 0xED \<and> pnt ! 0 > 0x9F then 0
        else if byt = 0xE0 \<and> pnt ! 0 < 0xA0 then 0
        else u8_isvalid_scan 2 (drop 2 pnt)
      else
        if length pnt \<le> 2 \<or> pnt ! 0 AND 0xC0 \<noteq> 0x80 \<or> pnt ! 1 AND 0xC0 \<noteq> 0x80 \<or> pnt ! 2 AND 0xC0 \<noteq> 0x80 then 0
        else if byt = 0xF0 \<and> pnt ! 0 < 0x90 then 0
        else if byt = 0xF4 \<and> pnt ! 0 > 0x8F then 0
        else u8_isvalid_scan 2 (drop 3 pnt))"
  by pat_completeness auto
termination by (relation "measure (\<lambda>(r, s). length s)") auto

definition u8_isvalid :: "u8 list \<Rightarrow> nat" where
  "u8_isvalid str = u8_isvalid_scan 1 str"

section \<open>Bytes and code points as numbers\<close>

lemma unat_byte: "unat (b :: u8) < 256"
  using unsigned_less [of b] by simp

lemma byte_cases:
  assumes "list_all (\<lambda>n. P (of_nat n)) [0 ..< 256]"
  shows "P (b :: u8)"
proof -
  have "unat b < 256" by (rule unat_byte)
  then have "P (of_nat (unat b))" using assms unfolding list_all_iff by (metis atLeastLessThan_iff le0 set_upt)
  then show ?thesis by simp
qed

lemma isutf_iff: "isutf b \<longleftrightarrow> unat b < 128 \<or> 192 \<le> unat b"
  unfolding isutf_def by (rule byte_cases [where P = "\<lambda>b. (b AND 0xC0 \<noteq> 0x80) = (unat b < 128 \<or> 192 \<le> unat b)"]) code_simp

lemma high_bit_iff: "(b :: u8) AND 0x80 = 0 \<longleftrightarrow> unat b < 128"
  by (rule byte_cases [where P = "\<lambda>b. (b AND 0x80 = 0) = (unat b < 128)"]) code_simp

lemma trailing_eq: "trailingBytesForUTF8 ! unat (b :: u8) =
   (if unat b < 192 then 0 else if unat b < 224 then 1 else if unat b < 240 then 2
    else if unat b < 248 then 3 else if unat b < 252 then 4 else 5)"
  by (rule byte_cases [where P = "\<lambda>b. trailingBytesForUTF8 ! unat b =
   (if unat b < 192 then 0 else if unat b < 224 then 1 else if unat b < 240 then 2
    else if unat b < 248 then 3 else if unat b < 252 then 4 else 5)"]) code_simp

text \<open>UTF-8 as the standard has it, on numbers.\<close>

definition utf8_bytes :: "nat \<Rightarrow> nat list" where
  "utf8_bytes c =
     (if c < 0x80 then [c]
      else if c < 0x800 then [0xC0 + c div 64, 0x80 + c mod 64]
      else if c < 0x10000 then [0xE0 + c div 4096, 0x80 + c div 64 mod 64, 0x80 + c mod 64]
      else [0xF0 + c div 262144, 0x80 + c div 4096 mod 64, 0x80 + c div 64 mod 64, 0x80 + c mod 64])"

text \<open>Unicode scalar values: the code points that are not surrogates.\<close>

definition scalar :: "nat \<Rightarrow> bool" where
  "scalar c \<longleftrightarrow> c < 0x110000 \<and> \<not> (0xD800 \<le> c \<and> c \<le> 0xDFFF)"

definition byte_of :: "nat \<Rightarrow> u8" where
  "byte_of n = of_nat n"

definition utf8_of :: "nat \<Rightarrow> u8 list" where
  "utf8_of c = map byte_of (utf8_bytes c)"

lemma unat_byte_of [simp]: "n < 256 \<Longrightarrow> unat (byte_of n) = n"
  by (simp add: byte_of_def unat_of_nat_small)

lemma byte_of_unat [simp]: "byte_of (unat b) = b"
  by (simp add: byte_of_def)

lemma ucast_byte_of: "n < 256 \<Longrightarrow> (ucast (byte_of n) :: u32) = of_nat n"
  by (metis of_nat_unat unat_byte_of unsigned_ucast_eq ucast_eq uint_nat of_int_of_nat_eq)

lemma or_nat_add: "x < 2 ^ k \<Longrightarrow> x OR 2 ^ k * y = x + 2 ^ k * (y :: nat)"
proof -
  assume x: "x < 2 ^ k"
  have "\<not> bit x n \<or> \<not> bit (2 ^ k * y) n" for n
  proof (cases "n < k")
    case True
    then show ?thesis using bit_push_bit_iff_nat [of k y n] by (simp add: push_bit_eq_mult mult.commute)
  next
    case False
    then show ?thesis using take_bit_nat_eq_self [OF x] by (metis bit_take_bit_iff)
  qed
  then show ?thesis by (simp add: disjunctive_add)
qed

lemma unat_or_add:
  fixes w h :: u32
  assumes "unat w < 2 ^ k" "unat h = 2 ^ k * y"
  shows "unat (w OR h) = unat w + unat h"
  using or_nat_add [OF assms(1), of y] assms(2) by (simp add: unsigned_or_eq)

lemma unat_and_3F: "unat ((w :: u32) AND 0x3F) = unat w mod 64"
proof -
  have "(0x3F :: u32) = mask 6" by (simp add: mask_eq_exp_minus_1)
  then have "w AND 0x3F = take_bit 6 w" by (simp only: take_bit_eq_mask)
  then show ?thesis by (simp add: take_bit_eq_mod unat_mod)
qed

lemma ucast_of_unat: "unat (w :: u32) = n \<Longrightarrow> (ucast w :: u8) = byte_of n"
  unfolding byte_of_def by (metis unsigned_of_nat ucast_eq uint_nat of_int_of_nat_eq)

lemma cont_byte: "(ucast ((w AND 0x3F) OR 0x80 :: u32) :: u8) = byte_of (0x80 + unat (w :: u32) mod 64)"
  using unat_or_add [of "w AND 0x3F" 6 "0x80" 2] by (intro ucast_of_unat) (simp add: unat_and_3F)

lemma lead_byte:
  fixes w h :: u32
  assumes "unat w < 2 ^ k" "unat h = 2 ^ k * y"
  shows "(ucast (w OR h) :: u8) = byte_of (unat h + unat w)"
  using unat_or_add [OF assms] by (intro ucast_of_unat) simp

lemma unat_drop_bit: "unat (drop_bit k (w :: u32)) = unat w div 2 ^ k"
proof -
  have "take_bit 32 (unat w) = unat w" using unsigned_less [of w] by (intro take_bit_nat_eq_self) simp
  then show ?thesis by (subst unsigned_drop_bit_eq) (simp add: drop_bit_eq_div)
qed

lemma u8_wc_toutf8_eq:
  "unat ch < 0x110000 \<Longrightarrow> u8_wc_toutf8 ch = utf8_of (unat ch)"
proof -
  assume l: "unat ch < 0x110000"
  have lt: "ch < n \<longleftrightarrow> unat ch < unat n" for n by (rule word_less_nat_alt)
  show ?thesis
    using l lead_byte [of "drop_bit 6 ch" 6 "0xC0" 3] lead_byte [of "drop_bit 12 ch" 4 "0xE0" 14]
      lead_byte [of "drop_bit 18 ch" 4 "0xF0" 15] ucast_of_unat [OF refl, of ch]
    by (simp add: u8_wc_toutf8_def utf8_of_def utf8_bytes_def lt cont_byte unat_drop_bit)
qed

section \<open>Decoding inverts encoding\<close>

abbreviation shift_in :: "u32 \<Rightarrow> u8 \<Rightarrow> u32" where
  "shift_in ch b \<equiv> push_bit 6 ch + ucast b"

lemma u8_nextchar_loop_bytes:
  "u8_nextchar_loop (pre @ bs @ post) (length bs) (length pre) ch =
   Inr (foldl shift_in ch bs, length pre + length bs)"
proof (induction bs arbitrary: pre ch)
  case (Cons b bs)
  show ?case using Cons.IH [of "pre @ [b]"] by (simp add: nth_append)
qed simp

lemma u8_gather_bytes:
  "u8_gather (pre @ (b # bs) @ post) (length pre) (length bs) ch = Inr (foldl shift_in (ch + ucast b) bs)"
proof (induction bs arbitrary: pre ch b)
  case (Cons b' bs)
  show ?case using Cons.IH [of "pre @ [b]" b' "push_bit 6 (ch + ucast b)"] by (simp add: nth_append)
qed (simp add: nth_append)

lemma utf8_bytes_range: "c < 0x110000 \<Longrightarrow> b \<in> set (utf8_bytes c) \<Longrightarrow> b < 256"
  by (auto simp: utf8_bytes_def split: if_splits)

lemma foldl_shift_in:
  "\<forall>b \<in> set bs. b < 256 \<Longrightarrow>
   foldl shift_in (of_nat v) (map byte_of bs) = of_nat (foldl (\<lambda>v b. 64 * v + b) v bs)"
proof (induction bs arbitrary: v)
  case (Cons b bs)
  have "shift_in (of_nat v) (byte_of b) = of_nat (64 * v + b)"
    using Cons.prems by (simp add: push_bit_eq_mult ucast_byte_of)
  then show ?case using Cons.IH [of "64 * v + b"] Cons.prems by (simp del: of_nat_add of_nat_mult)
qed simp

lemma digits_64:
  "c = 64 * (c div 64) + c mod 64" "c div 64 = 64 * (c div 4096) + c div 64 mod 64"
  "c div 4096 = 64 * (c div 262144) + c div 4096 mod (64 :: nat)"
  using div_mult2_eq [of c 64 64] div_mult2_eq [of c 4096 64] by simp_all

lemma utf8_bytes_value:
  assumes "c < 0x110000"
  shows "foldl (\<lambda>v b. 64 * v + b) 0 (utf8_bytes c) = c + unat (offsetsFromUTF8 ! (length (utf8_bytes c) - 1))"
  using assms digits_64 [of c] by (auto simp: utf8_bytes_def offsetsFromUTF8_def)

lemma length_utf8_bytes: "length (utf8_bytes c) = (if c < 0x80 then 1 else if c < 0x800 then 2 else if c < 0x10000 then 3 else 4)"
  by (simp add: utf8_bytes_def)

lemma trailing_lead: "c < 0x110000 \<Longrightarrow> trailingBytesForUTF8 ! unat (hd (utf8_of c)) = length (utf8_of c) - 1"
  by (auto simp: trailing_eq utf8_of_def utf8_bytes_def)

lemma utf8_of_ne [simp]: "utf8_of c \<noteq> []"
  by (simp add: utf8_of_def utf8_bytes_def)

lemma decode_utf8:
  assumes "c < 0x110000"
  shows "foldl shift_in 0 (utf8_of c) - offsetsFromUTF8 ! (length (utf8_of c) - 1) = of_nat c"
proof -
  have "foldl shift_in (of_nat 0) (utf8_of c) = of_nat (c + unat (offsetsFromUTF8 ! (length (utf8_of c) - 1)))"
    unfolding utf8_of_def using foldl_shift_in [of "utf8_bytes c" 0] utf8_bytes_range [OF assms] utf8_bytes_value [OF assms] by simp
  then show ?thesis by simp
qed

text \<open>
  C13: encoding a code point and reading it back is the identity: \<open>u8_nextchar\<close> at the start of
  an encoded character returns the character and the index just behind it, wherever the
  character stands, and \<open>u8_charlen\<close> is the number of bytes.
\<close>

theorem u8_encode_decode:
  assumes "ch < 0x110000"
  shows "u8_nextchar (pre @ u8_wc_toutf8 ch @ post) (length pre) = Inr (ch, length pre + u8_charlen ch) \<and>
    length (u8_wc_toutf8 ch) = u8_charlen ch"
proof -
  define c where "c = unat ch"
  have c: "c < 0x110000" "of_nat c = ch" using assms by (simp_all add: c_def word_less_nat_alt)
  have e: "u8_wc_toutf8 ch = utf8_of c" using u8_wc_toutf8_eq [of ch] c(1) by (simp add: c_def)
  have l: "length (utf8_of c) = u8_charlen ch"
    using c(1) by (simp add: utf8_of_def length_utf8_bytes u8_charlen_def word_less_nat_alt c_def)
  have "u8_seqlen (hd (utf8_of c)) = length (utf8_of c)"
    using trailing_lead [OF c(1)] utf8_of_ne [of c] by (simp add: u8_seqlen_def Suc_leI)
  then show ?thesis
    using u8_nextchar_loop_bytes [of pre "utf8_of c" post 0] decode_utf8 [OF c(1)] c(2) e l [symmetric] utf8_of_ne [of c]
    by (simp add: u8_nextchar_def Let_def nth_append hd_conv_nth)
qed

theorem u8_encode_decode_witness:
  "u8_nextchar ([0x61] @ u8_wc_toutf8 0x20AC @ [0]) (length [0x61 :: u8]) =
     Inr (0x20AC, length [0x61 :: u8] + u8_charlen 0x20AC) \<and> length (u8_wc_toutf8 0x20AC) = u8_charlen 0x20AC"
  by (rule u8_encode_decode) simp

section \<open>Validation\<close>

lemma lead_range: "(ucast b - 0xC2 :: u32) > 0xF4 - 0xC2 \<longleftrightarrow> \<not> (0xC2 \<le> unat (b :: u8) \<and> unat b \<le> 0xF4)"
  by (rule byte_cases [where P = "\<lambda>b. ((ucast b - 0xC2 :: u32) > 0xF4 - 0xC2) = (\<not> (0xC2 \<le> unat b \<and> unat b \<le> 0xF4))"])
     code_simp

declare u8_isvalid_scan.simps(2) [simp del]

lemma byte_eq: "(b :: u8) = 0xED \<longleftrightarrow> unat b = 0xED" "b = 0xE0 \<longleftrightarrow> unat b = 0xE0"
  "b = 0xF0 \<longleftrightarrow> unat b = 0xF0" "b = 0xF4 \<longleftrightarrow> unat b = 0xF4"
  by (simp_all add: word_unat_eq_iff)

lemma scan_unat:
  "u8_isvalid_scan r (byt # pnt) =
     (if unat byt < 0x80 then u8_isvalid_scan r pnt
      else if pnt = [] then 0
      else if \<not> (0xC2 \<le> unat byt \<and> unat byt \<le> 0xF4) then 0
      else if unat byt < 0xE0 then
        if isutf (pnt ! 0) then 0 else u8_isvalid_scan 2 (drop 1 pnt)
      else if unat byt < 0xF0 then
        if length pnt \<le> 1 \<or> isutf (pnt ! 0) \<or> isutf (pnt ! 1) then 0
        else if unat byt = 0xED \<and> unat (pnt ! 0) > 0x9F then 0
        else if unat byt = 0xE0 \<and> unat (pnt ! 0) < 0xA0 then 0
        else u8_isvalid_scan 2 (drop 2 pnt)
      else
        if length pnt \<le> 2 \<or> isutf (pnt ! 0) \<or> isutf (pnt ! 1) \<or> isutf (pnt ! 2) then 0
        else if unat byt = 0xF0 \<and> unat (pnt ! 0) < 0x90 then 0
        else if unat byt = 0xF4 \<and> unat (pnt ! 0) > 0x8F then 0
        else u8_isvalid_scan 2 (drop 3 pnt))"
proof -
  have lt: "a < b \<longleftrightarrow> unat a < unat b" for a b :: u8 by (rule word_less_nat_alt)
  show ?thesis
    unfolding u8_isvalid_scan.simps(2) high_bit_iff lead_range byte_eq isutf_def [symmetric] lt by simp
qed

lemmas scan_simps = scan_unat isutf_iff

abbreviation cont :: "nat \<Rightarrow> bool" where
  "cont x \<equiv> 0x80 \<le> x \<and> x < 0xC0"

text \<open>The well-formed sequences of two, three and four bytes.\<close>

definition seq2 :: "nat \<Rightarrow> nat \<Rightarrow> bool" where
  "seq2 b x \<longleftrightarrow> 0xC2 \<le> b \<and> b < 0xE0 \<and> cont x"

definition seq3 :: "nat \<Rightarrow> nat \<Rightarrow> nat \<Rightarrow> bool" where
  "seq3 b x y \<longleftrightarrow> 0xE0 \<le> b \<and> b < 0xF0 \<and> cont x \<and> cont y \<and> (b = 0xED \<longrightarrow> x \<le> 0x9F) \<and> (b = 0xE0 \<longrightarrow> 0xA0 \<le> x)"

definition seq4 :: "nat \<Rightarrow> nat \<Rightarrow> nat \<Rightarrow> nat \<Rightarrow> bool" where
  "seq4 b x y z \<longleftrightarrow> 0xF0 \<le> b \<and> b \<le> 0xF4 \<and> cont x \<and> cont y \<and> cont z \<and>
     (b = 0xF0 \<longrightarrow> 0x90 \<le> x) \<and> (b = 0xF4 \<longrightarrow> x \<le> 0x8F)"

lemma scan_ascii: "unat b < 0x80 \<Longrightarrow> u8_isvalid_scan r (b # rest) = u8_isvalid_scan r rest"
  by (simp add: scan_simps)

lemma scan_seq:
  "seq2 (unat b) (unat x) \<Longrightarrow> u8_isvalid_scan r (b # x # rest) = u8_isvalid_scan 2 rest"
  "seq3 (unat b) (unat x) (unat y) \<Longrightarrow> u8_isvalid_scan r (b # x # y # rest) = u8_isvalid_scan 2 rest"
  "seq4 (unat b) (unat x) (unat y) (unat z) \<Longrightarrow> u8_isvalid_scan r (b # x # y # z # rest) = u8_isvalid_scan 2 rest"
  by (auto simp: scan_simps seq2_def seq3_def seq4_def)

text \<open>The scan accepts nothing else.\<close>

lemma scan_cases:
  assumes "u8_isvalid_scan r (b # s) \<noteq> 0" "\<not> unat b < 0x80"
  shows "(\<exists>x rest. s = x # rest \<and> seq2 (unat b) (unat x)) \<or>
    (\<exists>x y rest. s = x # y # rest \<and> seq3 (unat b) (unat x) (unat y)) \<or>
    (\<exists>x y z rest. s = x # y # z # rest \<and> seq4 (unat b) (unat x) (unat y) (unat z))"
proof -
  obtain x s1 where s1: "s = x # s1" using assms by (cases s) (auto simp: scan_simps)
  have b: "0xC2 \<le> unat b" "unat b \<le> 0xF4" using assms s1 by (auto simp: scan_simps split: if_splits)
  consider "unat b < 0xE0" | "0xE0 \<le> unat b" "unat b < 0xF0" | "0xF0 \<le> unat b" by linarith
  then show ?thesis
  proof cases
    case 1
    then have "seq2 (unat b) (unat x)" using assms s1 b by (auto simp: scan_simps seq2_def split: if_splits)
    then show ?thesis using s1 by blast
  next
    case 2
    then obtain y s2 where s2: "s1 = y # s2" using assms s1 b by (cases s1) (auto simp: scan_simps)
    then have "seq3 (unat b) (unat x) (unat y)" using assms s1 b 2
      by (auto simp: scan_simps seq3_def split: if_splits)
    then show ?thesis using s1 s2 by blast
  next
    case 3
    then obtain y s2 where s2: "s1 = y # s2" using assms s1 b by (cases s1) (auto simp: scan_simps)
    then obtain z s3 where s3: "s2 = z # s3" using assms s1 b 3 by (cases s2) (auto simp: scan_simps)
    then have "seq4 (unat b) (unat x) (unat y) (unat z)" using assms s1 s2 b 3
      by (auto simp: scan_simps seq4_def split: if_splits)
    then show ?thesis using s1 s2 s3 by blast
  qed
qed

text \<open>The well-formed sequences are the encodings of the scalar values.\<close>

lemma dm64: "w < 64 \<Longrightarrow> c = 64 * q + w \<Longrightarrow> c div 64 = q \<and> c mod 64 = (w :: nat)"
  by simp

lemma seq2_utf8:
  "seq2 b x \<Longrightarrow> \<exists>c. scalar c \<and> 0x80 \<le> c \<and> utf8_bytes c = [b, x]"
proof -
  assume s: "seq2 b x"
  define u v where "u = b - 0xC0" and "v = x - 0x80"
  have e: "b = 0xC0 + u" "x = 0x80 + v" "2 \<le> u" "u < 32" "v < 64" using s by (auto simp: seq2_def u_def v_def)
  have "(64 * u + v) div 64 = u" "(64 * u + v) mod 64 = v" using e by simp_all
  then show ?thesis using e by (intro exI [of _ "64 * u + v"]) (simp add: scalar_def utf8_bytes_def)
qed

lemma seq3_utf8:
  "seq3 b x y \<Longrightarrow> \<exists>c. scalar c \<and> 0x80 \<le> c \<and> utf8_bytes c = [b, x, y]"
proof -
  assume s: "seq3 b x y"
  define u v w where "u = b - 0xE0" and "v = x - 0x80" and "w = y - 0x80"
  have e: "b = 0xE0 + u" "x = 0x80 + v" "y = 0x80 + w" "u < 16" "v < 64" "w < 64" "u = 0 \<longrightarrow> 32 \<le> v" "u = 13 \<longrightarrow> v < 32"
    using s by (auto simp: seq3_def u_def v_def w_def)
  define q where "q = 64 * u + v"
  define c where "c = 64 * q + w"
  have d: "c div 64 = q" "c mod 64 = w" "c div 4096 = u" "q mod 64 = v"
    using dm64 [OF e(6) c_def] dm64 [OF e(5) q_def] div_mult2_eq [of c 64 64] by simp_all
  have "scalar c" "0x800 \<le> c" "c < 0x10000"
    using e(4-8) unfolding scalar_def c_def q_def by (cases "u < 13"; cases "u = 13"; cases "u = 0"; simp)+
  then show ?thesis using e d by (intro exI [of _ c]) (simp add: utf8_bytes_def)
qed

lemma seq4_utf8:
  "seq4 b x y z \<Longrightarrow> \<exists>c. scalar c \<and> 0x80 \<le> c \<and> utf8_bytes c = [b, x, y, z]"
proof -
  assume s: "seq4 b x y z"
  define t u v w where "t = b - 0xF0" and "u = x - 0x80" and "v = y - 0x80" and "w = z - 0x80"
  have e: "b = 0xF0 + t" "x = 0x80 + u" "y = 0x80 + v" "z = 0x80 + w" "t \<le> 4" "u < 64" "v < 64" "w < 64"
      "t = 0 \<longrightarrow> 16 \<le> u" "t = 4 \<longrightarrow> u < 16"
    using s by (auto simp: seq4_def t_def u_def v_def w_def)
  define p where "p = 64 * t + u"
  define q where "q = 64 * p + v"
  define c where "c = 64 * q + w"
  have d: "c div 64 = q" "c mod 64 = w" "c div 4096 = p" "q mod 64 = v" "c div 262144 = t" "p mod 64 = u"
    using dm64 [OF e(8) c_def] dm64 [OF e(7) q_def] dm64 [OF e(6) p_def]
      div_mult2_eq [of c 64 64] div_mult2_eq [of c 4096 64] by simp_all
  have r: "0x10000 \<le> c" "c < 0x110000"
    using e(5-10) unfolding c_def q_def p_def by (cases "t = 0"; cases "t = 4"; simp)+
  then show ?thesis using e d by (intro exI [of _ c]) (simp add: utf8_bytes_def scalar_def)
qed

lemma utf8_seq:
  assumes "scalar c"
  shows "(c < 0x80 \<and> utf8_bytes c = [c]) \<or> (\<exists>b x. utf8_bytes c = [b, x] \<and> seq2 b x) \<or>
    (\<exists>b x y. utf8_bytes c = [b, x, y] \<and> seq3 b x y) \<or> (\<exists>b x y z. utf8_bytes c = [b, x, y, z] \<and> seq4 b x y z)"
proof -
  consider "c < 0x80" | "0x80 \<le> c" "c < 0x800" | "0x800 \<le> c" "c < 0x10000" | "0x10000 \<le> c" by linarith
  then show ?thesis
  proof cases
    case 3
    have "c div 4096 = 0 \<longrightarrow> 32 \<le> c div 64 mod 64" "c div 4096 = 13 \<longrightarrow> c div 64 mod 64 < 32" "c div 4096 < 16"
      using 3 assms digits_64(1,2) [of c] unfolding scalar_def by linarith+
    then show ?thesis using 3 by (auto simp: utf8_bytes_def seq3_def)
  next
    case 4
    have "c div 262144 = 0 \<longrightarrow> 16 \<le> c div 4096 mod 64" "c div 262144 = 4 \<longrightarrow> c div 4096 mod 64 < 16" "c div 262144 \<le> 4"
      using 4 assms digits_64 [of c] unfolding scalar_def by linarith+
    then show ?thesis using 4 by (auto simp: utf8_bytes_def seq4_def)
  qed (auto simp: utf8_bytes_def seq2_def)
qed

lemma seq_byte: "seq2 b x \<Longrightarrow> b < 256 \<and> x < 256"
  "seq3 b x y \<Longrightarrow> b < 256 \<and> x < 256 \<and> y < 256"
  "seq4 b x y z \<Longrightarrow> b < 256 \<and> x < 256 \<and> y < 256 \<and> z < 256"
  by (auto simp: seq2_def seq3_def seq4_def)

lemma scan_utf8:
  assumes "scalar c"
  shows "u8_isvalid_scan r (utf8_of c @ rest) = u8_isvalid_scan (if c < 0x80 then r else 2) rest"
  using utf8_seq [OF assms]
proof (elim disjE conjE exE)
  assume "c < 0x80" "utf8_bytes c = [c]"
  then show ?thesis by (simp add: utf8_of_def scan_ascii)
next
  fix b x assume a: "utf8_bytes c = [b, x]" "seq2 b x"
  then have "\<not> c < 0x80" by (auto simp: utf8_bytes_def)
  then show ?thesis using a seq_byte(1) [OF a(2)] scan_seq(1) [of "byte_of b" "byte_of x"] by (simp add: utf8_of_def)
next
  fix b x y assume a: "utf8_bytes c = [b, x, y]" "seq3 b x y"
  then have "\<not> c < 0x80" by (auto simp: utf8_bytes_def)
  then show ?thesis using a seq_byte(2) [OF a(2)] scan_seq(2) [of "byte_of b" "byte_of x" "byte_of y"] by (simp add: utf8_of_def)
next
  fix b x y z assume a: "utf8_bytes c = [b, x, y, z]" "seq4 b x y z"
  then have "\<not> c < 0x80" by (auto simp: utf8_bytes_def)
  then show ?thesis using a seq_byte(3) [OF a(2)] scan_seq(3) [of "byte_of b" "byte_of x" "byte_of y" "byte_of z"]
    by (simp add: utf8_of_def)
qed

lemma scan_decomp:
  assumes "u8_isvalid_scan r s \<noteq> 0" "s \<noteq> []"
  shows "\<exists>c rest. scalar c \<and> s = utf8_of c @ rest"
proof -
  obtain b s1 where s: "s = b # s1" using assms(2) by (cases s) auto
  show ?thesis
  proof (cases "unat b < 0x80")
    case True
    then have "scalar (unat b)" "s = utf8_of (unat b) @ s1" using s by (auto simp: scalar_def utf8_of_def utf8_bytes_def)
    then show ?thesis by blast
  next
    case False
    have "\<exists>c rest. scalar c \<and> map unat s = utf8_bytes c @ rest"
      using scan_cases [OF assms(1) [unfolded s] False] s
      by (auto dest!: seq2_utf8 seq3_utf8 seq4_utf8)
    then obtain c rest where c: "scalar c" "map unat s = utf8_bytes c @ rest" by blast
    then have "map byte_of (map unat s) = utf8_of c @ map byte_of rest" by (simp only: map_append utf8_of_def)
    then have "s = utf8_of c @ map byte_of rest" by (simp add: comp_def)
    then show ?thesis using c(1) by blast
  qed
qed

definition is_utf8 :: "u8 list \<Rightarrow> bool" where
  "is_utf8 s \<longleftrightarrow> (\<exists>cs. list_all scalar cs \<and> s = concat (map utf8_of cs))"

lemma scan_valid:
  assumes "0 < r"
  shows "(u8_isvalid_scan r s = r \<or> u8_isvalid_scan r s = 2 \<or> u8_isvalid_scan r s = 0) \<and>
    (u8_isvalid_scan r s \<noteq> 0 \<longleftrightarrow> is_utf8 s) \<and> (list_all (\<lambda>b. unat b < 0x80) s \<longrightarrow> u8_isvalid_scan r s = r) \<and>
    (\<not> list_all (\<lambda>b. unat b < 0x80) s \<longrightarrow> u8_isvalid_scan r s \<in> {0, 2})"
  using assms
proof (induction "length s" arbitrary: s r rule: less_induct)
  case less
  show ?case
  proof (cases "s = []")
    case True
    then show ?thesis using less.prems by (auto simp: is_utf8_def intro: exI [of _ "[]"])
  next
    case False
    show ?thesis
    proof (cases "\<exists>c rest. scalar c \<and> s = utf8_of c @ rest")
      case True
      then obtain c rest where c: "scalar c" "s = utf8_of c @ rest" by blast
      have l: "length rest < length s" using c(2) by simp
      have sc: "u8_isvalid_scan r s = u8_isvalid_scan (if c < 0x80 then r else 2) rest" using scan_utf8 [OF c(1)] c(2) by simp
      have asc: "list_all (\<lambda>b. unat b < 0x80) (utf8_of c) \<longleftrightarrow> c < 0x80"
        using c(1) by (auto simp: utf8_of_def utf8_bytes_def scalar_def)
      have v: "is_utf8 rest \<Longrightarrow> is_utf8 s"
      proof -
        assume "is_utf8 rest"
        then obtain cs where "list_all scalar cs" "rest = concat (map utf8_of cs)" by (auto simp: is_utf8_def)
        then show "is_utf8 s" unfolding is_utf8_def using c by (intro exI [of _ "c # cs"]) simp
      qed
      have w: "u8_isvalid_scan r s \<noteq> 0" if u: "is_utf8 s"
      proof -
        from u obtain cs where cs: "list_all scalar cs" "s = concat (map utf8_of cs)" by (auto simp: is_utf8_def)
        then obtain d ds where d: "cs = d # ds" using False by (cases cs) auto
        have "u8_isvalid_scan r s = u8_isvalid_scan (if d < 0x80 then r else 2) (concat (map utf8_of ds))"
          using scan_utf8 [of d r] cs d by simp
        moreover have "is_utf8 (concat (map utf8_of ds))" using cs(1) d by (auto simp: is_utf8_def)
        ultimately show ?thesis
          using less.hyps [of "concat (map utf8_of ds)" "if d < 0x80 then r else 2"] cs(2) d less.prems by auto
      qed
      have "0 < (if c < 0x80 then r else 2)" using less.prems by simp
      note ih = less.hyps [OF l this]
      show ?thesis using ih sc asc v w c(2) by auto
    next
      case no: False
      then have z: "u8_isvalid_scan r s = 0" using scan_decomp [of r s] False by blast
      have "\<not> is_utf8 s"
      proof
        assume "is_utf8 s"
        then obtain cs where cs: "list_all scalar cs" "s = concat (map utf8_of cs)" by (auto simp: is_utf8_def)
        then obtain d ds where "cs = d # ds" using False by (cases cs) auto
        then show False using no cs by auto
      qed
      moreover have "\<not> list_all (\<lambda>b. unat b < 0x80) s"
      proof
        assume a: "list_all (\<lambda>b. unat b < 0x80) s"
        obtain b s1 where s: "s = b # s1" using False by (cases s) auto
        then have "scalar (unat b)" "s = utf8_of (unat b) @ s1" using a by (auto simp: scalar_def utf8_of_def utf8_bytes_def)
        then show False using no by blast
      qed
      ultimately show ?thesis using z by simp
    qed
  qed
qed

text \<open>
  C12: \<open>u8_isvalid\<close> returns 1 exactly on ASCII strings (the empty string included), 2 exactly on
  the other strings that are the concatenation of the UTF-8 encodings of Unicode scalar values
  (no surrogates, no overlong forms, nothing above U+10FFFF), and 0 on all the rest.
\<close>

theorem u8_isvalid_correct:
  "u8_isvalid s = (if list_all (\<lambda>b. unat b < 0x80) s then 1 else if is_utf8 s then 2 else 0)"
  using scan_valid [of 1 s] by (auto simp: u8_isvalid_def)

section \<open>Whole strings\<close>

lemma u8_toutf8_loop_Cons:
  "u8_toutf8_loop sz (ch # src) dest =
     (if length dest + length (u8_wc_toutf8 ch) \<le> sz then u8_toutf8_loop sz src (dest @ u8_wc_toutf8 ch) else dest)"
  by (auto simp: u8_wc_toutf8_def)

lemma u8_toutf8_loop_prefix:
  "length dest \<le> sz \<Longrightarrow> \<exists>k \<le> length src. u8_toutf8_loop sz src dest = dest @ concat (map u8_wc_toutf8 (take k src)) \<and>
     length (u8_toutf8_loop sz src dest) \<le> sz \<and>
     (k < length src \<longrightarrow> sz < length dest + length (concat (map u8_wc_toutf8 (take (Suc k) src))))"
proof (induction src arbitrary: dest)
  case (Cons ch src)
  show ?case
  proof (cases "length dest + length (u8_wc_toutf8 ch) \<le> sz")
    case True
    let ?d = "dest @ u8_wc_toutf8 ch"
    have "length ?d \<le> sz" using True by simp
    from Cons.IH [OF this] obtain k where k: "k \<le> length src"
        "u8_toutf8_loop sz src ?d = ?d @ concat (map u8_wc_toutf8 (take k src))" "length (u8_toutf8_loop sz src ?d) \<le> sz"
        "k < length src \<longrightarrow> sz < length ?d + length (concat (map u8_wc_toutf8 (take (Suc k) src)))"
      by blast
    then show ?thesis using True unfolding u8_toutf8_loop_Cons by (intro exI [of _ "Suc k"]) auto
  next
    case False
    then show ?thesis using Cons.prems unfolding u8_toutf8_loop_Cons by (intro exI [of _ 0]) auto
  qed
qed simp

text \<open>
  C14: \<open>u8_toutf8\<close> never writes past its buffer: whatever the buffer size, what it writes is the
  encoding of whole leading characters, as many as fit.
\<close>

theorem u8_toutf8_bounded:
  "\<exists>k \<le> length src. u8_toutf8 sz src = concat (map u8_wc_toutf8 (take k src)) \<and> length (u8_toutf8 sz src) \<le> sz \<and>
     (k = length src \<or> sz < length (concat (map u8_wc_toutf8 (take (Suc k) src))))"
  using u8_toutf8_loop_prefix [of "[]" sz src] by (auto simp: u8_toutf8_def)

lemma isutf_lead: "c < 0x110000 \<Longrightarrow> isutf (hd (utf8_of c))"
  by (auto simp: isutf_iff utf8_of_def utf8_bytes_def)

lemma u8_toucs_loop_decodes:
  assumes "\<forall>c \<in> set cs. c < 0x110000" "length dest + length cs \<le> sz"
  shows "u8_toucs_loop sz (pre @ concat (map utf8_of cs) @ 0 # post) (length pre + length (concat (map utf8_of cs)))
           (length pre) dest = Inr (dest @ map of_nat cs)"
  using assms
proof (induction cs arbitrary: pre dest)
  case Nil
  have "trailingBytesForUTF8 ! 0 = 0" using trailing_eq [of 0] by simp
  then show ?case by (subst u8_toucs_loop.simps) (simp add: nth_append isutf_iff)
next
  case (Cons c cs)
  let ?tl = "concat (map utf8_of cs) @ 0 # post"
  let ?s = "pre @ concat (map utf8_of (c # cs)) @ 0 # post"
  let ?nb = "length (utf8_of c) - 1"
  have c: "c < 0x110000" using Cons.prems by simp
  obtain b bs where b: "utf8_of c = b # bs" using utf8_of_ne [of c] by (cases "utf8_of c") auto
  have nb: "trailingBytesForUTF8 ! unat b = ?nb" "?nb = length bs" "isutf b"
    using trailing_lead [OF c] isutf_lead [OF c] b by simp_all
  have g: "u8_gather ?s (length pre) ?nb 0 = Inr (foldl shift_in 0 (utf8_of c))"
    using u8_gather_bytes [of pre b bs ?tl 0] b nb(2) by simp
  have "u8_toucs_loop sz ?s (length pre + length (concat (map utf8_of (c # cs)))) (length pre) dest =
      u8_toucs_loop sz ?s (length pre + length (concat (map utf8_of (c # cs)))) (length pre + ?nb + 1)
        (dest @ [foldl shift_in 0 (utf8_of c) - offsetsFromUTF8 ! ?nb])"
    using Cons.prems nb g b by (subst u8_toucs_loop.simps) (simp add: nth_append Let_def)
  also have "\<dots> = Inr (dest @ map of_nat (c # cs))"
    using Cons.IH [of "dest @ [of_nat c]" "pre @ utf8_of c"] Cons.prems decode_utf8 [OF c] b nb(2) by (simp add: add.assoc)
  finally show ?case .
qed

text \<open>
  C15: converting characters to UTF-8 and back gives the characters, when both buffers are large
  enough and the bytes are followed by the string's terminator (which the decoder reads).
\<close>

theorem u8_toucs_toutf8:
  assumes "\<forall>ch \<in> set cs. ch < 0x110000" "length (concat (map u8_wc_toutf8 cs)) \<le> sz" "length cs \<le> wsz"
  shows "u8_toucs wsz (u8_toutf8 sz cs @ [0]) (length (u8_toutf8 sz cs)) = Inr cs"
proof -
  have e: "map u8_wc_toutf8 cs = map utf8_of (map unat cs)"
    using assms(1) u8_wc_toutf8_eq by (simp add: word_less_nat_alt)
  obtain k where k: "k \<le> length cs" "u8_toutf8 sz cs = concat (map u8_wc_toutf8 (take k cs))"
      "k < length cs \<longrightarrow> sz < length (concat (map u8_wc_toutf8 (take (Suc k) cs)))"
    using u8_toutf8_loop_prefix [of "[]" sz cs] by (auto simp: u8_toutf8_def)
  have "length (concat (map u8_wc_toutf8 (take j cs))) \<le> length (concat (map u8_wc_toutf8 cs))" for j
  proof -
    have "concat (map u8_wc_toutf8 cs) = concat (map u8_wc_toutf8 (take j cs)) @ concat (map u8_wc_toutf8 (drop j cs))"
      by (simp flip: concat_append map_append)
    then show ?thesis by simp
  qed
  from this [of "Suc k"] have "k = length cs" using k(1,3) assms(2) by linarith
  then have s: "u8_toutf8 sz cs = concat (map utf8_of (map unat cs))" using k(2) e by simp
  show ?thesis
  proof (cases "cs = []")
    case False
    then have "u8_toutf8 sz cs \<noteq> []" "wsz \<noteq> 0" using s assms(3) by (cases cs; auto)+
    moreover have "\<forall>c \<in> set (map unat cs). c < 0x110000" using assms(1) by (auto simp: word_less_nat_alt)
    ultimately show ?thesis
      using u8_toucs_loop_decodes [of "map unat cs" "[]" wsz "[]" "[]"] s assms(3) by (simp add: u8_toucs_def comp_def)
  qed (use s in \<open>simp add: u8_toucs_def\<close>)
qed

theorem u8_toucs_toutf8_witness:
  "u8_toucs 2 (u8_toutf8 10 [0x61, 0x20AC] @ [0]) (length (u8_toutf8 10 [0x61, 0x20AC])) = Inr [0x61, 0x20AC]"
  by (rule u8_toucs_toutf8) (simp_all add: u8_wc_toutf8_def)

section \<open>Character numbers and byte offsets\<close>

text \<open>Two valid strings differ in their lead bytes: what follows a character starts a sequence.\<close>

lemma isutf_next: "\<forall>c \<in> set cs. c < 0x110000 \<Longrightarrow> isutf ((concat (map utf8_of cs) @ 0 # post) ! 0)"
proof (cases cs)
  case (Cons c cs')
  moreover assume "\<forall>c \<in> set cs. c < 0x110000"
  ultimately show ?thesis using isutf_lead [of c] utf8_of_ne [of c] by (simp add: nth_append hd_conv_nth)
qed (simp add: isutf_iff)

lemma utf8_shape:
  assumes "c < 0x110000"
  obtains b where "utf8_of c = [b]" "unat b < 128"
  | b x where "utf8_of c = [b, x]" "192 \<le> unat b" "\<not> isutf x"
  | b x y where "utf8_of c = [b, x, y]" "192 \<le> unat b" "\<not> isutf x" "\<not> isutf y"
  | b x y z where "utf8_of c = [b, x, y, z]" "192 \<le> unat b" "\<not> isutf x" "\<not> isutf y" "\<not> isutf z"
proof -
  have m: "0x80 + k mod 64 < 256" "\<not> isutf (byte_of (0x80 + k mod 64))" for k
  proof -
    have "k mod 64 < 64" by simp
    then show "0x80 + k mod 64 < 256" "\<not> isutf (byte_of (0x80 + k mod 64))" by (auto simp: isutf_iff)
  qed
  consider "c < 0x80" | "0x80 \<le> c" "c < 0x800" | "0x800 \<le> c" "c < 0x10000" | "0x10000 \<le> c" by linarith
  then show thesis
  proof cases
    case 1
    then show ?thesis using that(1) by (simp add: utf8_of_def utf8_bytes_def)
  next
    case 2
    then show ?thesis using that(2) [of "byte_of (0xC0 + c div 64)" "byte_of (0x80 + c mod 64)"] m
      by (simp add: utf8_of_def utf8_bytes_def)
  next
    case 3
    then show ?thesis using that(3) [of "byte_of (0xE0 + c div 4096)" "byte_of (0x80 + c div 64 mod 64)" "byte_of (0x80 + c mod 64)"] m
      by (simp add: utf8_of_def utf8_bytes_def)
  next
    case 4
    then show ?thesis
      using assms m that(4) [of "byte_of (0xF0 + c div 262144)" "byte_of (0x80 + c div 4096 mod 64)" "byte_of (0x80 + c div 64 mod 64)" "byte_of (0x80 + c mod 64)"]
      by (simp add: utf8_of_def utf8_bytes_def)
  qed
qed

lemma u8_offset_char:
  assumes "c < 0x110000" "isutf (rest ! 0)" "rest \<noteq> []"
  shows "u8_offset_loop (pre @ utf8_of c @ rest) (Suc n) (length pre) =
    u8_offset_loop (pre @ utf8_of c @ rest) n (length pre + length (utf8_of c))"
proof -
  obtain r rs where r: "rest = r # rs" "isutf r" using assms(2,3) by (cases rest) auto
  have hb: "192 \<le> unat b \<Longrightarrow> b AND 0x80 \<noteq> 0" for b :: u8 using high_bit_iff [of b] by linarith
  show ?thesis
    by (rule utf8_shape [OF assms(1)]) (use r hb high_bit_iff in \<open>simp_all add: nth_append numeral_eq_Suc\<close>)
qed

lemma u8_charnum_char:
  assumes "c < 0x110000"
  shows "u8_charnum (utf8_of c @ rest) (length (utf8_of c) + n) = rbind (u8_charnum rest n) (\<lambda>m. Inr (Suc m))"
proof -
  have lead: "192 \<le> unat b \<Longrightarrow> b AND 0xC0 \<noteq> 0x80" "unat b < 128 \<Longrightarrow> b AND 0xC0 \<noteq> 0x80" for b :: u8
    using isutf_iff [of b] by (auto simp: isutf_def)
  have cb: "\<not> isutf x \<Longrightarrow> u8_charnum (x # s) (Suc k) = u8_charnum s k" for x s k
    by (cases "u8_charnum s k") (auto simp: isutf_def)
  show ?thesis
    by (rule utf8_shape [OF assms]) (use lead cb in \<open>simp_all del: u8_charnum.simps(3)\<close>, simp_all)
qed

lemma u8_offset_chars:
  assumes "\<forall>c \<in> set cs. c < 0x110000" "k \<le> length cs"
  shows "u8_offset_loop (pre @ concat (map utf8_of cs) @ 0 # post) k (length pre) =
    Inr (length pre + length (concat (map utf8_of (take k cs))))"
  using assms
proof (induction cs arbitrary: pre k)
  case (Cons c cs)
  show ?case
  proof (cases k)
    case (Suc j)
    let ?rest = "concat (map utf8_of cs) @ 0 # post"
    have "u8_offset_loop (pre @ utf8_of c @ ?rest) (Suc j) (length pre) =
        u8_offset_loop (pre @ utf8_of c @ ?rest) j (length pre + length (utf8_of c))"
      using u8_offset_char [of c ?rest pre j] isutf_next [of cs post] Cons.prems by simp
    then show ?thesis using Cons.IH [of j "pre @ utf8_of c"] Cons.prems Suc by simp
  qed simp
qed simp

lemma u8_charnum_chars:
  assumes "\<forall>c \<in> set cs. c < 0x110000" "k \<le> length cs"
  shows "u8_charnum (concat (map utf8_of cs) @ post) (length (concat (map utf8_of (take k cs)))) = Inr k"
  using assms
proof (induction cs arbitrary: k)
  case (Cons c cs)
  then show ?case by (cases k) (simp_all add: u8_charnum_char)
qed simp

text \<open>
  On the encoding of any characters, \<open>u8_offset\<close> gives the byte offset of the \<open>k\<close>-th character
  (reading no further than the terminator), and \<open>u8_charnum\<close> turns that offset back into \<open>k\<close>.
\<close>

theorem u8_offset_charnum:
  assumes "\<forall>ch \<in> set cs. ch < 0x110000" "k \<le> length cs"
  shows "u8_offset (concat (map u8_wc_toutf8 cs) @ [0]) k = Inr (length (concat (map u8_wc_toutf8 (take k cs)))) \<and>
    u8_charnum (concat (map u8_wc_toutf8 cs) @ [0]) (length (concat (map u8_wc_toutf8 (take k cs)))) = Inr k"
proof -
  have e: "map u8_wc_toutf8 (take j cs) = map utf8_of (take j (map unat cs))" for j
    using assms(1) u8_wc_toutf8_eq by (auto simp: word_less_nat_alt take_map dest: in_set_takeD)
  have c: "\<forall>c \<in> set (map unat cs). c < 0x110000" using assms(1) by (auto simp: word_less_nat_alt)
  have f: "map u8_wc_toutf8 cs = map utf8_of (map unat cs)" using e [of "length cs"] by (simp only: take_all length_map le_refl)
  show ?thesis
    using u8_offset_chars [OF c, of k "[]" "[]"] u8_charnum_chars [OF c, of k "[0]"] assms(2)
    unfolding e f u8_offset_def by simp
qed

theorem u8_offset_charnum_witness:
  "u8_offset (concat (map u8_wc_toutf8 [0x20AC, 0x61]) @ [0]) 1 = Inr (length (concat (map u8_wc_toutf8 (take 1 [0x20AC, 0x61])))) \<and>
    u8_charnum (concat (map u8_wc_toutf8 [0x20AC, 0x61]) @ [0]) (length (concat (map u8_wc_toutf8 (take 1 [0x20AC, 0x61])))) = Inr 1"
  by (rule u8_offset_charnum) simp_all

section \<open>Escaping\<close>

lemma hex_char_props: "d < 16 \<Longrightarrow> hex_digit (hex_char d) \<and> digit_value (hex_char d) = d"
proof -
  have "\<forall>d \<in> set [0 ..< 16]. hex_digit (hex_char d) \<and> digit_value (hex_char d) = d" by code_simp
  then show "d < 16 \<Longrightarrow> hex_digit (hex_char d) \<and> digit_value (hex_char d) = d" by simp
qed

lemma hex_digits_props: "length (hex_digits w n) = w" "list_all hex_digit (hex_digits w n)"
  by (induction w arbitrary: n) (auto simp: hex_char_props)

lemma strtol_hex_digits: "n < 16 ^ w \<Longrightarrow> strtol 16 (hex_digits w n) = n"
proof (induction w arbitrary: n)
  case (Suc w)
  then have "n div 16 < 16 ^ w" by (simp add: div_less_iff_less_mult mult.commute)
  then have "foldl (\<lambda>v c. 16 * v + digit_value c) 0 (hex_digits w (n div 16)) = n div 16" using Suc.IH by (simp add: strtol_def)
  then show ?case by (simp add: strtol_def hex_char_props)
qed (simp add: strtol_def)

lemma u8_digits_all:
  "list_all P ds \<Longrightarrow> u8_digits P (pre @ ds @ post) (length pre + length ds + k) (length ds) (length pre) = Inr ds"
proof (induction ds arbitrary: pre)
  case (Cons d ds)
  then show ?case using Cons.IH [of "pre @ [d]"] by (simp add: nth_append)
qed simp

lemma read_hex_escape:
  assumes "(l, w) \<in> {(CHR ''x'', 2), (CHR ''u'', 4), (CHR ''U'', 8)}" "n < 16 ^ w"
  shows "u8_read_escape_sequence ((chr l # hex_digits w n) @ tail) (Suc w + length tail) = Inr (Some (of_nat n, Suc w))"
proof -
  have o: "\<not> octal_digit (chr l)" "(if chr l = chr CHR ''x'' then 2 else if chr l = chr CHR ''u'' then 4
        else if chr l = chr CHR ''U'' then 8 else 0) = w" "w \<noteq> 0"
    using assms(1) by (auto simp: octal_digit_def chr_def)
  have "u8_digits hex_digit ([chr l] @ hex_digits w n @ tail) (length [chr l] + length (hex_digits w n) + length tail)
      (length (hex_digits w n)) (length [chr l]) = Inr (hex_digits w n)"
    by (rule u8_digits_all) (rule hex_digits_props)
  moreover have "hex_digits w n \<noteq> []" using o(3) hex_digits_props(1) [of w n] by auto
  ultimately show ?thesis
    using o strtol_hex_digits [OF assms(2)] by (simp add: u8_read_escape_sequence_def Let_def hex_digits_props(1))
qed

text \<open>
  The three ways \<open>u8_escape_wchar\<close> writes a character: a letter for the nine characters with a
  name, hexadecimal digits for the other ones outside printable ASCII, and the character itself.
\<close>

abbreviation named_escapes :: "(u32 \<times> char) set" where
  "named_escapes \<equiv> {(0x0A, CHR ''n''), (0x09, CHR ''t''), (0x0D, CHR ''r''), (0x1B, CHR ''e''), (0x08, CHR ''b''),
    (0x0C, CHR ''f''), (0x0B, CHR ''v''), (0x07, CHR ''a''), (0x5C, CHR 0x5C)}"

lemma fst_image_pair: "x \<in> fst ` A \<Longrightarrow> \<exists>y. (x, y) \<in> A"
  by force

lemma escape_named:
  assumes "2 < sz" "(ch, l) \<in> named_escapes"
  shows "u8_escape_wchar sz ch = Inr ([chr CHR 0x5C, chr l], 2)"
    "u8_read_escape_sequence (chr l # tail) (Suc (length tail)) = Inr (Some (ch, 1))"
proof -
  note defs = u8_escape_wchar_def u8_read_escape_sequence_def Let_def octal_digit_def chr_def read_escape_control_char_def
  show "u8_escape_wchar sz ch = Inr ([chr CHR 0x5C, chr l], 2)"
    using assms(2) by (elim insertE emptyE) (simp_all add: assms(1) defs)
  show "u8_read_escape_sequence (chr l # tail) (Suc (length tail)) = Inr (Some (ch, 1))"
    using assms(2) by (elim insertE emptyE) (simp_all add: defs)
qed

lemma escape_hex:
  assumes "2 < sz" "ch \<notin> fst ` named_escapes" "\<not> (32 \<le> ch \<and> ch < 0x7F)"
  obtains l w where "(l, w) \<in> {(CHR ''x'', 2), (CHR ''u'', 4), (CHR ''U'', 8)}" "unat ch < 16 ^ w"
    "u8_escape_wchar sz ch = Inr (snprintf_hex sz l w (unat ch))"
proof -
  note ord = word_less_nat_alt [of ch] word_less_nat_alt [of _ ch] word_le_nat_alt [of _ ch]
  have ub: "unat ch < 2 ^ 32" using unsigned_less [of ch] by simp
  have c8: "unat (ucast ch :: u8) = unat ch" if "unat ch < 256" using that by (simp add: unat_ucast_small)
  have c16: "unat (ucast ch :: u16) = unat ch" if "unat ch < 65536" using that by (simp add: unat_ucast_small)
  have "unat ch < 32 \<or> unat ch = 127 \<or> 128 \<le> unat ch" using assms(3) by (auto simp: ord word_unat_eq_iff)
  then consider "ch < 32 \<or> ch = 0x7F" | "ch > 0xFFFF" | "\<not> (ch < 32 \<or> ch = 0x7F)" "0x80 \<le> ch" "\<not> ch > 0xFFFF"
    by (auto simp: ord word_unat_eq_iff)
  then show thesis
  proof cases
    case 1
    then have "unat ch < 256" by (auto simp: ord)
    then show thesis using 1 assms(1,2) c8 by (intro that [of "CHR ''x''" 2]) (auto simp: u8_escape_wchar_def)
  next
    case 2
    then have "\<not> (ch < 32 \<or> ch = 0x7F)" by (auto simp: ord)
    then show thesis using 2 assms(1,2) ub by (intro that [of "CHR ''U''" 8]) (auto simp: u8_escape_wchar_def)
  next
    case 3
    then have "unat ch < 65536" by (auto simp: ord)
    then show thesis using 3 assms(1,2) c16 by (intro that [of "CHR ''u''" 4]) (auto simp: u8_escape_wchar_def)
  qed
qed

lemma escape_printable:
  "2 < sz \<Longrightarrow> 32 \<le> ch \<Longrightarrow> ch < 0x7F \<Longrightarrow> ch \<noteq> 0x5C \<Longrightarrow> u8_escape_wchar sz ch = Inr ([ucast ch], 1)"
  by (auto simp: u8_escape_wchar_def word_less_nat_alt word_le_nat_alt word_unat_eq_iff)

text \<open>
  C16: reading an escape sequence inverts writing one: for every character \<open>u8_escape_wchar\<close> does
  not print verbatim, what it writes is a backslash and a sequence that
  \<open>u8_read_escape_sequence\<close> reads back as that character, consuming exactly that sequence
  whatever text follows; the characters it prints verbatim are the printable ASCII ones.
\<close>

theorem u8_escape_roundtrip:
  assumes "sz \<ge> 11"
  shows "\<exists>out. u8_escape_wchar sz ch = Inr (out, length out) \<and> length out < sz \<and>
    (if 32 \<le> ch \<and> ch < 0x7F \<and> ch \<noteq> 0x5C then out = [ucast ch]
     else out = chr CHR 0x5C # tl out \<and>
       u8_read_escape_sequence (tl out @ text) (length (tl out) + length text) = Inr (Some (ch, length (tl out))))"
proof -
  have sz: "2 < sz" using assms by simp
  consider "32 \<le> ch" "ch < 0x7F" "ch \<noteq> 0x5C" | "ch \<in> fst ` named_escapes"
    | "ch \<notin> fst ` named_escapes" "\<not> (32 \<le> ch \<and> ch < 0x7F)" by auto
  then show ?thesis
  proof cases
    case 1
    then show ?thesis using assms by (simp add: escape_printable)
  next
    case 2
    then have "\<not> (32 \<le> ch \<and> ch < 0x7F \<and> ch \<noteq> 0x5C)" by auto
    moreover obtain l where l: "(ch, l) \<in> named_escapes" using fst_image_pair [OF 2] ..
    ultimately show ?thesis using assms escape_named(1) [OF sz l] escape_named(2) [OF sz l, of "text"] by simp
  next
    case 3
    obtain l w where lw: "(l, w) \<in> {(CHR ''x'', 2), (CHR ''u'', 4), (CHR ''U'', 8)}" "unat ch < 16 ^ w"
      "u8_escape_wchar sz ch = Inr (snprintf_hex sz l w (unat ch))" using sz 3 by (rule escape_hex)
    have w: "w \<le> 8" using lw(1) by auto
    then have "snprintf_hex sz l w (unat ch) = (chr CHR 0x5C # chr l # hex_digits w (unat ch), Suc (Suc w))"
      using assms by (simp add: snprintf_hex_def Let_def hex_digits_props(1))
    then show ?thesis using 3 lw(3) w assms read_hex_escape [OF lw(1,2), of "text"]
      by (intro exI [of _ "chr CHR 0x5C # chr l # hex_digits w (unat ch)"]) (simp add: hex_digits_props(1))
  qed
qed

theorem u8_escape_roundtrip_witness:
  "\<exists>out. u8_escape_wchar 11 0x20AC = Inr (out, length out) \<and> length out < 11 \<and> out = chr CHR 0x5C # tl out \<and>
     u8_read_escape_sequence (tl out @ [0x61]) (length (tl out) + length [0x61 :: u8]) = Inr (Some (0x20AC, length (tl out)))"
  using u8_escape_roundtrip [of 11 "0x20AC" "[0x61]"] by simp

end
