(* ===== verification/Probing.thy ===== *)
theory Probing
  imports Prelude
begin

text \<open>
  Open addressing, shared by the runtime's three hash tables: \<open>smallintset.c\<close> and
  \<open>iddict.c\<close> probe linearly, \<open>support/htable.inc\<close> triangularly.  A table is a list of
  cells; the probe sequence of a hash value is the list of the slots that the do-while
  loop of the C code visits.  The locale \<open>probe_seq\<close> states what the tables rely on (probes
  stay in range, a large enough table offers more distinct slots than there are entries)
  and proves once that look-ups are complete for well-placed cells and that inserting in
  the first free slot and leaving tombstones keep cells well placed.
\<close>

section \<open>Probe sequences\<close>

text \<open>
  The slots visited by
  \<open>do { visit index; iter++; index = next; } while (iter <= maxprobe && index != orig)\<close>,
  where \<open>nxt\<close> computes the next index from the incremented counter.
\<close>

function probe_path :: "(nat \<Rightarrow> nat \<Rightarrow> nat) \<Rightarrow> nat \<Rightarrow> nat \<Rightarrow> nat \<Rightarrow> nat \<Rightarrow> nat list" where
  "probe_path nxt maxprobe orig iter index =
     index # (let index' = nxt (Suc iter) index in
              if Suc iter \<le> maxprobe \<and> index' \<noteq> orig
              then probe_path nxt maxprobe orig (Suc iter) index' else [])"
  by pat_completeness auto
termination
  by (relation "measure (\<lambda>(nxt, maxprobe, orig, iter, index). maxprobe - iter)") auto

declare probe_path.simps [simp del]

lemma probe_path_Cons: "\<exists>rest. probe_path nxt maxprobe orig iter index = index # rest"
  by (subst probe_path.simps) simp

lemma probe_path_in_range:
  assumes "index < n" "\<And>j i. i < n \<Longrightarrow> nxt j i < n"
  shows "set (probe_path nxt maxprobe orig iter index) \<subseteq> {..<n}"
  using assms
proof (induction nxt maxprobe orig iter index rule: probe_path.induct)
  case (1 nxt maxprobe orig iter index)
  then show ?case by (subst probe_path.simps) (auto simp: Let_def)
qed

lemma probe_path_initial:
  assumes "\<And>j. iter < j \<Longrightarrow> j < iter + d \<Longrightarrow> j \<le> maxprobe \<and> f j \<noteq> orig"
    and "\<And>j. nxt (Suc j) (f j) = f (Suc j)" and "0 < d"
  shows "map f [iter ..< iter + d] =
    take d (probe_path nxt maxprobe orig iter (f iter))"
  using assms(1,3)
proof (induction d arbitrary: iter)
  case (Suc d)
  show ?case
  proof (cases d)
    case 0
    then show ?thesis using probe_path_Cons [of nxt maxprobe orig iter "f iter"] by auto
  next
    case (Suc e)
    have "map f [Suc iter ..< Suc iter + d] =
        take d (probe_path nxt maxprobe orig (Suc iter) (f (Suc iter)))"
      using Suc.IH [of "Suc iter"] Suc.prems(1) \<open>d = Suc e\<close> by force
    moreover have "Suc iter \<le> maxprobe \<and> f (Suc iter) \<noteq> orig"
      using Suc.prems(1) [of "Suc iter"] \<open>d = Suc e\<close> by simp
    moreover have "[iter ..< iter + Suc d] = iter # [Suc iter ..< Suc iter + d]"
      by (simp add: upt_rec)
    ultimately show ?thesis
      by (subst probe_path.simps) (simp add: assms(2) Let_def)
  qed
qed simp

lemma card_probe_path:
  assumes "\<And>j. 0 < j \<Longrightarrow> j < d \<Longrightarrow> j \<le> maxprobe \<and> f j \<noteq> f 0"
    and "\<And>j. nxt (Suc j) (f j) = f (Suc j)" and "inj_on f {..<d}"
  shows "d \<le> card (set (probe_path nxt maxprobe (f 0) 0 (f 0)))"
proof (cases "d = 0")
  case False
  have "map f [0 ..< d] = take d (probe_path nxt maxprobe (f 0) 0 (f 0))"
    using probe_path_initial [of 0 d maxprobe f "f 0" nxt] assms(1,2) False by auto
  then have "f ` {..<d} \<subseteq> set (probe_path nxt maxprobe (f 0) 0 (f 0))"
    by (metis atLeast_upt list.set_map set_take_subset)
  then have "card (f ` {..<d}) \<le> card (set (probe_path nxt maxprobe (f 0) 0 (f 0)))"
    by (rule card_mono [OF finite_set])
  then show ?thesis by (simp add: card_image assms(3))
qed simp

section \<open>Masked indices\<close>

text \<open>\<open>hv & (sz - 1)\<close> for a power of two \<open>sz\<close>.\<close>

definition mask_index :: "u64 \<Rightarrow> nat \<Rightarrow> nat" where
  "mask_index hv sz = unat (hv AND (of_nat sz - 1))"

definition pow2 :: "nat \<Rightarrow> bool" where
  "pow2 n \<longleftrightarrow> (\<exists>k < 64. n = 2 ^ k)"

lemma pow2_pos: "pow2 n \<Longrightarrow> 0 < n"
  by (auto simp: pow2_def)

lemma pow2_lt: "pow2 n \<Longrightarrow> n < 2 ^ 64"
  using power_strict_increasing [of _ 64 "2::nat"] by (auto simp: pow2_def)

lemma mask_index_mod:
  assumes "pow2 sz"
  shows "mask_index hv sz = unat hv mod sz"
proof -
  obtain k where k: "k < 64" "sz = 2 ^ k" using assms by (auto simp: pow2_def)
  have "hv AND (of_nat sz - 1) = take_bit k hv"
    by (simp add: take_bit_eq_mask mask_eq_exp_minus_1 k)
  then show ?thesis by (simp add: mask_index_def k unsigned_take_bit_eq take_bit_nat_def)
qed

lemma mask_index_lt: "pow2 sz \<Longrightarrow> mask_index hv sz < sz"
  by (simp add: mask_index_mod pow2_pos)

lemma mask_index_of_nat:
  assumes "pow2 sz"
  shows "mask_index (of_nat m) sz = m mod sz"
proof -
  obtain k where k: "k < 64" "sz = 2 ^ k" using assms by (auto simp: pow2_def)
  have "unat (of_nat m :: u64) mod sz = m mod sz"
    using mod_mod_cancel [OF le_imp_power_dvd [OF less_imp_le [OF k(1)]], of m 2]
    by (simp add: unsigned_of_nat take_bit_nat_def k(2))
  then show ?thesis by (simp add: mask_index_mod [OF assms])
qed

section \<open>Scanning a probe sequence\<close>

text \<open>The first slot on the path that satisfies \<open>hit\<close>, unless a vacant slot comes first.\<close>

fun scan :: "('c \<Rightarrow> bool) \<Rightarrow> ('c \<Rightarrow> bool) \<Rightarrow> 'c list \<Rightarrow> nat list \<Rightarrow> nat option" where
  "scan vacant hit cs [] = None"
| "scan vacant hit cs (i # is) =
     (if vacant (cs ! i) then None else if hit (cs ! i) then Some i else scan vacant hit cs is)"

text \<open>Slot \<open>i\<close> is reached on path \<open>p\<close> before any vacant slot.\<close>

definition reach :: "('c \<Rightarrow> bool) \<Rightarrow> 'c list \<Rightarrow> nat list \<Rightarrow> nat \<Rightarrow> bool" where
  "reach vacant cs p i \<longleftrightarrow> (\<exists>pre post. p = pre @ i # post \<and> (\<forall>j \<in> set pre. \<not> vacant (cs ! j)))"

lemma scan_sound:
  "scan vacant hit cs p = Some i \<Longrightarrow> i \<in> set p \<and> hit (cs ! i) \<and> \<not> vacant (cs ! i)"
  by (induction p) (auto split: if_splits)

lemma scan_append:
  "\<forall>j \<in> set pre. \<not> vacant (cs ! j) \<Longrightarrow>
   scan vacant hit cs (pre @ p) =
     (case scan vacant hit cs pre of None \<Rightarrow> scan vacant hit cs p | Some i \<Rightarrow> Some i)"
  by (induction pre) auto

lemma scan_reach:
  assumes "reach vacant cs p i" "\<not> vacant (cs ! i)" "hit (cs ! i)"
  shows "\<exists>j. scan vacant hit cs p = Some j"
proof -
  obtain pre post where p: "p = pre @ i # post" "\<forall>j \<in> set pre. \<not> vacant (cs ! j)"
    using assms(1) by (auto simp: reach_def)
  then show ?thesis
    using assms(2,3) by (cases "scan vacant hit cs pre") (simp_all add: scan_append)
qed

lemma find_free_reach:
  assumes "find (\<lambda>j. free (cs ! j)) p = Some i" "\<And>c. vacant c \<Longrightarrow> free c"
  shows "reach vacant cs p i"
proof -
  obtain m where m: "m < length p" "i = p ! m" "\<forall>j < m. \<not> free (cs ! (p ! j))"
    using assms(1) by (auto simp: find_Some_iff)
  have "p = take m p @ i # drop (Suc m) p" using m by (simp add: id_take_nth_drop)
  moreover have "\<forall>j \<in> set (take m p). \<not> vacant (cs ! j)"
    using m(3) assms(2) by (fastforce simp: in_set_conv_nth)
  ultimately show ?thesis unfolding reach_def by blast
qed

lemma reach_update:
  "reach vacant cs p i \<Longrightarrow> \<not> vacant c \<Longrightarrow> reach vacant (cs[j := c]) p i"
  unfolding reach_def by (metis list_update_beyond not_less nth_list_update)

section \<open>Well-placed cells\<close>

text \<open>
  \<open>hs c\<close> is the hash value under which a look-up may ask for the cell \<open>c\<close>, \<open>None\<close> for a
  vacant cell or a tombstone.  Every cell that may be asked for is reached on the path of
  its hash value.
\<close>

definition placed :: "('c \<Rightarrow> bool) \<Rightarrow> (u64 \<Rightarrow> nat list) \<Rightarrow> ('c \<Rightarrow> u64 option) \<Rightarrow> 'c list \<Rightarrow> bool" where
  "placed vacant path hs cs \<longleftrightarrow>
     (\<forall>i < length cs. \<forall>h. hs (cs ! i) = Some h \<longrightarrow> reach vacant cs (path h) i)"

locale probe_seq =
  fixes valid :: "nat \<Rightarrow> bool"
    and path :: "nat \<Rightarrow> u64 \<Rightarrow> nat list"
    and room :: "nat \<Rightarrow> nat"
  assumes path_range: "valid n \<Longrightarrow> i \<in> set (path n h) \<Longrightarrow> i < n"
    and path_wide: "valid n \<Longrightarrow> room m \<le> n \<Longrightarrow> m < card (set (path n h))"
begin

lemma placed_insert:
  assumes "placed vacant (path (length cs)) hs cs" "\<not> vacant c"
    and "\<And>h. hs c = Some h \<Longrightarrow> reach vacant cs (path (length cs) h) i"
  shows "placed vacant (path (length cs)) hs (cs[i := c])"
  unfolding placed_def
proof (intro allI impI)
  fix j h
  assume j: "j < length (cs[i := c])" and h: "hs (cs[i := c] ! j) = Some h"
  show "reach vacant (cs[i := c]) (path (length cs) h) j"
  proof (rule reach_update)
    show "\<not> vacant c" by (rule assms(2))
    show "reach vacant cs (path (length cs) h) j"
      using assms j h by (cases "i = j") (auto simp: placed_def)
  qed
qed

lemma placed_vacant:
  "(\<And>i. i < length cs \<Longrightarrow> hs (cs ! i) = None) \<Longrightarrow> placed vacant (path n) hs cs"
  by (simp add: placed_def)

lemma lookup_sound:
  assumes "scan vacant hit cs (path (length cs) h) = Some i" "valid (length cs)"
  shows "i < length cs" "hit (cs ! i)" "\<not> vacant (cs ! i)"
  using scan_sound [OF assms(1)] path_range assms(2) by blast+

lemma lookup_complete:
  assumes "placed vacant (path (length cs)) hs cs"
    and "i < length cs" "hs (cs ! i) = Some h" "hit (cs ! i)" "\<not> vacant (cs ! i)"
  shows "\<exists>j. scan vacant hit cs (path (length cs) h) = Some j"
  by (rule scan_reach) (use assms in \<open>auto simp: placed_def\<close>)

lemma free_slot:
  assumes "valid (length cs)" "room m \<le> length cs"
    and "length (filter (\<lambda>c. \<not> free c) cs) \<le> m"
  shows "\<exists>i. find (\<lambda>j. free (cs ! j)) (path (length cs) h) = Some i"
proof -
  let ?p = "path (length cs) h" and ?B = "{i. i < length cs \<and> \<not> free (cs ! i)}"
  have "card ?B < card (set ?p)"
    using path_wide [OF assms(1,2), of h] assms(3) length_filter_conv_card [of "\<lambda>c. \<not> free c" cs]
    by simp
  then have "\<not> set ?p \<subseteq> ?B" using card_mono [of ?B "set ?p"] by force
  then obtain j where j: "j \<in> set ?p" "free (cs ! j)" using path_range [OF assms(1)] by blast
  then have "find (\<lambda>j. free (cs ! j)) ?p \<noteq> None" by (auto simp: find_None_iff)
  then show ?thesis by blast
qed

lemma find_free_range:
  assumes "valid (length cs)" "find (\<lambda>j. free (cs ! j)) (path (length cs) h) = Some i"
  shows "i < length cs" "free (cs ! i)"
proof -
  have "i \<in> set (path (length cs) h) \<and> free (cs ! i)" using assms(2) by (auto simp: find_Some_iff)
  then show "i < length cs" "free (cs ! i)" using path_range [OF assms(1)] by blast+
qed

end

section \<open>Linear probing\<close>

text \<open>
  \<open>max_probe\<close> of \<open>smallintset.c\<close> and \<open>iddict.c\<close>.
\<close>

definition max_probe :: "nat \<Rightarrow> nat" where
  "max_probe sz = (if sz \<le> 1024 then 16 else sz div 2 ^ 6)"

lemma linear_card:
  assumes "2 \<le> n" "d \<le> n" "d \<le> Suc maxprobe" "h < n"
  shows "d \<le> card (set (probe_path (\<lambda>_ i. (i + 1) mod n) maxprobe h 0 h))"
proof -
  let ?f = "\<lambda>j. (h + j) mod n"
  have inj: "inj_on ?f {..<n}"
  proof (rule inj_onI)
    fix i j assume "i \<in> {..<n}" "j \<in> {..<n}" "?f i = ?f j"
    then show "i = j"
      using assms(4) by (auto simp: mod_if split: if_splits)
  qed
  have "d \<le> card (set (probe_path (\<lambda>_ i. (i + 1) mod n) maxprobe (?f 0) 0 (?f 0)))"
  proof (rule card_probe_path)
    show "j \<le> maxprobe \<and> ?f j \<noteq> ?f 0" if "0 < j" "j < d" for j
      using that assms inj_onD [OF inj, of j 0] by auto
    show "(?f j + 1) mod n = ?f (Suc j)" for j by (simp add: mod_Suc_eq)
    show "inj_on ?f {..<d}" using inj by (rule inj_on_subset) (use assms in auto)
  qed
  then show ?thesis using assms by simp
qed

text \<open>A size at which \<open>m\<close> entries cannot fill a probe sequence.\<close>

definition linear_room :: "nat \<Rightarrow> nat" where
  "linear_room m = (if m < 16 then m + 2 else max 2048 (64 * (m + 1)))"

lemma linear_wide:
  assumes "linear_room m \<le> n" "h < n"
  shows "m < card (set (probe_path (\<lambda>_ i. (i + 1) mod n) (max_probe n) h 0 h))"
proof -
  have "2 \<le> n" "Suc m \<le> n" "Suc m \<le> Suc (max_probe n)"
    using assms by (auto simp: linear_room_def max_probe_def split: if_splits)
  then show ?thesis using linear_card [of n "Suc m" "max_probe n" h] assms by simp
qed

end
