(* ===== verification/GenericMemory.thy ===== *)
theory GenericMemory
  imports Prelude
begin

text \<open>
  Allocation of \<open>GenericMemory\<close> objects (\<open>src/genericmemory.c\<close>): the size check with its
  overflow tests, and the typed view of a fresh memory the hash tables work on.
\<close>

section \<open>Size of an allocation\<close>

definition MAXINTVAL :: u64 where
  "MAXINTVAL = drop_bit 1 (- 1)"

text \<open>The compiler builtins: the wrapped result and whether it wrapped.\<close>

definition mul_overflow :: "u64 \<Rightarrow> u64 \<Rightarrow> u64 \<times> bool" where
  "mul_overflow a b = (a * b, 2 ^ 64 \<le> unat a * unat b)"

definition add_overflow :: "u64 \<Rightarrow> u64 \<Rightarrow> u64 \<times> bool" where
  "add_overflow a b = (a + b, 2 ^ 64 \<le> unat a + unat b)"

definition invalid_size_error :: c_error where
  "invalid_size_error = JlThrow ''ArgumentError''
     ''invalid GenericMemory size: the number of elements is either negative or too large for system address width''"

definition memory_nbytes :: "u64 \<Rightarrow> bool \<Rightarrow> u64 \<Rightarrow> u64 result" where
  "memory_nbytes nel isunion elsz =
     (let (nbytes, overflow) = mul_overflow nel elsz;
          (nbytes, overflow) =
            (if isunion
             then (let (nb, o2) = add_overflow nel nbytes in (nb, overflow \<or> o2))
             else (nbytes, overflow))
      in if MAXINTVAL - 1 \<le> nel \<or> MAXINTVAL - 1 \<le> nbytes \<or> overflow
         then Inl invalid_size_error
         else Inr nbytes)"

text \<open>
  \<open>_new_genericmemory_\<close>: \<open>z\<close> is the element an all-zero or (without \<open>zeroinit\<close>) fresh cell
  holds; the byte count is what is asked of the collector.
\<close>

definition new_genericmemory :: "heap_env \<Rightarrow> u64 \<Rightarrow> bool \<Rightarrow> u64 \<Rightarrow> 'a \<Rightarrow> 'a list result" where
  "new_genericmemory E nel isunion elsz z =
     (if nel = 0 then Inr []
      else rbind (memory_nbytes nel isunion elsz) (\<lambda>nbytes.
        if alloc_ok E nbytes then Inr (replicate (unat nel) z)
        else Inl (JlThrow ''OutOfMemoryError'' '''')))"

definition jl_alloc_memory_any :: "heap_env \<Rightarrow> u64 \<Rightarrow> ptr list result" where
  "jl_alloc_memory_any E n = new_genericmemory E n False 8 NULL"

lemma unat_MAXINTVAL: "unat MAXINTVAL = 2 ^ 63 - 1"
  by (simp add: MAXINTVAL_def unsigned_drop_bit_eq unsigned_minus_1_eq_mask mask_eq_exp_minus_1
      drop_bit_eq_div take_bit_nat_eq_self_iff)

lemma unat_MAXINTVAL_pred: "unat (MAXINTVAL - 1) = 2 ^ 63 - 2"
  using unat_MAXINTVAL by (subst unat_pred) auto

text \<open>The size check accepts exactly the requests whose true size in bytes is below the
  limit.\<close>

lemma memory_nbytes_eq:
  "memory_nbytes nel isunion elsz =
     (let n = unat nel * unat elsz + (if isunion then unat nel else 0) in
      if unat nel < 2 ^ 63 - 2 \<and> n < 2 ^ 63 - 2 then Inr (of_nat n) else Inl invalid_size_error)"
proof -
  let ?p = "unat nel * unat elsz"
  let ?n = "?p + (if isunion then unat nel else 0)"
  have p: "2 ^ 64 \<le> ?p \<or> unat (nel * elsz) = ?p"
    using unat_mult_lt [of nel elsz] by fastforce
  have s: "2 ^ 64 \<le> ?p \<or> 2 ^ 64 \<le> unat nel + unat (nel * elsz) \<or>
      unat (nel + nel * elsz) = unat nel + ?p"
    using p unat_add_lt [of nel "nel * elsz"] by fastforce
  have eq: "nel * elsz = of_nat ?p" "nel + nel * elsz = of_nat (unat nel + ?p)" by simp_all
  show ?thesis
    using p s unat_MAXINTVAL_pred
    by (cases isunion)
      (auto simp: memory_nbytes_def mul_overflow_def add_overflow_def Let_def word_le_nat_alt
        add.commute simp flip: eq)
qed

lemma memory_nbytes_small:
  assumes "unat nel * unat elsz < 2 ^ 63 - 2" "unat nel < 2 ^ 63 - 2"
  shows "memory_nbytes nel False elsz = Inr (nel * elsz)"
  using assms by (simp add: memory_nbytes_eq Let_def)

lemma new_genericmemory_ok:
  assumes "\<And>b. alloc_ok E b" "n * unat elsz < 2 ^ 63 - 2" "n < 2 ^ 63 - 2"
  shows "new_genericmemory E (of_nat n) False elsz z = Inr (replicate n z)"
proof -
  have n: "unat (of_nat n :: u64) = n" using assms(3) by (simp add: unat_of_nat_small)
  have "of_nat n = (0 :: u64) \<longleftrightarrow> n = 0"
    using n unat_eq_zero [of "of_nat n :: u64"] by simp
  then show ?thesis
    using assms n by (auto simp: new_genericmemory_def memory_nbytes_small)
qed

lemma new_genericmemory_length:
  "new_genericmemory E nel isunion elsz z = Inr xs \<Longrightarrow> xs = replicate (unat nel) z"
  by (auto simp: new_genericmemory_def rbind_eq_Inr_iff split: if_splits)

lemma jl_alloc_memory_any_ok:
  assumes "\<And>b. alloc_ok E b" "n < 2 ^ 60 - 2"
  shows "jl_alloc_memory_any E (of_nat n) = Inr (replicate n NULL)"
  unfolding jl_alloc_memory_any_def
  by (rule new_genericmemory_ok) (use assms in auto)

end
