(* ===== verification/SmallIntSet.thy ===== *)
theory SmallIntSet
  imports Probing GenericMemory "HOL-Library.Multiset"
begin

text \<open>
  Sets of small integers that index another collection (\<open>src/smallintset.c\<close>): an
  open-addressing table whose elements are \<open>uint8_t\<close>, \<open>uint16_t\<close> or \<open>uint32_t\<close>, widened
  as larger values are inserted.  A slot holds 0 (vacant), the value plus one, or all ones
  (a tombstone).  The hash and equality callbacks are arguments, as in the C code.
\<close>

section \<open>The table\<close>

datatype mem_el = MemU8 | MemU16 | MemU32 | MemAny | MemOther

record intmem =
  el :: mem_el
  slots :: "u64 list"

definition ignore_tombstone :: "u64 \<Rightarrow> u64 \<Rightarrow> u64" where
  "ignore_tombstone val tombstone = (if val = tombstone then 0 else val)"

definition acquire_tombstone :: "u64 \<Rightarrow> u64 \<Rightarrow> u64" where
  "acquire_tombstone val tombstone = (if val = tombstone then - 1 else val)"

definition jl_intref :: "intmem \<Rightarrow> nat \<Rightarrow> u64 result" where
  "jl_intref arr idx = (case el arr of
       MemU8 \<Rightarrow> rbind (rget (slots arr) idx) (\<lambda>v. Inr (ignore_tombstone v 0xFF))
     | MemU16 \<Rightarrow> rbind (rget (slots arr) idx) (\<lambda>v. Inr (ignore_tombstone v 0xFFFF))
     | MemU32 \<Rightarrow> rbind (rget (slots arr) idx) (\<lambda>v. Inr (ignore_tombstone v 0xFFFFFFFF))
     | _ \<Rightarrow> Inl AssertFailed)"

definition jl_intref_acquire :: "intmem \<Rightarrow> nat \<Rightarrow> u64 result" where
  "jl_intref_acquire arr idx = (case el arr of
       MemU8 \<Rightarrow> rbind (rget (slots arr) idx) (\<lambda>v. Inr (acquire_tombstone v 0xFF))
     | MemU16 \<Rightarrow> rbind (rget (slots arr) idx) (\<lambda>v. Inr (acquire_tombstone v 0xFFFF))
     | MemU32 \<Rightarrow> rbind (rget (slots arr) idx) (\<lambda>v. Inr (acquire_tombstone v 0xFFFFFFFF))
     | _ \<Rightarrow> Inl AssertFailed)"

text \<open>The store truncates to the element's width.\<close>

definition jl_intset_release :: "intmem \<Rightarrow> nat \<Rightarrow> u64 \<Rightarrow> intmem result" where
  "jl_intset_release arr idx val = (case el arr of
       MemU8 \<Rightarrow> rbind (rset (slots arr) idx (ucast (ucast val :: u8))) (\<lambda>s. Inr (arr\<lparr>slots := s\<rparr>))
     | MemU16 \<Rightarrow> rbind (rset (slots arr) idx (ucast (ucast val :: u16))) (\<lambda>s. Inr (arr\<lparr>slots := s\<rparr>))
     | MemU32 \<Rightarrow> rbind (rset (slots arr) idx (ucast (ucast val :: u32))) (\<lambda>s. Inr (arr\<lparr>slots := s\<rparr>))
     | _ \<Rightarrow> Inl AssertFailed)"

definition jl_max_int :: "intmem \<Rightarrow> u64 result" where
  "jl_max_int arr = (case el arr of
       MemU8 \<Rightarrow> Inr 0xFF | MemU16 \<Rightarrow> Inr 0xFFFF | MemU32 \<Rightarrow> Inr 0xFFFFFFFF | MemAny \<Rightarrow> Inr 0
     | MemOther \<Rightarrow> Inl AssertFailed)"

definition smallintset_empty :: "intmem \<Rightarrow> intmem result" where
  "smallintset_empty a = (case el a of
       MemAny \<Rightarrow> Inr a
     | MemOther \<Rightarrow> Inl AssertFailed
     | _ \<Rightarrow> Inr (a\<lparr>slots := map (\<lambda>_. 0) (slots a)\<rparr>))"

definition jl_alloc_int_1d :: "heap_env \<Rightarrow> u64 \<Rightarrow> u64 \<Rightarrow> intmem result" where
  "jl_alloc_int_1d E np len =
     (let (ty, elsz) = (if np < 0xFF then (MemU8, 1) else if np < 0xFFFF then (MemU16, 2) else (MemU32, 4))
      in rbind (assert_that (np < 0x7FFFFFFF)) (\<lambda>_.
         rbind (new_genericmemory E len False elsz (ucast (junk E 0))) (\<lambda>s.
         smallintset_empty \<lparr>el = ty, slots = s\<rparr>)))"

section \<open>Look-up\<close>

text \<open>\<open>(index + 1) & (sz - 1)\<close>.\<close>

definition next_index :: "nat \<Rightarrow> nat \<Rightarrow> nat" where
  "next_index sz index = mask_index (of_nat (index + 1)) sz"

function smallintset_probe ::
  "intmem \<Rightarrow> (u64 \<Rightarrow> 'k \<Rightarrow> 'd \<Rightarrow> u64 \<Rightarrow> bool) \<Rightarrow> 'k \<Rightarrow> 'd \<Rightarrow> u64 \<Rightarrow> bool \<Rightarrow>
   nat \<Rightarrow> nat \<Rightarrow> nat \<Rightarrow> nat \<Rightarrow> (u64 \<times> intmem) result" where
  "smallintset_probe cache eq key data hv pop maxprobe orig iter index =
     rbind (jl_intref_acquire cache index) (\<lambda>val1.
       if val1 = 0 then Inr (- 1, cache)
       else if val1 \<noteq> - 1 \<and> eq (val1 - 1) key data hv then
         (if pop then rbind (jl_intset_release cache index (- 1)) (\<lambda>c. Inr (val1 - 1, c))
          else Inr (val1 - 1, cache))
       else
         (let index' = next_index (length (slots cache)) index; iter' = Suc iter in
          if iter' \<le> maxprobe \<and> index' \<noteq> orig
          then smallintset_probe cache eq key data hv pop maxprobe orig iter' index'
          else Inr (- 1, cache)))"
  by pat_completeness auto
termination
  by (relation "measure (\<lambda>(cache, eq, key, data, hv, pop, maxprobe, orig, iter, index). maxprobe - iter)") auto

declare smallintset_probe.simps [simp del]

definition jl_smallintset_lookup ::
  "intmem \<Rightarrow> (u64 \<Rightarrow> 'k \<Rightarrow> 'd \<Rightarrow> u64 \<Rightarrow> bool) \<Rightarrow> 'k \<Rightarrow> 'd \<Rightarrow> u64 \<Rightarrow> bool \<Rightarrow> (u64 \<times> intmem) result" where
  "jl_smallintset_lookup cache eq key data hv pop =
     (let sz = length (slots cache) in
      if sz = 0 then Inr (- 1, cache)
      else let index = mask_index hv sz in
        smallintset_probe cache eq key data hv pop (max_probe sz) index 0 index)"

section \<open>Insertion and rehashing\<close>

function smallintset_insert_probe :: "intmem \<Rightarrow> u64 \<Rightarrow> nat \<Rightarrow> nat \<Rightarrow> nat \<Rightarrow> nat \<Rightarrow> (bool \<times> intmem) result" where
  "smallintset_insert_probe a val1 maxprobe orig iter index =
     rbind (jl_intref a index) (\<lambda>v.
       if v = 0 then rbind (jl_intset_release a index val1) (\<lambda>a. Inr (True, a))
       else
         (let index' = next_index (length (slots a)) index; iter' = Suc iter in
          if iter' \<le> maxprobe \<and> index' \<noteq> orig
          then smallintset_insert_probe a val1 maxprobe orig iter' index'
          else Inr (False, a)))"
  by pat_completeness auto
termination
  by (relation "measure (\<lambda>(a, val1, maxprobe, orig, iter, index). maxprobe - iter)") auto

declare smallintset_insert_probe.simps [simp del]

definition smallintset_insert_slot :: "intmem \<Rightarrow> u64 \<Rightarrow> u64 \<Rightarrow> (bool \<times> intmem) result" where
  "smallintset_insert_slot a hv val1 =
     (let sz = length (slots a) in
      if sz \<le> 1 then Inr (False, a)
      else let index = mask_index hv sz in
        smallintset_insert_probe a val1 (max_probe sz) index 0 index)"

text \<open>The largest value present, at least \<open>np\<close>.\<close>

fun rehash_np :: "intmem \<Rightarrow> nat list \<Rightarrow> u64 \<Rightarrow> u64 result" where
  "rehash_np a [] np = Inr np"
| "rehash_np a (i # is) np =
     rbind (jl_intref a i) (\<lambda>val. rehash_np a is (if val > np then val else np))"

text \<open>Copying the values into the new table, up to the first that finds no slot.\<close>

fun rehash_fill :: "intmem \<Rightarrow> (u64 \<Rightarrow> 'd \<Rightarrow> u64) \<Rightarrow> 'd \<Rightarrow> nat list \<Rightarrow> intmem \<Rightarrow> (bool \<times> intmem) result" where
  "rehash_fill a hash data [] newa = Inr (True, newa)"
| "rehash_fill a hash data (i # is) newa =
     rbind (jl_intref a i) (\<lambda>val1.
       if val1 \<noteq> 0 then
         rbind (smallintset_insert_slot newa (hash (val1 - 1) data) val1) (\<lambda>(ok, newa).
           if ok then rehash_fill a hash data is newa else Inr (False, newa))
       else rehash_fill a hash data is newa)"

partial_function (option) rehash_grow ::
  "heap_env \<Rightarrow> intmem \<Rightarrow> (u64 \<Rightarrow> 'd \<Rightarrow> u64) \<Rightarrow> 'd \<Rightarrow> u64 \<Rightarrow> u64 \<Rightarrow> intmem result option" where
  "rehash_grow E a hash data newsz np =
     (case rbind (jl_alloc_int_1d E (np + 1) newsz) (\<lambda>newa.
             rehash_fill a hash data [0 ..< length (slots a)] newa) of
        Inl e \<Rightarrow> Some (Inl e)
      | Inr r \<Rightarrow> if fst r then Some (Inr (snd r))
                else rehash_grow E a hash data (push_bit 1 newsz) np)"

text \<open>A loop that does not end shows as \<open>Diverges\<close>.\<close>

definition or_diverges :: "'a result option \<Rightarrow> 'a result" where
  "or_diverges r = (case r of None \<Rightarrow> Inl Diverges | Some x \<Rightarrow> x)"

definition smallintset_rehash ::
  "heap_env \<Rightarrow> intmem \<Rightarrow> (u64 \<Rightarrow> 'd \<Rightarrow> u64) \<Rightarrow> 'd \<Rightarrow> u64 \<Rightarrow> u64 \<Rightarrow> intmem result" where
  "smallintset_rehash E a hash data newsz np =
     rbind (rehash_np a [0 ..< length (slots a)] np) (\<lambda>np.
       or_diverges (rehash_grow E a hash data newsz np))"

definition HT_N_INLINE :: nat where
  "HT_N_INLINE = 32"

text \<open>The new size when a table is full.\<close>

definition grown_size :: "u64 \<Rightarrow> u64" where
  "grown_size sz =
     (if sz < of_nat HT_N_INLINE then of_nat HT_N_INLINE
      else if push_bit 19 1 \<le> sz \<or> sz \<le> push_bit 8 1 then push_bit 1 sz
      else push_bit 2 sz)"

partial_function (option) smallintset_insert_loop ::
  "heap_env \<Rightarrow> (u64 \<Rightarrow> 'd \<Rightarrow> u64) \<Rightarrow> u64 \<Rightarrow> 'd \<Rightarrow> intmem \<Rightarrow> intmem result option" where
  "smallintset_insert_loop E hash val data a =
     (case smallintset_insert_slot a (hash val data) (val + 1) of
        Inl e \<Rightarrow> Some (Inl e)
      | Inr r \<Rightarrow>
          if fst r then Some (Inr (snd r))
          else (case smallintset_rehash E a hash data (grown_size (of_nat (length (slots a)))) 0 of
                  Inl e \<Rightarrow> Some (Inl e)
                | Inr a \<Rightarrow> smallintset_insert_loop E hash val data a))"

definition jl_smallintset_insert ::
  "heap_env \<Rightarrow> intmem \<Rightarrow> (u64 \<Rightarrow> 'd \<Rightarrow> u64) \<Rightarrow> u64 \<Rightarrow> 'd \<Rightarrow> intmem result" where
  "jl_smallintset_insert E a hash val data =
     rbind (jl_max_int a) (\<lambda>m.
     rbind (if m \<le> val + 1
            then smallintset_rehash E a hash data (of_nat (length (slots a))) (val + 1)
            else Inr a) (\<lambda>a.
     or_diverges (smallintset_insert_loop E hash val data a)))"

section \<open>Reserving an entry of an insertion-ordered dictionary\<close>

text \<open>The append position: the entries are contiguous, so scan back over \<open>NULL\<close> entries.\<close>

fun reserve_scan :: "ptr list \<Rightarrow> nat \<Rightarrow> nat \<Rightarrow> nat result" where
  "reserve_scan a stride 0 = Inr 0"
| "reserve_scan a stride (Suc idx) =
     rbind (rget a (1 + stride * idx)) (\<lambda>p.
       if p = NULL then reserve_scan a stride idx else Inr (Suc idx))"

definition reserve_newlen :: "nat \<Rightarrow> nat \<Rightarrow> nat" where
  "reserve_newlen len need =
     (let newlen = (if len < 8 then 8 else len * 3 div 2)
      in if newlen < need then need else newlen)"

text \<open>
  \<open>empty_any\<close> is the pointer \<open>jl_an_empty_memory_any\<close>; \<open>is_empty_any\<close> says whether \<open>*pcache\<close>
  is that shared object.
\<close>

definition jl_ordereddict_reserve ::
  "heap_env \<Rightarrow> ptr \<Rightarrow> bool \<Rightarrow> ptr list \<Rightarrow> nat \<Rightarrow> (nat \<times> ptr list) result" where
  "jl_ordereddict_reserve E empty_any is_empty_any a stride =
     rbind (reserve_scan a stride (if length a < 1 + stride then 0 else (length a - 1) div stride)) (\<lambda>idx.
       let need = 1 + stride * (idx + 1) in
       if length a < need then
         rbind (jl_alloc_memory_any E (of_nat (reserve_newlen (length a) need))) (\<lambda>na.
           if is_empty_any then rbind (rset na 0 empty_any) (\<lambda>na. Inr (idx, na))
           else Inr (idx, a @ drop (length a) na))
       else Inr (idx, a))"

section \<open>The cells of a table\<close>

text \<open>The tombstone of an element type, and the slots as the look-up sees them.\<close>

fun el_top :: "mem_el \<Rightarrow> u64 option" where
  "el_top MemU8 = Some 0xFF"
| "el_top MemU16 = Some 0xFFFF"
| "el_top MemU32 = Some 0xFFFFFFFF"
| "el_top _ = None"

definition intcells :: "intmem \<Rightarrow> u64 list" where
  "intcells a = map (\<lambda>v. acquire_tombstone v (the (el_top (el a)))) (slots a)"

abbreviation int_vacant :: "u64 \<Rightarrow> bool" where
  "int_vacant c \<equiv> c = 0"

abbreviation int_free :: "u64 \<Rightarrow> bool" where
  "int_free c \<equiv> c = 0 \<or> c = - 1"

definition int_path :: "nat \<Rightarrow> u64 \<Rightarrow> nat list" where
  "int_path n h = probe_path (\<lambda>_. next_index n) (max_probe n) (mask_index h n) 0 (mask_index h n)"

definition int_hash :: "(u64 \<Rightarrow> 'd \<Rightarrow> u64) \<Rightarrow> 'd \<Rightarrow> u64 \<Rightarrow> u64 option" where
  "int_hash hash data c = (if int_free c then None else Some (hash (c - 1) data))"

definition intset_ok :: "(u64 \<Rightarrow> 'd \<Rightarrow> u64) \<Rightarrow> 'd \<Rightarrow> intmem \<Rightarrow> bool" where
  "intset_ok hash data a \<longleftrightarrow>
     (slots a = [] \<and> el a \<noteq> MemOther \<or>
      el_top (el a) \<noteq> None \<and> pow2 (length (slots a)) \<and>
      (\<forall>v \<in> set (slots a). v \<le> the (el_top (el a))) \<and>
      placed int_vacant (int_path (length (slots a))) (int_hash hash data) (intcells a))"

text \<open>The values of a table, each one more than the index it stands for.\<close>

definition intset_vals :: "intmem \<Rightarrow> u64 multiset" where
  "intset_vals a = mset (filter (\<lambda>c. \<not> int_free c) (intcells a))"

lemma length_intcells [simp]: "length (intcells a) = length (slots a)"
  by (simp add: intcells_def)

lemma el_top_cases:
  assumes "el_top e = Some t"
  obtains "e = MemU8" "t = 0xFF" | "e = MemU16" "t = 0xFFFF" | "e = MemU32" "t = 0xFFFFFFFF"
  using assms by (cases e) auto

lemma el_top_bounds:
  "el_top e = Some t \<Longrightarrow> 0xFF \<le> unat t"
  "el_top e = Some t \<Longrightarrow> t \<noteq> 0"
  "el_top e = Some t \<Longrightarrow> t < - 1"
  by (auto elim!: el_top_cases simp: word_less_nat_alt unsigned_minus_1_eq_mask mask_eq_exp_minus_1)

lemma intcells_nth:
  assumes "el_top (el a) = Some t" "i < length (slots a)"
  shows "intcells a ! i = (if slots a ! i = t then - 1 else slots a ! i)"
  using assms by (simp add: intcells_def acquire_tombstone_def)

lemma slots_not_minus_1:
  assumes "el_top (el a) = Some t" "i < length (slots a)" "\<forall>v \<in> set (slots a). v \<le> t"
  shows "slots a ! i \<noteq> - 1"
  using el_top_bounds(3) [OF assms(1)] assms(3) nth_mem [OF assms(2)] by (metis not_le)

lemma jl_intref_cell:
  assumes "el_top (el a) = Some t" "i < length (slots a)" "\<forall>v \<in> set (slots a). v \<le> t"
  shows "jl_intref a i = Inr (if int_free (intcells a ! i) then 0 else intcells a ! i)"
proof -
  have "jl_intref a i = Inr (if slots a ! i = t then 0 else slots a ! i)"
    using assms by (auto elim!: el_top_cases simp: jl_intref_def ignore_tombstone_def)
  then show ?thesis
    using slots_not_minus_1 [OF assms] by (simp add: intcells_nth [OF assms(1,2)])
qed

lemma jl_intref_acquire_cell:
  assumes "el_top (el a) = Some t" "i < length (slots a)"
  shows "jl_intref_acquire a i = Inr (intcells a ! i)"
  using assms by (auto elim!: el_top_cases simp: jl_intref_acquire_def intcells_def)

lemma ucast_ucast_fit:
  assumes "unat (v :: u64) < 2 ^ LENGTH('b)" "LENGTH('b) \<le> 64"
  shows "ucast (ucast v :: 'b :: len word) = v"
proof -
  have "unat (ucast v :: 'b word) = unat v" using assms(1) by (rule unat_ucast_small)
  moreover have "unat (ucast (ucast v :: 'b word) :: u64) = unat (ucast v :: 'b word)"
    by (rule unat_ucast_small) (use calculation unsigned_less [of v] in simp)
  ultimately show ?thesis by (simp add: word_unat_eq_iff)
qed

lemma ucast_minus_1:
  "ucast (ucast (- 1 :: u64) :: u8) = (0xFF :: u64)"
  "ucast (ucast (- 1 :: u64) :: u16) = (0xFFFF :: u64)"
  "ucast (ucast (- 1 :: u64) :: u32) = (0xFFFFFFFF :: u64)"
  by code_simp+

lemma jl_intset_release_fit:
  assumes "el_top (el a) = Some t" "i < length (slots a)" "v \<le> t"
  shows "jl_intset_release a i v = Inr (a\<lparr>slots := (slots a)[i := v]\<rparr>)"
  by (rule el_top_cases [OF assms(1)])
    (use assms(2,3) in \<open>simp_all add: jl_intset_release_def word_le_nat_alt ucast_ucast_fit\<close>)

lemma jl_intset_release_tomb:
  assumes "el_top (el a) = Some t" "i < length (slots a)"
  shows "jl_intset_release a i (- 1) = Inr (a\<lparr>slots := (slots a)[i := t]\<rparr>)"
  by (rule el_top_cases [OF assms(1)])
    (use assms(2) in \<open>simp_all add: jl_intset_release_def ucast_minus_1 del: unsigned_minus_1_eq_mask\<close>)

lemma intcells_update:
  assumes "el_top (el a) = Some t" "i < length (slots a)"
  shows "intcells (a\<lparr>slots := (slots a)[i := v]\<rparr>) =
    (intcells a)[i := (if v = t then - 1 else v)]"
  using assms by (simp add: intcells_def map_update acquire_tombstone_def)

section \<open>The probe sequence\<close>

lemma next_index_mod: "pow2 n \<Longrightarrow> next_index n i = (i + 1) mod n"
  by (simp add: next_index_def mask_index_of_nat del: of_nat_add of_nat_Suc)

lemma next_index_lt: "pow2 n \<Longrightarrow> next_index n i < n"
  by (simp add: next_index_mod pow2_pos)

lemma int_path_range:
  assumes "pow2 n"
  shows "set (int_path n h) \<subseteq> {..<n}"
  unfolding int_path_def
  by (rule probe_path_in_range)
    (use assms in \<open>simp_all add: mask_index_lt next_index_lt\<close>)

interpretation ip: probe_seq pow2 int_path linear_room
proof
  fix n i h m
  assume n: "pow2 n"
  show "i < n" if "i \<in> set (int_path n h)" using int_path_range [OF n] that by blast
  have "int_path n h = probe_path (\<lambda>_ i. (i + 1) mod n) (max_probe n) (mask_index h n) 0 (mask_index h n)"
  proof -
    have "next_index n = (\<lambda>i. (i + 1) mod n)" by (rule ext, rule next_index_mod [OF n])
    then show ?thesis by (simp only: int_path_def)
  qed
  then show "m < card (set (int_path n h))" if "linear_room m \<le> n"
    using linear_wide [OF that mask_index_lt [OF n]] by simp
qed

lemma smallintset_probe_scan:
  assumes t: "el_top (el a) = Some t" and n: "n = length (slots a)" "pow2 n" and i: "index < n"
  shows "smallintset_probe a eq key data hv pop maxprobe orig iter index =
    (case scan int_vacant (\<lambda>c. c \<noteq> - 1 \<and> eq (c - 1) key data hv) (intcells a)
            (probe_path (\<lambda>_. next_index n) maxprobe orig iter index) of
       None \<Rightarrow> Inr (- 1, a)
     | Some i \<Rightarrow> Inr (intcells a ! i - 1, if pop then a\<lparr>slots := (slots a)[i := t]\<rparr> else a))"
  using i
proof (induction "\<lambda>_ :: nat. next_index n" maxprobe orig iter index rule: probe_path.induct)
  case (1 maxprobe orig iter index)
  have "next_index n index < n" using n(2) by (rule next_index_lt)
  then show ?case
    using 1 n t
    by (subst smallintset_probe.simps, subst probe_path.simps)
      (auto simp: Let_def jl_intref_acquire_cell jl_intset_release_tomb)
qed

lemma smallintset_insert_probe_find:
  assumes t: "el_top (el a) = Some t" and n: "n = length (slots a)" "pow2 n" and i: "index < n"
    and fit: "\<forall>v \<in> set (slots a). v \<le> t" "val1 \<le> t"
  shows "smallintset_insert_probe a val1 maxprobe orig iter index =
    (case find (\<lambda>i. int_free (intcells a ! i)) (probe_path (\<lambda>_. next_index n) maxprobe orig iter index) of
       None \<Rightarrow> Inr (False, a)
     | Some i \<Rightarrow> Inr (True, a\<lparr>slots := (slots a)[i := val1]\<rparr>))"
  using i
proof (induction "\<lambda>_ :: nat. next_index n" maxprobe orig iter index rule: probe_path.induct)
  case (1 maxprobe orig iter index)
  have "next_index n index < n" using n(2) by (rule next_index_lt)
  then show ?case
    using 1 n t fit
    by (subst smallintset_insert_probe.simps, subst probe_path.simps)
      (auto simp: Let_def jl_intref_cell jl_intset_release_fit)
qed

lemma intset_okD:
  assumes "intset_ok hash data a" "slots a \<noteq> []"
  obtains t where "el_top (el a) = Some t" "pow2 (length (slots a))" "\<forall>v \<in> set (slots a). v \<le> t"
    "placed int_vacant (int_path (length (slots a))) (int_hash hash data) (intcells a)"
  using assms by (auto simp: intset_ok_def)

lemma size_intset_vals: "size (intset_vals a) = length (filter (\<lambda>c. \<not> int_free c) (intcells a))"
  unfolding intset_vals_def by (rule size_mset)

lemma mset_filter_update:
  assumes "i < length cs"
  shows "mset (filter P (cs[i := c])) =
    (if P c then {#c#} else {#}) + (mset (filter P cs) - (if P (cs ! i) then {#cs ! i#} else {#}))"
  using assms by (simp add: mset_update)

lemma int_hash_vacant [simp]: "int_hash hash data 0 = None" "int_hash hash data (- 1) = None"
  by (simp_all add: int_hash_def)

text \<open>Filling a free slot that is reached on the value's path.\<close>

lemma intset_fill_slot:
  assumes ok: "intset_ok hash data a" and t: "el_top (el a) = Some t"
    and v: "0 < val1" "val1 < t"
    and f: "find (\<lambda>i. int_free (intcells a ! i)) (int_path (length (slots a)) (hash (val1 - 1) data)) = Some i"
    and ne: "slots a \<noteq> []"
  shows "intset_ok hash data (a\<lparr>slots := (slots a)[i := val1]\<rparr>)"
    and "intset_vals (a\<lparr>slots := (slots a)[i := val1]\<rparr>) = add_mset val1 (intset_vals a)"
proof -
  obtain n: "pow2 (length (slots a))" and fit: "\<forall>v \<in> set (slots a). v \<le> t"
    and pl: "placed int_vacant (int_path (length (slots a))) (int_hash hash data) (intcells a)"
    by (rule intset_okD [OF ok ne]) (use t in auto)
  have i: "i < length (slots a)" "int_free (intcells a ! i)"
    using ip.find_free_range [of "intcells a" int_free "hash (val1 - 1) data" i] n f by simp_all
  have cells: "intcells (a\<lparr>slots := (slots a)[i := val1]\<rparr>) = (intcells a)[i := val1]"
    using v by (auto simp: intcells_update [OF t i(1)])
  have live: "\<not> int_free val1" using v el_top_bounds(3) [OF t] by auto
  have "placed int_vacant (int_path (length (intcells a))) (int_hash hash data) ((intcells a)[i := val1])"
  proof (rule ip.placed_insert)
    show "reach int_vacant (intcells a) (int_path (length (intcells a)) h) i"
      if "int_hash hash data val1 = Some h" for h
      using find_free_reach [OF f, of int_vacant] that live by (simp add: int_hash_def)
  qed (use pl live in simp_all)
  moreover have "\<forall>w \<in> set ((slots a)[i := val1]). w \<le> t"
    using fit v set_update_subset_insert [of "slots a" i val1] by fastforce
  ultimately show "intset_ok hash data (a\<lparr>slots := (slots a)[i := val1]\<rparr>)"
    using t n cells by (simp add: intset_ok_def)
  show "intset_vals (a\<lparr>slots := (slots a)[i := val1]\<rparr>) = add_mset val1 (intset_vals a)"
    unfolding intset_vals_def cells using i live by (subst mset_filter_update) auto
qed

lemma smallintset_insert_slot_spec:
  assumes ok: "intset_ok hash data a" and t: "el_top (el a) = Some t"
    and v: "0 < val1" "val1 < t"
  obtains a' where "smallintset_insert_slot a (hash (val1 - 1) data) val1 = Inr (True, a')"
      "intset_ok hash data a'" "intset_vals a' = add_mset val1 (intset_vals a)"
      "el a' = el a" "length (slots a') = length (slots a)"
  | "smallintset_insert_slot a (hash (val1 - 1) data) val1 = Inr (False, a)"
      "length (slots a) < linear_room (size (intset_vals a))"
proof (cases "length (slots a) \<le> 1")
  case True
  moreover have "length (slots a) < linear_room (size (intset_vals a))"
    using True by (auto simp: linear_room_def)
  ultimately show ?thesis using that(2) by (simp add: smallintset_insert_slot_def)
next
  case False
  then have ne: "slots a \<noteq> []" by auto
  obtain n: "pow2 (length (slots a))" and fit: "\<forall>v \<in> set (slots a). v \<le> t"
    by (rule intset_okD [OF ok ne]) (use t in auto)
  let ?f = "find (\<lambda>i. int_free (intcells a ! i)) (int_path (length (slots a)) (hash (val1 - 1) data))"
  have eq: "smallintset_insert_slot a (hash (val1 - 1) data) val1 =
      (case ?f of None \<Rightarrow> Inr (False, a) | Some i \<Rightarrow> Inr (True, a\<lparr>slots := (slots a)[i := val1]\<rparr>))"
    using False n v fit mask_index_lt [OF n]
    by (simp add: smallintset_insert_slot_def Let_def int_path_def smallintset_insert_probe_find [OF t])
  show ?thesis
  proof (cases ?f)
    case None
    then have "\<not> linear_room (size (intset_vals a)) \<le> length (slots a)"
      using ip.free_slot [of "intcells a" "size (intset_vals a)" int_free "hash (val1 - 1) data"] n
      by (auto simp: size_intset_vals)
    then show ?thesis using that(2) eq None by simp
  next
    case (Some i)
    show ?thesis
      using that(1) [of "a\<lparr>slots := (slots a)[i := val1]\<rparr>"] eq Some
        intset_fill_slot [OF ok t v Some ne] by simp
  qed
qed

section \<open>Rehashing\<close>

lemma linear_room_mono: "m \<le> m' \<Longrightarrow> linear_room m \<le> linear_room m'"
  by (auto simp: linear_room_def)

lemma intset_nilD: "slots a = [] \<Longrightarrow> intset_vals a = {#}"
  by (simp add: intset_vals_def intcells_def)

lemma intset_fresh:
  assumes "el_top ty = Some t" "n = 0 \<or> pow2 n"
  shows "intset_ok hash data \<lparr>el = ty, slots = replicate n 0\<rparr>"
    "intset_vals \<lparr>el = ty, slots = replicate n 0\<rparr> = {#}"
proof -
  have cells: "intcells \<lparr>el = ty, slots = replicate n 0\<rparr> = replicate n 0"
    using assms(1) el_top_bounds(2) [OF assms(1)] by (auto simp: intcells_def acquire_tombstone_def)
  have "placed int_vacant (int_path n) (int_hash hash data) (replicate n 0)"
    by (rule ip.placed_vacant) simp
  then show "intset_ok hash data \<lparr>el = ty, slots = replicate n 0\<rparr>"
    using assms cells by (cases ty) (auto simp: intset_ok_def)
  show "intset_vals \<lparr>el = ty, slots = replicate n 0\<rparr> = {#}"
    by (simp add: intset_vals_def cells)
qed

lemma jl_alloc_int_1d_ok:
  assumes E: "\<And>b. alloc_ok E b" and np: "np < 0x7FFFFFFF" and n: "n < 2 ^ 60"
  obtains ty t where "jl_alloc_int_1d E np (of_nat n) = Inr \<lparr>el = ty, slots = replicate n 0\<rparr>"
    "el_top ty = Some t" "np < t"
proof -
  have a: "new_genericmemory E (of_nat n) False elsz z = Inr (replicate n z)"
    if "elsz = 1 \<or> elsz = 2 \<or> elsz = 4" for elsz :: u64 and z :: u64
    by (rule new_genericmemory_ok [OF E]) (use that n in auto)
  let ?c = "np < 0xFF" and ?d = "np < 0xFFFF"
  let ?ty = "if ?c then MemU8 else if ?d then MemU16 else MemU32"
  let ?t = "if ?c then 0xFF else if ?d then 0xFFFF else (0xFFFFFFFF :: u64)"
  have "jl_alloc_int_1d E np (of_nat n) = Inr \<lparr>el = ?ty, slots = replicate n 0\<rparr>"
    using np by (auto simp: jl_alloc_int_1d_def Let_def a smallintset_empty_def map_replicate_const)
  moreover have "np < ?t" using np by (auto simp: word_less_nat_alt)
  ultimately show ?thesis using that [of ?ty ?t] by auto
qed

lemma jl_intref_ok:
  assumes "intset_ok hash data a" "i < length (slots a)"
  shows "jl_intref a i = Inr (if int_free (intcells a ! i) then 0 else intcells a ! i)"
proof -
  have "slots a \<noteq> []" using assms(2) by auto
  then show ?thesis by (rule intset_okD [OF assms(1)]) (use assms(2) in \<open>auto simp: jl_intref_cell\<close>)
qed

lemma intset_vals_upt:
  "intset_vals a = mset (filter (\<lambda>c. \<not> int_free c) (map ((!) (intcells a)) [0 ..< length (slots a)]))"
  using map_nth [of "intcells a"] by (simp add: intset_vals_def)

lemma rehash_np_spec:
  assumes "intset_ok hash data a" "\<forall>i \<in> set is. i < length (slots a)"
  obtains m where "rehash_np a is np = Inr m" "np \<le> m"
    "\<forall>i \<in> set is. \<not> int_free (intcells a ! i) \<longrightarrow> intcells a ! i \<le> m"
    "m = np \<or> (\<exists>i \<in> set is. \<not> int_free (intcells a ! i) \<and> intcells a ! i = m)"
  using assms(2)
proof (induction "is" arbitrary: np thesis)
  case Nil
  then show ?case by simp
next
  case (Cons i "is")
  let ?c = "intcells a ! i"
  let ?np = "if int_free ?c then np else max np ?c"
  have "jl_intref a i = Inr (if int_free ?c then 0 else ?c)"
    using jl_intref_ok [OF assms(1)] Cons.prems(2) by simp
  then have step: "rehash_np a (i # is) np = rehash_np a is ?np"
    by (auto simp: max_def)
  obtain m where m: "rehash_np a is ?np = Inr m" "?np \<le> m"
    "\<forall>i \<in> set is. \<not> int_free (intcells a ! i) \<longrightarrow> intcells a ! i \<le> m"
    "m = ?np \<or> (\<exists>i \<in> set is. \<not> int_free (intcells a ! i) \<and> intcells a ! i = m)"
    using Cons.IH [of ?np] Cons.prems(2) by auto
  show ?case
    by (rule Cons.prems(1) [of m])
      (use step m in \<open>auto simp: max_def split: if_splits\<close>)
qed

lemma rehash_fill_spec:
  assumes a: "intset_ok hash data a" "\<forall>i \<in> set is. i < length (slots a)"
    and newa: "intset_ok hash data newa" "el_top (el newa) = Some t"
    and fit: "\<forall>c \<in># intset_vals a. c < t"
    and total: "vs = intset_vals newa + mset (filter (\<lambda>c. \<not> int_free c) (map ((!) (intcells a)) is))"
  shows "\<exists>b newa'. rehash_fill a hash data is newa = Inr (b, newa') \<and>
    (if b then intset_ok hash data newa' \<and> intset_vals newa' = vs \<and>
           el newa' = el newa \<and> length (slots newa') = length (slots newa)
     else length (slots newa) < linear_room (size vs))"
  using a(2) newa total
proof (induction "is" arbitrary: newa)
  case Nil
  then show ?case by (intro exI [of _ True]) simp
next
  case (Cons i "is")
  let ?c = "intcells a ! i"
  have i: "i < length (slots a)" and tl: "\<forall>i \<in> set is. i < length (slots a)"
    using Cons.prems(1) by simp_all
  have ref: "jl_intref a i = Inr (if int_free ?c then 0 else ?c)" by (rule jl_intref_ok [OF a(1) i])
  show ?case
  proof (cases "int_free ?c")
    case True
    then have "rehash_fill a hash data (i # is) newa = rehash_fill a hash data is newa"
      using ref by auto
    moreover have "vs = intset_vals newa + mset (filter (\<lambda>c. \<not> int_free c) (map ((!) (intcells a)) is))"
      using Cons.prems(4) True by auto
    ultimately show ?thesis using Cons.IH [OF tl Cons.prems(2,3)] by simp
  next
    case False
    have "?c \<in># intset_vals a"
      using False i by (auto simp: intset_vals_def)
    then have c: "0 < ?c" "?c < t" using fit False by (auto simp: word_neq_0_conv)
    have vs: "vs = add_mset ?c (intset_vals newa) +
        mset (filter (\<lambda>c. \<not> int_free c) (map ((!) (intcells a)) is))"
      using Cons.prems(4) False by simp
    from smallintset_insert_slot_spec [OF Cons.prems(2,3) c]
    show ?thesis
    proof cases
      case (1 newa1)
      have eq: "rehash_fill a hash data (i # is) newa = rehash_fill a hash data is newa1"
        using ref False 1(1) by simp
      have e: "el_top (el newa1) = Some t" using Cons.prems(3) 1(4) by simp
      have v: "vs = intset_vals newa1 + mset (filter (\<lambda>c. \<not> int_free c) (map ((!) (intcells a)) is))"
        using vs 1(3) by simp
      show ?thesis using Cons.IH [OF tl 1(2) e v] unfolding eq 1(4,5) .
    next
      case 2
      have "linear_room (size (intset_vals newa)) \<le> linear_room (size vs)"
        by (rule linear_room_mono) (simp add: vs)
      then show ?thesis
        using 2 ref False by (intro exI [of _ False] exI [of _ newa]) simp
    qed
  qed
qed

text \<open>The table a rehash produces.\<close>

definition rehashed :: "(u64 \<Rightarrow> 'd \<Rightarrow> u64) \<Rightarrow> 'd \<Rightarrow> intmem \<Rightarrow> u64 \<Rightarrow> intmem \<Rightarrow> bool" where
  "rehashed hash data a np newa \<longleftrightarrow>
     intset_ok hash data newa \<and> intset_vals newa = intset_vals a \<and>
     (\<exists>t. el_top (el newa) = Some t \<and> np + 1 < t)"

lemma unat_add_1: "unat (w :: u64) < 2 ^ 64 - 1 \<Longrightarrow> unat (w + 1) = unat w + 1"
  by (subst unat_add_lt) simp_all

lemma rehash_round:
  assumes E: "\<And>b. alloc_ok E b" and a: "intset_ok hash data a"
    and np: "np < 0x7FFFFFFE" "\<forall>c \<in># intset_vals a. c \<le> np"
    and n: "n = 0 \<or> pow2 n" "n < 2 ^ 60"
  shows "\<exists>b newa. rbind (jl_alloc_int_1d E (np + 1) (of_nat n)) (\<lambda>newa.
             rehash_fill a hash data [0 ..< length (slots a)] newa) = Inr (b, newa) \<and>
    (if b then rehashed hash data a np newa \<and> length (slots newa) = n
     else n < linear_room (size (intset_vals a)))"
proof -
  have "unat (np + 1) = unat np + 1" by (rule unat_add_1) (use np(1) in \<open>simp add: word_less_nat_alt\<close>)
  then have inc: "np + 1 < 0x7FFFFFFF" "np < np + 1" using np(1) by (simp_all add: word_less_nat_alt)
  obtain ty t where al: "jl_alloc_int_1d E (np + 1) (of_nat n) = Inr \<lparr>el = ty, slots = replicate n 0\<rparr>"
    and t: "el_top ty = Some t" "np + 1 < t"
    by (rule jl_alloc_int_1d_ok [OF E _ n(2), of "np + 1"]) (use inc in simp_all)
  let ?new = "\<lparr>el = ty, slots = replicate n 0\<rparr> :: intmem"
  have "np < t" using inc t(2) by simp
  then have fit: "\<forall>c \<in># intset_vals a. c < t" using np(2) by auto
  have "intset_vals a = intset_vals ?new +
      mset (filter (\<lambda>c. \<not> int_free c) (map ((!) (intcells a)) [0 ..< length (slots a)]))"
    by (subst intset_vals_upt) (simp only: intset_fresh(2) [OF t(1) n(1)] add_0)
  moreover have "\<forall>i \<in> set [0 ..< length (slots a)]. i < length (slots a)" "el_top (el ?new) = Some t"
    using t(1) by simp_all
  ultimately have "\<exists>b newa. rehash_fill a hash data [0 ..< length (slots a)] ?new = Inr (b, newa) \<and>
      (if b then intset_ok hash data newa \<and> intset_vals newa = intset_vals a \<and> el newa = el ?new \<and>
            length (slots newa) = length (slots ?new)
       else length (slots ?new) < linear_room (size (intset_vals a)))"
    using rehash_fill_spec [OF a _ intset_fresh(1) [OF t(1) n(1)] _ fit] by blast
  then
  obtain b newa where r: "rehash_fill a hash data [0 ..< length (slots a)] ?new = Inr (b, newa)"
    and p: "if b then intset_ok hash data newa \<and> intset_vals newa = intset_vals a \<and> el newa = ty \<and>
            length (slots newa) = n else n < linear_room (size (intset_vals a))"
    by (simp only: intmem.simps length_replicate) blast
  show ?thesis
    by (rule exI [of _ b], rule exI [of _ newa]) (use al r p t in \<open>auto simp: rehashed_def\<close>)
qed

lemma pow2_double: "pow2 n \<Longrightarrow> n < 2 ^ 63 \<Longrightarrow> pow2 (2 * n)"
proof -
  assume "pow2 n" "n < 2 ^ 63"
  then obtain k where k: "k < 63" "n = 2 ^ k"
    by (metis pow2_def power_less_imp_less_exp one_less_numeral_iff semiring_norm(76))
  then show "pow2 (2 * n)" unfolding pow2_def by (intro exI [of _ "Suc k"]) simp
qed

lemma push_bit_1_of_nat: "push_bit 1 (of_nat n :: u64) = of_nat (2 * n)"
  by (simp add: push_bit_eq_mult mult.commute)

text \<open>Doubling ends: at \<open>linear_room\<close> every value finds a slot.\<close>

lemma rehash_grow_ok:
  assumes E: "\<And>b. alloc_ok E b" and a: "intset_ok hash data a"
    and np: "np < 0x7FFFFFFE" "\<forall>c \<in># intset_vals a. c \<le> np"
    and n: "n = 0 \<or> pow2 n" "n = 0 \<Longrightarrow> intset_vals a = {#} \<and> slots a = []" "n < 2 ^ 59"
    and room: "linear_room (size (intset_vals a)) < 2 ^ 58"
  shows "\<exists>newa. rehash_grow E a hash data (of_nat n) np = Some (Inr newa) \<and> rehashed hash data a np newa \<and>
    n \<le> length (slots newa) \<and> length (slots newa) \<le> max n (2 * linear_room (size (intset_vals a)))"
  using n
proof (induction "2 ^ 60 - n" arbitrary: n rule: less_induct)
  case less
  have "n < 2 ^ 60" using less.prems(3) by simp
  from rehash_round [OF E a np less.prems(1) this]
  obtain b newa where r: "rbind (jl_alloc_int_1d E (np + 1) (of_nat n)) (\<lambda>newa.
             rehash_fill a hash data [0 ..< length (slots a)] newa) = Inr (b, newa)"
    "if b then rehashed hash data a np newa \<and> length (slots newa) = n
     else n < linear_room (size (intset_vals a))"
    by blast
  show ?case
  proof (cases b)
    case True
    then show ?thesis using r by (subst rehash_grow.simps) simp
  next
    case False
    then have lt: "n < linear_room (size (intset_vals a))" using r(2) by simp
    have "n \<noteq> 0"
    proof
      assume "n = 0"
      then have "slots a = []" using less.prems(2) by simp
      then show False using r(1) False by (simp add: rbind_eq_Inr_iff)
    qed
    then have n: "pow2 n" "0 < n" using less.prems(1) by auto
    have "rehash_grow E a hash data (of_nat n) np = rehash_grow E a hash data (of_nat (2 * n)) np"
      unfolding push_bit_1_of_nat [symmetric] using False r(1) by (subst rehash_grow.simps) simp
    moreover have "2 * n = 0 \<or> pow2 (2 * n)" using pow2_double n less.prems(3) by simp
    moreover have "2 ^ 60 - 2 * n < 2 ^ 60 - n" "2 * n < 2 ^ 59"
      using n lt room by simp_all
    ultimately show ?thesis using less.hyps [of "2 * n"] n lt by fastforce
  qed
qed

lemma smallintset_rehash_ok:
  assumes E: "\<And>b. alloc_ok E b" and a: "intset_ok hash data a"
    and np: "np < 0x7FFFFFFE" "\<forall>c \<in># intset_vals a. c < 0x7FFFFFFE"
    and n: "n = 0 \<or> pow2 n" "n = 0 \<Longrightarrow> slots a = []" "n < 2 ^ 59"
    and room: "linear_room (size (intset_vals a)) < 2 ^ 58"
  obtains newa m where "smallintset_rehash E a hash data (of_nat n) np = Inr newa"
    "rehashed hash data a m newa" "np \<le> m" "\<forall>c \<in># intset_vals a. c \<le> m" "m < 0x7FFFFFFE"
    "n \<le> length (slots newa)" "length (slots newa) \<le> max n (2 * linear_room (size (intset_vals a)))"
proof -
  obtain m where m: "rehash_np a [0 ..< length (slots a)] np = Inr m" "np \<le> m"
    "\<forall>i \<in> set [0 ..< length (slots a)]. \<not> int_free (intcells a ! i) \<longrightarrow> intcells a ! i \<le> m"
    "m = np \<or> (\<exists>i \<in> set [0 ..< length (slots a)]. \<not> int_free (intcells a ! i) \<and> intcells a ! i = m)"
    by (rule rehash_np_spec [OF a, of "[0 ..< length (slots a)]" np]) auto
  have vals: "c \<in># intset_vals a \<longleftrightarrow> (\<exists>i < length (slots a). \<not> int_free (intcells a ! i) \<and> intcells a ! i = c)" for c
    by (auto simp: intset_vals_def in_set_conv_nth)
  have le: "\<forall>c \<in># intset_vals a. c \<le> m" using m(3) vals by force
  have "m = np \<or> m \<in># intset_vals a" using m(4) vals by auto
  then have lt: "m < 0x7FFFFFFE" using np by auto
  have nil: "n = 0 \<Longrightarrow> intset_vals a = {#} \<and> slots a = []" using n(2) intset_nilD by blast
  from rehash_grow_ok [OF E a lt le n(1) nil n(3) room]
  obtain newa where "rehash_grow E a hash data (of_nat n) m = Some (Inr newa)"
    "rehashed hash data a m newa" "n \<le> length (slots newa)"
    "length (slots newa) \<le> max n (2 * linear_room (size (intset_vals a)))"
    by blast
  then show ?thesis using that m(1,2) le lt by (simp add: smallintset_rehash_def or_diverges_def)
qed

section \<open>Insertion\<close>

text \<open>The largest value present.\<close>

definition intset_top :: "intmem \<Rightarrow> u64" where
  "intset_top a = Max (insert 0 (set_mset (intset_vals a)))"

lemma pow2_32: "pow2 32"
  unfolding pow2_def by (intro exI [of _ 5]) simp

lemma intset_ok_length: "intset_ok hash data a \<Longrightarrow> length (slots a) = 0 \<or> pow2 (length (slots a))"
  by (auto simp: intset_ok_def)

lemma grown_size_bounds:
  assumes "n = 0 \<or> pow2 n" "n < 2 ^ 57"
  obtains m where "grown_size (of_nat n) = of_nat m" "pow2 m" "n < m" "m \<le> 32 + 4 * n"
proof -
  have u: "unat (of_nat n :: u64) = n" using assms(2) by (simp add: unat_of_nat_small)
  let ?m = "if n < 32 then 32 else if 2 ^ 19 \<le> n \<or> n \<le> 2 ^ 8 then 2 * n else 4 * n"
  have "grown_size (of_nat n) = of_nat ?m"
    using u by (simp add: grown_size_def HT_N_INLINE_def word_less_nat_alt word_le_nat_alt push_bit_eq_mult
        mult.commute)
  moreover have "pow2 ?m"
    using assms pow2_double [of n] pow2_double [of "2 * n"] pow2_32 by auto
  moreover have "n < ?m" "?m \<le> 32 + 4 * n" by auto
  ultimately show ?thesis using that by blast
qed

lemma intset_top_vals: "c \<in># intset_vals a \<Longrightarrow> c \<le> intset_top a"
  by (simp add: intset_top_def)

lemma intset_top_le: "\<forall>c \<in># intset_vals a. c \<le> m \<Longrightarrow> intset_top a \<le> m"
  by (simp add: intset_top_def)

lemma smallintset_insert_loop_ok:
  assumes E: "\<And>b. alloc_ok E b" and "intset_ok hash data a"
    and "el_top (el a) = Some t" "val + 1 < t" "val < 0x7FFFFFFD"
    and vals: "\<forall>c \<in># vs. c < 0x7FFFFFFE" "intset_vals a = vs" "val \<le> intset_top a"
    and room: "linear_room (size vs) < 2 ^ 55"
  shows "\<exists>a'. smallintset_insert_loop E hash val data a = Some (Inr a') \<and> intset_ok hash data a' \<and>
    intset_vals a' = add_mset (val + 1) vs \<and>
    length (slots a') \<le> max (length (slots a)) (32 + 4 * linear_room (size vs))"
  using assms(2-4) vals(2,3)
proof (induction "linear_room (size vs) - length (slots a)" arbitrary: a t rule: less_induct)
  case less
  have val: "unat (val + 1) = unat val + 1" "0 < val + 1"
    using assms(5) unat_add_1 [of val] by (auto simp: word_less_nat_alt)
  from smallintset_insert_slot_spec [OF less.prems(1,2) val(2) less.prems(3)]
  show ?case
  proof cases
    case (1 a')
    then show ?thesis using less.prems(4) by (subst smallintset_insert_loop.simps) simp
  next
    case 2
    let ?n = "length (slots a)"
    have n: "?n < linear_room (size vs)" using 2(2) less.prems(4) by simp
    obtain n' where n': "grown_size (of_nat ?n) = of_nat n'" "pow2 n'" "?n < n'" "n' \<le> 32 + 4 * ?n"
      by (rule grown_size_bounds [OF intset_ok_length [OF less.prems(1)]]) (use n room in simp)
    have c: "\<forall>c \<in># intset_vals a. c < 0x7FFFFFFE" "linear_room (size (intset_vals a)) < 2 ^ 58"
      "n' < 2 ^ 59" "n' = 0 \<or> pow2 n'" "n' = 0 \<Longrightarrow> slots a = []"
      using vals(1) less.prems(4) room n n' by auto
    obtain newa m where r: "smallintset_rehash E a hash data (of_nat n') 0 = Inr newa"
      "rehashed hash data a m newa" "\<forall>c \<in># intset_vals a. c \<le> m" "m < 0x7FFFFFFE" "n' \<le> length (slots newa)"
      "length (slots newa) \<le> max n' (2 * linear_room (size (intset_vals a)))"
      by (rule smallintset_rehash_ok [OF E less.prems(1) _ c(1,4,5,3,2), of 0]) auto
    obtain t' where t': "intset_ok hash data newa" "intset_vals newa = vs" "el_top (el newa) = Some t'" "m + 1 < t'"
      using r(2) less.prems(4) by (auto simp: rehashed_def)
    have "val \<le> m" using less.prems(5) intset_top_le [OF r(3)] by simp
    moreover have "unat (m + 1) = unat m + 1" using r(4) unat_add_1 [of m] by (auto simp: word_less_nat_alt)
    ultimately have "val + 1 < t'" using t'(4) val(1) by (simp add: word_less_nat_alt word_le_nat_alt)
    moreover have "?n < length (slots newa)" using r(5) n'(3) by simp
    moreover have "val \<le> intset_top newa"
      using less.prems(4,5) t'(2) by (simp add: intset_top_def)
    ultimately have "\<exists>a'. smallintset_insert_loop E hash val data newa = Some (Inr a') \<and>
        intset_ok hash data a' \<and> intset_vals a' = add_mset (val + 1) vs \<and>
        length (slots a') \<le> max (length (slots newa)) (32 + 4 * linear_room (size vs))"
      using less.hyps [OF _ t'(1,3) _ t'(2)] n by simp
    moreover have "length (slots newa) \<le> 32 + 4 * linear_room (size vs)"
      using r(6) n'(4) n less.prems(4) by (simp add: max_def split: if_splits)
    ultimately have "\<exists>a'. smallintset_insert_loop E hash val data newa = Some (Inr a') \<and>
        intset_ok hash data a' \<and> intset_vals a' = add_mset (val + 1) vs \<and>
        length (slots a') \<le> max (length (slots a)) (32 + 4 * linear_room (size vs))"
      by (force simp: max_def)
    then show ?thesis
      using 2(1) r(1) n'(1) by (subst smallintset_insert_loop.simps) simp
  qed
qed

lemma jl_smallintset_insert_ok:
  assumes E: "\<And>b. alloc_ok E b" and a: "intset_ok hash data a"
    and val: "val < 0x7FFFFFFD" "val \<le> intset_top a" and vals: "\<forall>c \<in># intset_vals a. c < 0x7FFFFFFE"
    and room: "linear_room (size (intset_vals a)) < 2 ^ 55" "length (slots a) < 2 ^ 59"
  shows "\<exists>a'. jl_smallintset_insert E a hash val data = Inr a' \<and> intset_ok hash data a' \<and>
    intset_vals a' = add_mset (val + 1) (intset_vals a) \<and>
    length (slots a') \<le> max (length (slots a)) (32 + 4 * linear_room (size (intset_vals a)))"
proof -
  have inc: "unat (val + 1) = unat val + 1" using val(1) unat_add_1 [of val] by (auto simp: word_less_nat_alt)
  have loop: ?thesis if "jl_max_int a = Inr x" "(if x \<le> val + 1
            then smallintset_rehash E a hash data (of_nat (length (slots a))) (val + 1)
            else Inr a) = Inr b" "intset_ok hash data b" "el_top (el b) = Some t" "val + 1 < t"
      "intset_vals b = intset_vals a"
      "length (slots b) \<le> max (length (slots a)) (2 * linear_room (size (intset_vals a)))" for x b t
  proof -
    have "val \<le> intset_top b" using val(2) that(6) by (simp add: intset_top_def)
    from smallintset_insert_loop_ok [OF E that(3-5) val(1) vals that(6) this room(1)]
    show ?thesis
      using that(1,2,7) by (force simp: jl_smallintset_insert_def or_diverges_def max_def split: if_splits)
  qed
  have ne: "el a \<noteq> MemOther" using a by (auto simp: intset_ok_def)
  show ?thesis
  proof (cases "\<exists>t. el_top (el a) = Some t \<and> val + 1 < t")
    case True
    then obtain t where t: "el_top (el a) = Some t" "val + 1 < t" by blast
    have "jl_max_int a = Inr t" using t(1) by (auto simp: jl_max_int_def elim!: el_top_cases)
    then show ?thesis using loop [of t a t] t a by (simp add: not_le [symmetric])
  next
    case False
    then obtain x where x: "jl_max_int a = Inr x" "x \<le> val + 1"
      using ne by (cases "el a") (auto simp: jl_max_int_def not_less)
    have "val + 1 < 0x7FFFFFFE" using inc val(1) by (simp add: word_less_nat_alt)
    then obtain newa m where r: "smallintset_rehash E a hash data (of_nat (length (slots a))) (val + 1) = Inr newa"
      "rehashed hash data a m newa" "val + 1 \<le> m" "m < 0x7FFFFFFE"
      "length (slots newa) \<le> max (length (slots a)) (2 * linear_room (size (intset_vals a)))"
      by (rule smallintset_rehash_ok [OF E a _ vals intset_ok_length [OF a] _ room(2)])
        (use room in auto)
    then obtain t where t: "el_top (el newa) = Some t" "m + 1 < t" "intset_ok hash data newa"
      "intset_vals newa = intset_vals a" by (auto simp: rehashed_def)
    have "unat (m + 1) = unat m + 1" using r(4) unat_add_1 [of m] by (auto simp: word_less_nat_alt)
    then have "val + 1 < t" using t(2) r(3) by (simp add: word_less_nat_alt word_le_nat_alt)
    then show ?thesis using loop [OF x(1) _ t(3,1) _ t(4) r(5)] x(2) r(1) by simp
  qed
qed

section \<open>Look-up\<close>

lemma intset_bury:
  assumes ok: "intset_ok hash data a" and t: "el_top (el a) = Some t" and ne: "slots a \<noteq> []"
    and i: "i < length (slots a)" "\<not> int_free (intcells a ! i)"
  shows "intset_ok hash data (a\<lparr>slots := (slots a)[i := t]\<rparr>)"
    and "intset_vals (a\<lparr>slots := (slots a)[i := t]\<rparr>) = intset_vals a - {#intcells a ! i#}"
proof -
  obtain n: "pow2 (length (slots a))" and fit: "\<forall>v \<in> set (slots a). v \<le> t"
    and pl: "placed int_vacant (int_path (length (slots a))) (int_hash hash data) (intcells a)"
    by (rule intset_okD [OF ok ne]) (use t in auto)
  have cells: "intcells (a\<lparr>slots := (slots a)[i := t]\<rparr>) = (intcells a)[i := - 1]"
    by (simp add: intcells_update [OF t i(1)])
  have "placed int_vacant (int_path (length (intcells a))) (int_hash hash data) ((intcells a)[i := - 1])"
    by (rule ip.placed_insert) (use pl in simp_all)
  moreover have "\<forall>w \<in> set ((slots a)[i := t]). w \<le> t"
    using fit set_update_subset_insert [of "slots a" i t] by fastforce
  ultimately show "intset_ok hash data (a\<lparr>slots := (slots a)[i := t]\<rparr>)"
    using t n cells by (simp add: intset_ok_def)
  show "intset_vals (a\<lparr>slots := (slots a)[i := t]\<rparr>) = intset_vals a - {#intcells a ! i#}"
    unfolding intset_vals_def cells using i by (subst mset_filter_update) auto
qed

lemma jl_smallintset_lookup_ok:
  assumes ok: "intset_ok hash data a"
  obtains r where "jl_smallintset_lookup a eq key data hv pop = Inr (r, a)" "r = - 1"
    "\<forall>v \<in># intset_vals a. eq (v - 1) key data hv \<longrightarrow> hash (v - 1) data \<noteq> hv"
  | r a' where "jl_smallintset_lookup a eq key data hv pop = Inr (r, a')" "r \<noteq> - 1"
    "r + 1 \<in># intset_vals a" "eq r key data hv" "intset_ok hash data a'"
    "intset_vals a' = (if pop then intset_vals a - {#r + 1#} else intset_vals a)"
    "length (slots a') = length (slots a)"
proof (cases "slots a = []")
  case True
  then show ?thesis using that(1) by (simp add: jl_smallintset_lookup_def intset_nilD)
next
  case ne: False
  obtain t where t: "el_top (el a) = Some t" and n: "pow2 (length (slots a))"
    and pl: "placed int_vacant (int_path (length (slots a))) (int_hash hash data) (intcells a)"
    by (rule intset_okD [OF ok ne])
  let ?hit = "\<lambda>c. c \<noteq> - 1 \<and> eq (c - 1) key data hv"
  let ?s = "scan int_vacant ?hit (intcells a) (int_path (length (slots a)) hv)"
  have eq: "jl_smallintset_lookup a eq key data hv pop = (case ?s of
       None \<Rightarrow> Inr (- 1, a)
     | Some i \<Rightarrow> Inr (intcells a ! i - 1, if pop then a\<lparr>slots := (slots a)[i := t]\<rparr> else a))"
    using ne mask_index_lt [OF n]
    by (simp add: jl_smallintset_lookup_def Let_def int_path_def smallintset_probe_scan [OF t refl n])
  show ?thesis
  proof (cases ?s)
    case None
    have "hash (v - 1) data \<noteq> hv" if v: "v \<in># intset_vals a" "eq (v - 1) key data hv" for v
    proof
      assume h: "hash (v - 1) data = hv"
      obtain i where i: "i < length (intcells a)" "intcells a ! i = v" "\<not> int_free v"
        using v(1) by (auto simp: intset_vals_def in_set_conv_nth)
      have "\<exists>j. scan int_vacant ?hit (intcells a) (int_path (length (intcells a)) hv) = Some j"
        by (rule ip.lookup_complete [where hs = "int_hash hash data" and i = i]) (use pl i v h in \<open>auto simp: int_hash_def\<close>)
      then show False using None by simp
    qed
    then show ?thesis using that(1) eq None by auto
  next
    case (Some i)
    have i: "i < length (slots a)" "?hit (intcells a ! i)" "\<not> int_vacant (intcells a ! i)"
      using ip.lookup_sound [of int_vacant ?hit "intcells a" hv i] n Some by auto
    then have live: "\<not> int_free (intcells a ! i)" by simp
    have "intcells a ! i \<in># intset_vals a" using i live by (auto simp: intset_vals_def)
    then show ?thesis
      using that(2) [OF eq [unfolded Some option.case]] i live intset_bury [OF ok t ne i(1) live] ok
      by (cases pop) simp_all
  qed
qed

section \<open>Properties\<close>



text \<open>
  C18: A look-up in a well-formed set returns an index that is present and that the
  equality callback accepts, removing it (and nothing else) when asked to pop; it answers
  -1 only if no value present has the requested hash and is accepted, and then leaves the
  table alone.
\<close>

theorem smallintset_lookup_correct:
  fixes hash :: "u64 \<Rightarrow> 'd \<Rightarrow> u64"
  assumes "intset_ok hash data a"
  shows "\<exists>r a'. jl_smallintset_lookup a eq key data hv pop = Inr (r, a') \<and> intset_ok hash data a' \<and>
    (if r = - 1 then a' = a \<and> (\<forall>v \<in># intset_vals a. \<not> (eq (v - 1) key data hv \<and> hash (v - 1) data = hv))
     else r + 1 \<in># intset_vals a \<and> eq r key data hv \<and>
       intset_vals a' = (if pop then intset_vals a - {#r + 1#} else intset_vals a))"
  by (rule jl_smallintset_lookup_ok [OF assms, of eq key hv pop]) (use assms in \<open>force+\<close>)

text \<open>A three-element table of one-byte slots: 5 is stored as 6 in slot 1.\<close>

lemma pow2_4: "pow2 4"
  unfolding pow2_def by (intro exI [of _ 2]) simp

lemma smallintset_lookup_correct_witness:
  "\<exists>r a'. jl_smallintset_lookup \<lparr>el = MemU8, slots = [0, 6, 0xFF, 0]\<rparr> (\<lambda>v k d h. v = k) 5 () 5 True = Inr (r, a') \<and>
     intset_ok (\<lambda>v (d :: unit). v) () a' \<and> r = 5 \<and> intset_vals a' = {#}"
proof -
  let ?a = "\<lparr>el = MemU8, slots = [0, 6, 0xFF, 0]\<rparr> :: intmem"
  have cells: "intcells ?a = [0, 6, - 1, 0]" by (simp add: intcells_def acquire_tombstone_def)
  have l: "length (slots ?a) = 4" by simp
  have "int_path 4 5 = [1, 2, 3, 0]" by code_simp
  then have "reach int_vacant [0, 6, - 1, 0] (int_path 4 5) 1"
    unfolding reach_def by (intro exI [of _ "[]"] exI [of _ "[2, 3, 0]"]) simp
  then have "placed int_vacant (int_path 4) (int_hash (\<lambda>v (d :: unit). v) ()) [0, 6, - 1, 0]"
    by (auto simp: placed_def int_hash_def less_Suc_eq numeral_eq_Suc)
  then have "intset_ok (\<lambda>v (d :: unit). v) () ?a"
    unfolding intset_ok_def cells l using pow2_4 by simp
  from smallintset_lookup_correct [OF this, of "\<lambda>v k d h. v = k" 5 5 True]
  show ?thesis
    by (auto simp: intset_vals_def cells split: if_splits)
qed

text \<open>
  The growth path of an insertion asks for a table wide enough for the values already
  present only, so a value that is not next to them is truncated: 300 put into an empty
  set is found as 44.
\<close>

lemma rehash_grow_done:
  "rbind (jl_alloc_int_1d E (np + 1) newsz) (\<lambda>newa.
     rehash_fill a hash data [0 ..< length (slots a)] newa) = Inr (True, newa) \<Longrightarrow>
   rehash_grow E a hash data newsz np = Some (Inr newa)"
  by (subst rehash_grow.simps) simp

lemma insert_loop_done:
  "smallintset_insert_slot a (hash val data) (val + 1) = Inr (True, b) \<Longrightarrow>
   smallintset_insert_loop E hash val data a = Some (Inr b)"
  by (subst smallintset_insert_loop.simps) simp

lemma insert_loop_again:
  "smallintset_insert_slot a (hash val data) (val + 1) = Inr (False, a) \<Longrightarrow>
   smallintset_rehash E a hash data (grown_size (of_nat (length (slots a)))) 0 = Inr b \<Longrightarrow>
   smallintset_insert_loop E hash val data a = smallintset_insert_loop E hash val data b"
  by (subst smallintset_insert_loop.simps) simp

definition roomy :: heap_env where
  "roomy = \<lparr>alloc_ok = \<lambda>_. True, junk = \<lambda>_. 0\<rparr>"

lemma smallintset_insert_truncates:
  "rbind (jl_smallintset_insert roomy \<lparr>el = MemAny, slots = []\<rparr> (\<lambda>v (d :: unit). v) 300 ())
     (\<lambda>a. jl_smallintset_lookup a (\<lambda>v k d h. True) () () 300 False)
   = Inr (44, \<lparr>el = MemU8, slots = (replicate 32 0)[12 := 45]\<rparr>)"
proof -
  let ?h = "\<lambda>v (d :: unit). v :: u64"
  let ?a = "\<lparr>el = MemAny, slots = []\<rparr> :: intmem" and ?b = "\<lparr>el = MemU16, slots = []\<rparr> :: intmem"
  let ?c = "\<lparr>el = MemU8, slots = replicate 32 0\<rparr> :: intmem"
  let ?d = "\<lparr>el = MemU8, slots = (replicate 32 0)[12 := 45]\<rparr> :: intmem"
  have "rehash_grow roomy ?a ?h () 0 301 = Some (Inr ?b)"
    by (rule rehash_grow_done)
      (simp add: jl_alloc_int_1d_def new_genericmemory_def smallintset_empty_def)
  moreover have "rehash_grow roomy ?b ?h () 32 0 = Some (Inr ?c)"
    by (rule rehash_grow_done)
      (simp add: jl_alloc_int_1d_def new_genericmemory_def memory_nbytes_small smallintset_empty_def
        roomy_def map_replicate_const)
  then have "smallintset_insert_loop roomy ?h 300 () ?b = smallintset_insert_loop roomy ?h 300 () ?c"
    by (intro insert_loop_again)
      (simp_all add: smallintset_insert_slot_def smallintset_rehash_def grown_size_def HT_N_INLINE_def
        or_diverges_def)
  moreover have i: "mask_index 300 32 = 12" by code_simp
  have "smallintset_insert_slot ?c 300 301 = Inr (True, ?d)"
    by (simp add: smallintset_insert_slot_def i, subst smallintset_insert_probe.simps)
      (simp add: jl_intref_def jl_intset_release_def ignore_tombstone_def)
  then have "smallintset_insert_loop roomy ?h 300 () ?c = Some (Inr ?d)"
    by (intro insert_loop_done) simp
  moreover have "jl_smallintset_lookup ?d (\<lambda>v k d h. True) () () 300 False = Inr (44, ?d)"
    by (simp add: jl_smallintset_lookup_def i, subst smallintset_probe.simps)
      (simp add: jl_intref_acquire_def acquire_tombstone_def)
  ultimately show ?thesis
    by (simp add: jl_smallintset_insert_def jl_max_int_def smallintset_rehash_def or_diverges_def)
qed

section \<open>Insertion-ordered dictionaries\<close>

text \<open>\<open>m\<close> entries of \<open>stride\<close> slots after the inline index at slot 0, then only free entries.\<close>

definition od_entries :: "ptr list \<Rightarrow> nat \<Rightarrow> nat \<Rightarrow> bool" where
  "od_entries a stride m \<longleftrightarrow>
     (m = 0 \<or> 1 + stride * m \<le> length a) \<and>
     (\<forall>j < m. a ! (1 + stride * j) \<noteq> NULL) \<and>
     (\<forall>i < length a. 1 + stride * m \<le> i \<longrightarrow> a ! i = NULL)"

lemma reserve_scan_entries:
  assumes "od_entries a stride m" "m \<le> idx" "idx = 0 \<or> 1 + stride * idx \<le> length a" "0 < stride"
  shows "reserve_scan a stride idx = Inr m"
  using assms(2,3)
proof (induction idx)
  case (Suc idx)
  have i: "1 + stride * idx < length a" using Suc.prems(2) assms(4) by simp
  show ?case
  proof (cases "m \<le> idx")
    case True
    then have "1 + stride * m \<le> 1 + stride * idx" by simp
    then have "a ! (1 + stride * idx) = NULL" using assms(1) i unfolding od_entries_def by blast
    then show ?thesis using Suc.IH True i by simp
  next
    case False
    then show ?thesis using assms(1) Suc.prems(1) i by (auto simp: od_entries_def le_Suc_eq)
  qed
qed simp



end
