(* ===== verification/Dtypes.thy ===== *)
theory Dtypes
  imports Probing
begin

text \<open>Arithmetic helpers of \<open>src/support/dtypes.h\<close> that the tables use to choose their sizes.\<close>

text \<open>The argument and the result are \<open>unsigned int\<close>.\<close>

definition next_power_of_two :: "u32 \<Rightarrow> u32" where
  "next_power_of_two val =
     (let val = val - 1;
          val = val OR drop_bit 1 val;
          val = val OR drop_bit 2 val;
          val = val OR drop_bit 4 val;
          val = val OR drop_bit 8 val;
          val = val OR drop_bit 16 val
      in val + 1)"

definition smear :: "nat \<Rightarrow> u32 \<Rightarrow> u32" where
  "smear k w = w OR drop_bit k w"

lemma bit_smear_run:
  assumes "\<And>n. bit v n \<longleftrightarrow> (\<exists>j < k. bit w (n + j))"
  shows "bit (smear k v) n \<longleftrightarrow> (\<exists>j < 2 * k. bit w (n + j))"
proof -
  have "(\<exists>j < 2 * k. P j) \<longleftrightarrow> (\<exists>j < k. P j) \<or> (\<exists>j < k. P (k + j))" for P
    by (metis add.commute add_lessD1 le_add_diff_inverse less_diff_conv mult_2 nat_add_left_cancel_less not_less)
  then show ?thesis
    by (simp add: smear_def bit_simps assms ac_simps)
qed

lemma next_power_of_two_smear:
  "next_power_of_two val = smear 16 (smear 8 (smear 4 (smear 2 (smear 1 (val - 1))))) + 1"
  by (simp add: next_power_of_two_def smear_def Let_def)

lemma bit_smeared:
  "bit (smear 16 (smear 8 (smear 4 (smear 2 (smear 1 w))))) n \<longleftrightarrow> (\<exists>j < 32. bit w (n + j))"
proof -
  have "\<exists>j < 1. bit w (n + j) \<longleftrightarrow> bit w n" for n by auto
  have 1: "bit (smear 1 w) n \<longleftrightarrow> (\<exists>j < 2. bit w (n + j))" for n
    using bit_smear_run [of w 1 w n] by simp
  have 2: "bit (smear 2 (smear 1 w)) n \<longleftrightarrow> (\<exists>j < 4. bit w (n + j))" for n
    using bit_smear_run [OF 1, of n] by simp
  have 3: "bit (smear 4 (smear 2 (smear 1 w))) n \<longleftrightarrow> (\<exists>j < 8. bit w (n + j))" for n
    using bit_smear_run [OF 2, of n] by simp
  have 4: "bit (smear 8 (smear 4 (smear 2 (smear 1 w)))) n \<longleftrightarrow> (\<exists>j < 16. bit w (n + j))" for n
    using bit_smear_run [OF 3, of n] by simp
  show ?thesis using bit_smear_run [OF 4, of n] by simp
qed

text \<open>For \<open>0 < val \<le> 2 ^ 31\<close> the result is the least power of two that is at least \<open>val\<close>.\<close>

lemma next_power_of_two_least:
  assumes "0 < val" "unat val \<le> 2 ^ 31"
  obtains k where "unat (next_power_of_two val) = 2 ^ k" "k \<le> 31" "unat val \<le> 2 ^ k"
    "\<forall>j < k. 2 ^ j < unat val"
proof -
  let ?w = "val - 1"
  have w: "unat ?w = unat val - 1" using assms(1) by (simp add: unat_pred word_greater_zero_iff)
  let ?B = "{n. bit ?w n}"
  have B32: "n < 32" if "bit ?w n" for n using bit_imp_le_length [OF that] by simp
  define k where "k = (LEAST k. unat ?w < 2 ^ k)"
  have k: "unat ?w < 2 ^ k" unfolding k_def by (rule LeastI [of _ 32]) (use unsigned_less [of ?w] in simp)
  have least: "2 ^ j \<le> unat ?w" if "j < k" for j
    using not_less_Least [of j "\<lambda>k. unat ?w < 2 ^ k"] that unfolding k_def by simp
  have k31: "k \<le> 31"
    unfolding k_def by (rule Least_le) (use w assms in \<open>auto simp: word_greater_zero_iff unat_gt_0\<close>)
  have run: "(\<exists>j < 32. bit ?w (n + j)) \<longleftrightarrow> n < k" for n
  proof
    assume "\<exists>j < 32. bit ?w (n + j)"
    then obtain j where "bit (unat ?w) (n + j)" by (auto simp: bit_unsigned_iff)
    then have "2 ^ (n + j) \<le> unat ?w"
      by (metis bit_nat_iff bit_take_bit_iff less_irrefl not_le take_bit_nat_eq_self bit_iff_odd div_less even_zero)
    then have "(2::nat) ^ (n + j) < 2 ^ k" using k by (rule le_less_trans)
    then have "n + j < k" by (rule power_less_imp_less_exp [rotated]) simp
    then show "n < k" by simp
  next
    assume n: "n < k"
    have "bit (unat ?w) (k - 1)"
    proof -
      have "unat ?w div 2 ^ (k - 1) = 1"
        using least [of "k - 1"] k n by (intro div_nat_eqI) (cases k; simp)+
      then show ?thesis by (simp add: bit_iff_odd)
    qed
    then show "\<exists>j < 32. bit ?w (n + j)"
      using n k31 by (intro exI [of _ "k - 1 - n"]) (auto simp: bit_unsigned_iff)
  qed
  have "smear 16 (smear 8 (smear 4 (smear 2 (smear 1 ?w)))) = mask k"
    by (rule bit_eqI, unfold bit_smeared run) (auto simp: bit_mask_iff)
  then have "next_power_of_two val = 2 ^ k"
    unfolding next_power_of_two_smear by (simp only: mask_eq_exp_minus_1 diff_add_cancel)
  moreover have "unat (2 ^ k :: u32) = 2 ^ k"
    using k31 power_increasing [of k 31 "2::nat"] unat_of_nat_small [of "2 ^ k", where 'a = 32] by simp
  moreover have "0 < unat val" using assms(1) by (simp add: unat_gt_0 word_greater_zero_iff)
  then have "unat val \<le> 2 ^ k" "\<forall>j < k. 2 ^ j < unat val" using k w least by force+
  ultimately show ?thesis using that k31 by auto
qed

end
