(* ===== verification/IdSet.thy ===== *)
theory IdSet
  imports SmallIntSet Dtypes
begin

text \<open>
  Identity sets (\<open>src/idset.c\<close>): a \<open>Memory{Any}\<close> of keys in insertion order together with
  a small-integer set that indexes it.  \<open>jl_object_id\<close> and \<open>jl_egal\<close> are arguments of the
  model; an identity relation has equal object ids on egal values.
\<close>

section \<open>The operations\<close>

record identity =
  object_id :: "ptr \<Rightarrow> u64"
  egal :: "ptr \<Rightarrow> ptr \<Rightarrow> bool"

definition idset_hash :: "identity \<Rightarrow> u64 \<Rightarrow> ptr list \<Rightarrow> u64" where
  "idset_hash I idx data =
     (if length data \<le> unat idx then 0
      else let x = data ! unat idx in if x = NULL then 0 else object_id I x)"

definition idset_eq :: "identity \<Rightarrow> u64 \<Rightarrow> ptr \<Rightarrow> ptr list \<Rightarrow> u64 \<Rightarrow> bool" where
  "idset_eq I idx y data hv =
     (if length data \<le> unat idx then False
      else let x = data ! unat idx in if x = NULL then False else egal I x y)"

definition jl_idset_rehash :: "heap_env \<Rightarrow> identity \<Rightarrow> ptr list \<Rightarrow> intmem \<Rightarrow> u64 \<Rightarrow> intmem result" where
  "jl_idset_rehash E I keys idxs newsz =
     (if newsz = 0 then Inr idxs
      else smallintset_rehash E idxs (idset_hash I) keys (ucast (next_power_of_two (ucast newsz))) 0)"

definition jl_idset_peek_bp :: "identity \<Rightarrow> ptr list \<Rightarrow> intmem \<Rightarrow> ptr \<Rightarrow> u64 result" where
  "jl_idset_peek_bp I keys idxs key =
     rbind (jl_smallintset_lookup idxs (idset_eq I) key keys (object_id I key) False) (\<lambda>(r, _). Inr r)"

definition jl_idset_get :: "identity \<Rightarrow> ptr list \<Rightarrow> intmem \<Rightarrow> ptr \<Rightarrow> ptr result" where
  "jl_idset_get I keys idxs key =
     rbind (jl_idset_peek_bp I keys idxs key) (\<lambda>idx.
       if idx = - 1 then Inr NULL else rget keys (unat idx))"

text \<open>Compaction moves the keys down over the gaps; the result is negative if one moved.\<close>

fun compact_loop :: "nat list \<Rightarrow> nat \<Rightarrow> bool \<Rightarrow> ptr list \<Rightarrow> nat \<times> bool \<times> ptr list" where
  "compact_loop [] j rehash keys = (j, rehash, keys)"
| "compact_loop (i # is) j rehash keys =
     (let k = keys ! i in
      if k \<noteq> NULL then
        (if i \<noteq> j then compact_loop is (Suc j) True (keys[j := k, i := NULL])
         else compact_loop is (Suc j) rehash keys)
      else compact_loop is j rehash keys)"

definition idset_compact :: "ptr list \<Rightarrow> int \<times> ptr list" where
  "idset_compact keys =
     (let (j, rehash, keys) = compact_loop [0 ..< length keys] 0 False keys
      in (if rehash then - int j else int j, keys))"

text \<open>The end of the occupied prefix: scan back over \<open>NULL\<close>s.\<close>

fun put_key_scan :: "ptr list \<Rightarrow> nat \<Rightarrow> nat" where
  "put_key_scan keys 0 = 0"
| "put_key_scan keys (Suc i) = (if keys ! i = NULL then put_key_scan keys i else Suc i)"

definition put_key_newlen :: "nat \<Rightarrow> nat" where
  "put_key_newlen l = (if l < 4 then 4 else l * 3 div 2)"

definition store_key :: "ptr list \<Rightarrow> nat \<Rightarrow> ptr \<Rightarrow> int \<Rightarrow> (ptr list \<times> int) result" where
  "store_key keys i key newidx =
     rbind (rget keys i) (\<lambda>k.
     rbind (assert_that (k = NULL)) (\<lambda>_.
     rbind (rset keys i key) (\<lambda>keys. Inr (keys, newidx))))"

definition jl_idset_put_key :: "heap_env \<Rightarrow> ptr list \<Rightarrow> ptr \<Rightarrow> (ptr list \<times> int) result" where
  "jl_idset_put_key E keys key =
     (let l = length keys; i = put_key_scan keys l in
      if i = l then
        (let (c, keys) = idset_compact keys;
             newidx = (if c < 0 then c - 1 else int i);
             i = nat \<bar>c\<bar> in
         if l div 3 * 2 \<le> i then
           rbind (jl_alloc_memory_any E (of_nat (put_key_newlen l))) (\<lambda>nk.
             store_key (take i keys @ drop i nk) i key newidx)
         else store_key keys i key newidx)
      else store_key keys i key (int i))"

fun put_idx_loop :: "heap_env \<Rightarrow> identity \<Rightarrow> ptr list \<Rightarrow> nat list \<Rightarrow> intmem \<Rightarrow> intmem result" where
  "put_idx_loop E I keys [] idxs = Inr idxs"
| "put_idx_loop E I keys (i # is) idxs =
     rbind (rget keys i) (\<lambda>k.
       if k \<noteq> NULL then
         rbind (jl_smallintset_insert E idxs (idset_hash I) (of_nat i) keys) (\<lambda>idxs.
           put_idx_loop E I keys is idxs)
       else put_idx_loop E I keys is idxs)"

definition jl_idset_put_idx :: "heap_env \<Rightarrow> identity \<Rightarrow> ptr list \<Rightarrow> intmem \<Rightarrow> int \<Rightarrow> intmem result" where
  "jl_idset_put_idx E I keys idxs idx =
     (if idx < 0 then
        rbind (smallintset_empty idxs) (\<lambda>idxs. put_idx_loop E I keys [0 ..< nat (- idx)] idxs)
      else jl_smallintset_insert E idxs (idset_hash I) (of_int idx) keys)"

definition jl_idset_pop :: "identity \<Rightarrow> ptr list \<Rightarrow> intmem \<Rightarrow> ptr \<Rightarrow> (u64 \<times> ptr list \<times> intmem) result" where
  "jl_idset_pop I keys idxs key =
     rbind (jl_smallintset_lookup idxs (idset_eq I) key keys (object_id I key) True) (\<lambda>(idx, idxs).
       if idx \<noteq> - 1
       then rbind (rset keys (unat idx) NULL) (\<lambda>keys. Inr (idx, keys, idxs))
       else Inr (idx, keys, idxs))"

text \<open>
  Adding a key the way the callers do (\<open>jl_as_global_root\<close> in \<open>src/staticdata.c\<close>,
  \<open>egal_set::insert\<close> in \<open>src/aotcompile.cpp\<close>): store it, then index it.
\<close>

definition idset_put :: "heap_env \<Rightarrow> identity \<Rightarrow> ptr list \<Rightarrow> intmem \<Rightarrow> ptr \<Rightarrow> (ptr list \<times> intmem) result" where
  "idset_put E I keys idxs key =
     rbind (jl_idset_put_key E keys key) (\<lambda>(keys, idx).
     rbind (jl_idset_put_idx E I keys idxs idx) (\<lambda>idxs. Inr (keys, idxs)))"

text \<open>
  The table part of \<open>jl_as_global_root\<close> (the special cases before it return values that are
  rooted anyway) under its lock, and \<open>egal_set::insert\<close>.
\<close>

definition global_root_intern ::
  "heap_env \<Rightarrow> identity \<Rightarrow> ptr list \<times> intmem \<Rightarrow> ptr \<Rightarrow> bool \<Rightarrow> (ptr \<times> ptr list \<times> intmem) result" where
  "global_root_intern E I s val insert_new =
     rbind (jl_idset_get I (fst s) (snd s) val) (\<lambda>rval.
       if rval \<noteq> NULL then Inr (rval, s)
       else if insert_new then rbind (idset_put E I (fst s) (snd s) val) (\<lambda>s. Inr (val, s))
       else Inr (NULL, s))"

definition egal_set_insert :: "heap_env \<Rightarrow> identity \<Rightarrow> ptr list \<times> intmem \<Rightarrow> ptr \<Rightarrow> (ptr list \<times> intmem) result" where
  "egal_set_insert E I s val =
     rbind (jl_idset_get I (fst s) (snd s) val) (\<lambda>rval.
       if rval = NULL then idset_put E I (fst s) (snd s) val else Inr s)"

section \<open>Invariant\<close>

text \<open>The documented contract of \<open>jl_egal\<close> and \<open>jl_object_id\<close>.\<close>

definition identity_ok :: "identity \<Rightarrow> bool" where
  "identity_ok I \<longleftrightarrow> (\<forall>x. egal I x x) \<and> (\<forall>x y. egal I x y \<longrightarrow> egal I y x) \<and>
     (\<forall>x y z. egal I x y \<longrightarrow> egal I y z \<longrightarrow> egal I x z) \<and>
     (\<forall>x y. egal I x y \<longrightarrow> object_id I x = object_id I y)"

definition occupied :: "ptr list \<Rightarrow> nat list" where
  "occupied keys = filter (\<lambda>i. keys ! i \<noteq> NULL) [0 ..< length keys]"

definition idset_ok :: "identity \<Rightarrow> ptr list \<Rightarrow> intmem \<Rightarrow> bool" where
  "idset_ok I keys idxs \<longleftrightarrow>
     intset_ok (idset_hash I) keys idxs \<and>
     intset_vals idxs = mset (map (\<lambda>i. of_nat (Suc i)) (occupied keys)) \<and>
     (\<forall>i \<in> set (occupied keys). \<forall>j \<in> set (occupied keys). egal I (keys ! i) (keys ! j) \<longrightarrow> i = j) \<and>
     length keys < 2 ^ 30 \<and> length (slots idxs) \<le> 2 ^ 50"

definition idset_keys :: "ptr list \<Rightarrow> ptr set" where
  "idset_keys keys = set keys - {NULL}"

lemma set_occupied: "set (occupied keys) = {i. i < length keys \<and> keys ! i \<noteq> NULL}"
  by (auto simp: occupied_def)

lemma idset_keys_occupied: "idset_keys keys = (\<lambda>i. keys ! i) ` set (occupied keys)"
  by (auto simp: idset_keys_def set_occupied in_set_conv_nth)

lemma occupied_cong_append:
  assumes "n < length keys'" "keys' ! n \<noteq> NULL"
    and "\<And>i. i < n \<Longrightarrow> (i < length keys \<and> keys ! i \<noteq> NULL) = (keys' ! i \<noteq> NULL)"
    and "\<And>i. n \<le> i \<Longrightarrow> i < length keys \<Longrightarrow> keys ! i = NULL"
    and "\<And>i. n < i \<Longrightarrow> i < length keys' \<Longrightarrow> keys' ! i = NULL"
  shows "occupied keys' = occupied keys @ [n]"
proof -
  have split: "[0 ..< length keys'] = [0 ..< n] @ n # [Suc n ..< length keys']"
    using assms(1) by (metis append_Cons append_Nil le_eq_less_or_eq upt_add_eq_append upt_conv_Cons zero_le
        le_add_diff_inverse)
  have "filter (\<lambda>i. keys' ! i \<noteq> NULL) [Suc n ..< length keys'] = []"
    using assms(5) by (auto simp: filter_empty_conv)
  moreover have "filter (\<lambda>i. keys' ! i \<noteq> NULL) [0 ..< n] =
      filter (\<lambda>i. i < length keys \<and> keys ! i \<noteq> NULL) [0 ..< n]"
    by (rule filter_cong) (use assms(3) in auto)
  moreover have "filter (\<lambda>i. i < length keys \<and> keys ! i \<noteq> NULL) [0 ..< n] = occupied keys"
  proof (cases "n \<le> length keys")
    case True
    then have "[0 ..< length keys] = [0 ..< n] @ [n ..< length keys]"
      using upt_add_eq_append [of 0 n "length keys - n"] by simp
    moreover have "filter (\<lambda>i. keys ! i \<noteq> NULL) [n ..< length keys] = []"
      using assms(4) by (auto simp: filter_empty_conv)
    ultimately show ?thesis using True by (auto simp: occupied_def intro!: filter_cong)
  next
    case False
    then have "[0 ..< n] = [0 ..< length keys] @ [length keys ..< n]"
      using upt_add_eq_append [of 0 "length keys" "n - length keys"] by simp
    then show ?thesis by (auto simp: occupied_def intro!: filter_cong)
  qed
  ultimately show ?thesis using split assms(2) by (simp add: occupied_def)
qed

section \<open>Storing a key\<close>

lemma put_key_scan_spec:
  assumes "i \<le> length keys"
  shows "put_key_scan keys i \<le> i"
    "\<And>j. put_key_scan keys i \<le> j \<Longrightarrow> j < i \<Longrightarrow> keys ! j = NULL"
    "put_key_scan keys i \<noteq> 0 \<Longrightarrow> keys ! (put_key_scan keys i - 1) \<noteq> NULL"
  using assms by (induction i) (auto simp: le_Suc_eq less_Suc_eq split: if_splits)

text \<open>The loop has moved the keys of the first \<open>i\<close> slots to the front.\<close>

lemma compact_loop_spec:
  assumes "l = length keys" "i \<le> l" "keys = P @ replicate (i - length P) NULL @ rest" "length P \<le> i"
    and "length rest = l - i"
  shows "\<exists>r'. compact_loop [i ..< l] (length P) r keys =
      (length (P @ filter ((\<noteq>) NULL) rest), r',
       P @ filter ((\<noteq>) NULL) rest @ replicate (l - length (P @ filter ((\<noteq>) NULL) rest)) NULL) \<and>
    (r \<longrightarrow> r') \<and> (r' \<and> \<not> r \<longrightarrow> filter ((\<noteq>) NULL) rest \<noteq> []) \<and>
    (\<not> r' \<longrightarrow> P @ filter ((\<noteq>) NULL) rest @ replicate (l - length (P @ filter ((\<noteq>) NULL) rest)) NULL = keys)"
  using assms
proof (induction rest arbitrary: i P r keys)
  case Nil
  then show ?case by simp
next
  case (Cons k rest)
  let ?m = "i - length P"
  have il: "i < l" using Cons.prems(5) by auto
  then have upt: "[i ..< l] = i # [Suc i ..< l]" by (simp add: upt_conv_Cons)
  have rl: "length rest = l - Suc i" using Cons.prems(5) by simp
  have ki: "keys ! i = k" using Cons.prems(3,4) by (simp add: nth_append)
  show ?case
  proof (cases "k = NULL")
    case True
    have keys: "keys = P @ replicate (Suc i - length P) NULL @ rest"
      using Cons.prems(3,4) True by (simp add: Suc_diff_le replicate_app_Cons_same)
    show ?thesis
      using Cons.IH [OF Cons.prems(1) _ keys _ rl, of r] Cons.prems(4,5) il ki True
      unfolding upt by auto
  next
    case False
    show ?thesis
    proof (cases "i = length P")
      case True
      have keys: "keys = (P @ [k]) @ replicate (Suc i - length (P @ [k])) NULL @ rest"
        using Cons.prems(3) True by simp
      show ?thesis
        using Cons.IH [OF Cons.prems(1) _ keys _ rl, of r] Cons.prems(5) il ki False True
        unfolding upt by auto
    next
      case ne: False
      let ?keys = "keys[length P := k, i := NULL]"
      have m: "?m = Suc (?m - 1)" using ne Cons.prems(4) by simp
      have keys: "?keys = (P @ [k]) @ replicate (Suc i - length (P @ [k])) NULL @ rest"
      proof -
        have "keys[length P := k] = P @ k # replicate (?m - 1) NULL @ k # rest"
          unfolding Cons.prems(3) by (subst m) (simp add: list_update_append)
        moreover have "(P @ k # replicate (?m - 1) NULL @ k # rest)[i := NULL] =
            P @ k # replicate (?m - 1) NULL @ NULL # rest"
          using m Cons.prems(4) by (simp add: list_update_append nat.split)
        moreover have "replicate (?m - 1) NULL @ NULL # rest = replicate ?m NULL @ rest"
          by (subst (2) m) (simp add: replicate_app_Cons_same)
        ultimately show ?thesis by simp
      qed
      have "l = length ?keys" using Cons.prems(1) by simp
      show ?thesis
        using Cons.IH [OF \<open>l = length ?keys\<close> _ keys _ rl, of True] Cons.prems(4,5) il ki False ne
        unfolding upt by auto
    qed
  qed
qed

lemma idset_compact_spec:
  assumes "keys = [] \<or> last keys \<noteq> NULL"
  obtains "idset_compact keys = (int (length keys), keys)"
  | j ks where "idset_compact keys = (- int j, ks @ replicate (length keys - j) NULL)"
      "ks = filter ((\<noteq>) NULL) keys" "j = length ks" "0 < j" "j \<le> length keys"
proof -
  let ?f = "filter ((\<noteq>) NULL) keys"
  have "\<exists>r. compact_loop [0 ..< length keys] 0 False keys =
      (length ?f, r, ?f @ replicate (length keys - length ?f) NULL) \<and> (r \<longrightarrow> ?f \<noteq> []) \<and>
      (\<not> r \<longrightarrow> ?f @ replicate (length keys - length ?f) NULL = keys)"
    using compact_loop_spec [of "length keys" keys 0 "[]" keys False] by simp
  then obtain r where r: "compact_loop [0 ..< length keys] 0 False keys =
      (length ?f, r, ?f @ replicate (length keys - length ?f) NULL)" "r \<longrightarrow> ?f \<noteq> []"
    "\<not> r \<longrightarrow> ?f @ replicate (length keys - length ?f) NULL = keys"
    by blast
  show ?thesis
  proof (cases r)
    case True
    then show ?thesis
      using that(2) [of "length ?f" ?f] r length_filter_le [of "(\<noteq>) NULL" keys]
      by (simp add: idset_compact_def)
  next
    case False
    have "length keys - length ?f = 0"
    proof (rule ccontr)
      assume "length keys - length ?f \<noteq> 0"
      then have "keys \<noteq> []" "last keys = NULL"
        using r(3) False by (metis last_appendR last_replicate length_0_conv replicate_empty diff_0_eq_0)+
      then show False using assms by simp
    qed
    then have "?f = keys" using r(3) False by simp
    then show ?thesis using that(1) r(1) False by (simp add: idset_compact_def)
  qed
qed

text \<open>
  Either the key is stored right after the last occupied slot and everything else stays in
  place, or the keys were compacted and the caller is told to index all of them again.
\<close>

lemma put_key_append:
  assumes "n \<le> length keys" "n < length ks" "key \<noteq> NULL"
    and "\<And>i. n \<le> i \<Longrightarrow> i < length keys \<Longrightarrow> keys ! i = NULL"
    and "\<And>i. n \<le> i \<Longrightarrow> i < length ks \<Longrightarrow> ks ! i = NULL" "take n ks = take n keys"
  shows "occupied (ks[n := key]) = occupied keys @ [n]"
    "\<forall>i \<in> set (occupied keys). ks[n := key] ! i = keys ! i"
proof -
  have eq: "ks ! i = keys ! i" if "i < n" for i
    using that assms(6) nth_take [of i n ks] nth_take [of i n keys] by simp
  then show "occupied (ks[n := key]) = occupied keys @ [n]"
    by (intro occupied_cong_append) (use assms in auto)
  show "\<forall>i \<in> set (occupied keys). ks[n := key] ! i = keys ! i"
    using eq assms(4) by (auto simp: set_occupied) (metis assms(4) not_less nth_list_update_neq less_irrefl)
qed

lemma store_key_ok:
  "i < length keys \<Longrightarrow> keys ! i = NULL \<Longrightarrow> store_key keys i key newidx = Inr (keys[i := key], newidx)"
  by (simp add: store_key_def)

lemma jl_idset_put_key_ok:
  assumes E: "\<And>b. alloc_ok E b" and key: "key \<noteq> NULL" and l: "length keys < 2 ^ 29"
  obtains n keys' where "jl_idset_put_key E keys key = Inr (keys', int n)"
      "occupied keys' = occupied keys @ [n]" "n < length keys'" "keys' ! n = key"
      "\<forall>i \<in> set (occupied keys). keys' ! i = keys ! i" "n = 0 \<or> n - 1 \<in> set (occupied keys)"
      "length keys' < 2 ^ 30"
  | n m where "jl_idset_put_key E keys key =
        Inr (filter ((\<noteq>) NULL) keys @ key # replicate m NULL, - int (Suc n))"
      "n = length (filter ((\<noteq>) NULL) keys)" "n + Suc m < 2 ^ 30"
proof -
  let ?l = "length keys" let ?i = "put_key_scan keys ?l" let ?nl = "put_key_newlen ?l"
  note scan = put_key_scan_spec [OF order_refl, of keys]
  have nl: "?l < ?nl" "?nl < 2 ^ 30" using l by (auto simp: put_key_newlen_def)
  have alloc: "jl_alloc_memory_any E (of_nat ?nl) = Inr (replicate ?nl NULL)"
    by (rule jl_alloc_memory_any_ok [OF E]) (use nl in simp)
  show ?thesis
  proof (cases "?i = ?l")
    case False
    then have i: "?i < ?l" using scan(1) by simp
    have "jl_idset_put_key E keys key = Inr (keys[?i := key], int ?i)"
      using i scan(2) [of ?i] by (simp add: jl_idset_put_key_def Let_def store_key_ok)
    then show ?thesis
      using that(1) [of "keys[?i := key]" ?i] put_key_append [of ?i keys keys key] scan i key l
      by (cases "?i = 0") (auto simp: set_occupied)
  next
    case full: True
    have last: "keys = [] \<or> last keys \<noteq> NULL" using scan(3) full by (auto simp: last_conv_nth)
    from idset_compact_spec [OF last] show ?thesis
    proof cases
      case 1
      let ?ks = "keys @ replicate (?nl - ?l) NULL"
      have ge: "?l div 3 * 2 \<le> ?l" by simp
      have "jl_idset_put_key E keys key = Inr (?ks[?l := key], int ?l)"
        using full 1 alloc nl ge by (simp add: jl_idset_put_key_def Let_def store_key_ok nth_append)
      moreover have "?l = 0 \<or> ?l - 1 \<in> set (occupied keys)"
        using last by (auto simp: set_occupied last_conv_nth)
      ultimately show ?thesis
        using that(1) [of "?ks[?l := key]" ?l] put_key_append [of ?l keys ?ks key] key nl
        by (simp add: nth_append)
    next
      case (2 j ks)
      define m where "m = (if ?l div 3 * 2 \<le> j then ?nl else ?l)"
      have jm: "j < m" "m < 2 ^ 30" using 2(5) nl l by (auto simp: m_def)
      have "jl_idset_put_key E keys key = store_key (ks @ replicate (m - j) NULL) j key (- int j - 1)"
        using full 2 alloc nl by (simp add: jl_idset_put_key_def Let_def m_def)
      also have "\<dots> = Inr ((ks @ replicate (m - j) NULL)[j := key], - int j - 1)"
        using 2(3) jm by (intro store_key_ok) (simp_all add: nth_append)
      also have "(ks @ replicate (m - j) NULL)[j := key] = ks @ key # replicate (m - j - 1) NULL"
        using 2(3) jm(1) by (cases "m - j") (simp_all add: list_update_append)
      finally show ?thesis using that(2) [of "m - j - 1" j] 2 jm by simp
    qed
  qed
qed

section \<open>Indexing a key\<close>

lemma intset_ok_cong:
  assumes "\<And>v. v \<in># intset_vals a \<Longrightarrow> hash (v - 1) d = hash (v - 1) d'"
  shows "intset_ok hash d a \<longleftrightarrow> intset_ok hash d' a"
proof -
  have "int_hash hash d (intcells a ! i) = int_hash hash d' (intcells a ! i)" if "i < length (intcells a)" for i
    using that assms [of "intcells a ! i"] by (auto simp: int_hash_def intset_vals_def)
  then show ?thesis by (auto simp: intset_ok_def placed_def)
qed

lemma idset_hash_at:
  assumes "i < length keys" "length keys < 2 ^ 30" "keys ! i \<noteq> NULL"
  shows "idset_hash I (of_nat i) keys = object_id I (keys ! i)"
  using assms by (simp add: idset_hash_def unat_of_nat_small)

lemma idset_eq_at:
  assumes "i < length keys" "length keys < 2 ^ 30" "keys ! i \<noteq> NULL"
  shows "idset_eq I (of_nat i) y keys hv = egal I (keys ! i) y"
  using assms by (simp add: idset_eq_def unat_of_nat_small)

text \<open>Inserting the index one past the largest one present.\<close>

lemma idset_insert_next:
  assumes E: "\<And>b. alloc_ok E b" and ok: "intset_ok (idset_hash I) keys idxs"
    and vals: "intset_vals idxs = mset (map (\<lambda>i. of_nat (Suc i)) is)"
    and small: "\<forall>i \<in> set is. i < 2 ^ 30" "n < 2 ^ 30" "length is < 2 ^ 30" "length (slots idxs) \<le> 2 ^ 50"
    and n: "n = 0 \<or> n - 1 \<in> set is"
  shows "\<exists>idxs'. jl_smallintset_insert E idxs (idset_hash I) (of_nat n) keys = Inr idxs' \<and>
    intset_ok (idset_hash I) keys idxs' \<and>
    intset_vals idxs' = mset (map (\<lambda>i. of_nat (Suc i)) (is @ [n])) \<and> length (slots idxs') \<le> 2 ^ 50"
proof -
  have sz: "size (intset_vals idxs) = length is" by (simp add: vals del: of_nat_Suc)
  have room: "linear_room (length is) < 2 ^ 40" using small(3) by (simp add: linear_room_def)
  have "(of_nat n :: u64) < 0x7FFFFFFD"
    using small(2) by (simp add: word_less_nat_alt unat_of_nat_small)
  moreover have "of_nat n \<le> intset_top idxs"
  proof (cases "n = 0")
    case False
    then have "n - 1 \<in> set is" using n by simp
    then have "of_nat (Suc (n - 1)) \<in># intset_vals idxs"
      unfolding vals set_mset_mset set_map by (rule imageI)
    then show ?thesis using intset_top_vals [of "of_nat n" idxs] False by simp
  qed simp
  moreover have "\<forall>c \<in># intset_vals idxs. c < 0x7FFFFFFE"
    using small(1) by (auto simp: vals word_less_nat_alt unat_of_nat_small simp del: of_nat_Suc)
  moreover have "linear_room (size (intset_vals idxs)) < 2 ^ 55" "length (slots idxs) < 2 ^ 59"
    using room small(4) by (simp_all add: sz)
  ultimately obtain idxs' where r: "jl_smallintset_insert E idxs (idset_hash I) (of_nat n) keys = Inr idxs'"
    "intset_ok (idset_hash I) keys idxs'" "intset_vals idxs' = add_mset (of_nat n + 1) (intset_vals idxs)"
    "length (slots idxs') \<le> max (length (slots idxs)) (32 + 4 * linear_room (size (intset_vals idxs)))"
    using jl_smallintset_insert_ok [OF E ok] by meson
  then show ?thesis
    using room small(4) by (intro exI [of _ idxs']) (simp add: vals sz add.commute)
qed

lemma put_idx_loop_ok:
  assumes E: "\<And>b. alloc_ok E b" and N: "N \<le> length keys" "length keys < 2 ^ 30"
    and nn: "\<And>i. i < N \<Longrightarrow> keys ! i \<noteq> NULL"
    and "k \<le> N" "intset_ok (idset_hash I) keys idxs"
    "intset_vals idxs = mset (map (\<lambda>i. of_nat (Suc i)) [0 ..< k])" "length (slots idxs) \<le> 2 ^ 50"
  shows "\<exists>idxs'. put_idx_loop E I keys [k ..< N] idxs = Inr idxs' \<and> intset_ok (idset_hash I) keys idxs' \<and>
    intset_vals idxs' = mset (map (\<lambda>i. of_nat (Suc i)) [0 ..< N]) \<and> length (slots idxs') \<le> 2 ^ 50"
  using assms(5-)
proof (induction "N - k" arbitrary: k idxs)
  case 0
  then show ?case by simp
next
  case (Suc m)
  then have k: "k < N" "[k ..< N] = k # [Suc k ..< N]" by (auto simp: upt_conv_Cons)
  from idset_insert_next [OF E Suc.prems(2,3) _ _ _ Suc.prems(4), of k]
  obtain idxs1 where "jl_smallintset_insert E idxs (idset_hash I) (of_nat k) keys = Inr idxs1"
    "intset_ok (idset_hash I) keys idxs1"
    "intset_vals idxs1 = mset (map (\<lambda>i. of_nat (Suc i)) [0 ..< Suc k])" "length (slots idxs1) \<le> 2 ^ 50"
    using k(1) N by fastforce
  then show ?case
    using Suc.hyps(1) [of "Suc k" idxs1] Suc.hyps(2) k N nn by simp
qed

lemma smallintset_empty_ok:
  assumes "intset_ok hash data a"
  obtains a' where "smallintset_empty a = Inr a'" "intset_ok hash data' a'" "intset_vals a' = {#}"
    "length (slots a') = length (slots a)"
proof (cases "slots a = []")
  case True
  then have ne: "el a \<noteq> MemOther" using assms by (auto simp: intset_ok_def)
  have "smallintset_empty a = Inr a" using True ne by (cases "el a") (simp_all add: smallintset_empty_def)
  then show ?thesis using that [of a] True ne intset_nilD [OF True] by (simp add: intset_ok_def)
next
  case False
  then obtain t where t: "el_top (el a) = Some t" "pow2 (length (slots a))"
    using intset_okD [OF assms] by metis
  have "smallintset_empty a = Inr \<lparr>el = el a, slots = replicate (length (slots a)) 0\<rparr>"
    using t(1) by (cases "el a") (auto simp: smallintset_empty_def map_replicate_const)
  then show ?thesis
    using that intset_fresh(1) [OF t(1) disjI2 [OF t(2)], of hash data']
      intset_fresh(2) [OF t(1) disjI2 [OF t(2)]] by simp
qed

lemma idset_okD:
  assumes "idset_ok I keys idxs"
  shows "intset_ok (idset_hash I) keys idxs"
    "intset_vals idxs = mset (map (\<lambda>i. of_nat (Suc i)) (occupied keys))"
    "\<And>i j. i \<in> set (occupied keys) \<Longrightarrow> j \<in> set (occupied keys) \<Longrightarrow> egal I (keys ! i) (keys ! j) \<Longrightarrow> i = j"
    "length keys < 2 ^ 30" "length (slots idxs) \<le> 2 ^ 50"
  using assms by (simp_all add: idset_ok_def)

lemma identity_okD:
  assumes "identity_ok I"
  shows "egal I x x" "egal I x y \<Longrightarrow> egal I y x" "egal I x y \<Longrightarrow> egal I y z \<Longrightarrow> egal I x z"
    "egal I x y \<Longrightarrow> object_id I x = object_id I y"
  using assms unfolding identity_ok_def by blast+

lemma length_occupied: "length (occupied keys) \<le> length keys"
  using length_filter_le [of _ "[0 ..< length keys]"] by (simp add: occupied_def)

lemma idset_put_append:
  assumes E: "\<And>b. alloc_ok E b" and ok: "idset_ok I keys idxs"
    and p: "occupied keys' = occupied keys @ [n]" "n < length keys'" "length keys' < 2 ^ 30"
      "\<forall>i \<in> set (occupied keys). keys' ! i = keys ! i" "n = 0 \<or> n - 1 \<in> set (occupied keys)"
    and u: "\<And>i. i \<in> set (occupied keys) \<Longrightarrow> \<not> egal I (keys ! i) (keys' ! n) \<and> \<not> egal I (keys' ! n) (keys ! i)"
  shows "\<exists>idxs'. jl_idset_put_idx E I keys' idxs (int n) = Inr idxs' \<and> idset_ok I keys' idxs'"
proof -
  note ok = idset_okD [OF ok]
  have occ: "i < length keys \<and> i < length keys' \<and> keys ! i \<noteq> NULL" if "i \<in> set (occupied keys)" for i
    using that p(1) set_occupied [of keys'] by (auto simp: set_occupied)
  have "intset_ok (idset_hash I) keys idxs \<longleftrightarrow> intset_ok (idset_hash I) keys' idxs"
  proof (rule intset_ok_cong)
    fix v assume "v \<in># intset_vals idxs"
    then obtain i where i: "i \<in> set (occupied keys)" "v = of_nat (Suc i)" by (auto simp: ok(2) simp del: of_nat_Suc)
    then have "v - 1 = of_nat i" by simp
    then show "idset_hash I (v - 1) keys = idset_hash I (v - 1) keys'"
      using occ [OF i(1)] p(3,4) i(1) ok(4) by (simp add: idset_hash_at)
  qed
  then have ok': "intset_ok (idset_hash I) keys' idxs" using ok(1) by simp
  have small: "\<forall>i \<in> set (occupied keys). i < 2 ^ 30" "n < 2 ^ 30" "length (occupied keys) < 2 ^ 30"
    using occ ok(4) p(2,3) length_occupied [of keys] by fastforce+
  obtain idxs' where r: "jl_smallintset_insert E idxs (idset_hash I) (of_nat n) keys' = Inr idxs'"
    "intset_ok (idset_hash I) keys' idxs'"
    "intset_vals idxs' = mset (map (\<lambda>i. of_nat (Suc i)) (occupied keys @ [n]))" "length (slots idxs') \<le> 2 ^ 50"
    using idset_insert_next [OF E ok' ok(2) small ok(5) p(5)] by blast
  have "idset_ok I keys' idxs'"
    unfolding idset_ok_def p(1) using r(2-4) p(3,4) ok(3) u by auto
  then show ?thesis using r(1) by (simp add: jl_idset_put_idx_def)
qed

lemma filter_keys_occupied: "filter ((\<noteq>) NULL) keys = map ((!) keys) (occupied keys)"
proof -
  have "filter ((\<noteq>) NULL) keys = filter ((\<noteq>) NULL) (map ((!) keys) [0 ..< length keys])"
    by (simp add: map_nth)
  then show ?thesis by (simp add: occupied_def filter_map comp_def eq_commute [of NULL])
qed

lemma idset_put_rebuild:
  assumes E: "\<And>b. alloc_ok E b" and ok: "idset_ok I keys idxs" and key: "key \<noteq> NULL"
    and ks: "ks = filter ((\<noteq>) NULL) keys" "keys' = ks @ key # replicate m NULL" "length ks + Suc m < 2 ^ 30"
    and u: "\<And>x. x \<in> set ks \<Longrightarrow> \<not> egal I x key \<and> \<not> egal I key x"
  shows "\<exists>idxs'. jl_idset_put_idx E I keys' idxs (- int (Suc (length ks))) = Inr idxs' \<and> idset_ok I keys' idxs'"
proof -
  note ok = idset_okD [OF ok]
  let ?N = "Suc (length ks)"
  have l: "?N \<le> length keys'" "length keys' < 2 ^ 30" using ks by simp_all
  have nn: "keys' ! i \<noteq> NULL" if "i < ?N" for i
    using that key nth_mem [of i ks] by (auto simp: ks nth_append less_Suc_eq)
  have tail: "keys' ! i = NULL" if "?N \<le> i" "i < length keys'" for i
    using that by (auto simp: ks nth_append nth_Cons' )
  have occ: "occupied keys' = [0 ..< ?N]"
  proof -
    obtain d where "length keys' = ?N + d" using l(1) le_iff_add by blast
    then have "[0 ..< length keys'] = [0 ..< ?N] @ [?N ..< length keys']"
      using upt_add_eq_append [of 0 ?N d] by simp
    then show ?thesis using nn tail by (auto simp: occupied_def filter_empty_conv simp del: upt_Suc)
  qed
  obtain e where e: "smallintset_empty idxs = Inr e" "intset_ok (idset_hash I) keys' e" "intset_vals e = {#}"
    "length (slots e) = length (slots idxs)"
    by (rule smallintset_empty_ok [OF ok(1)])
  obtain idxs' where r: "put_idx_loop E I keys' [0 ..< ?N] e = Inr idxs'" "intset_ok (idset_hash I) keys' idxs'"
    "intset_vals idxs' = mset (map (\<lambda>i. of_nat (Suc i)) [0 ..< ?N])" "length (slots idxs') \<le> 2 ^ 50"
    using put_idx_loop_ok [OF E l nn, of 0 I e] e ok(5) by auto
  have uniq: "i = j" if ij: "i < ?N" "j < ?N" "egal I (keys' ! i) (keys' ! j)" for i j
  proof -
    have ki: "keys' ! i = (if i = length ks then key else ks ! i)" if "i < ?N" for i
      using that by (auto simp: ks nth_append)
    have "ks ! i \<in> set ks" if "i < length ks" for i using that by simp
    then have "i = length ks \<longleftrightarrow> j = length ks"
      using ij u ki by (metis less_Suc_eq)
    moreover have "i = j" if "i < length ks" "j < length ks"
    proof -
      have m: "ks = map ((!) keys) (occupied keys)" unfolding ks(1) by (rule filter_keys_occupied)
      have "egal I (keys ! (occupied keys ! i)) (keys ! (occupied keys ! j))"
        using ij(3) that ki by (simp add: m)
      then have "occupied keys ! i = occupied keys ! j" using ok(3) that by (simp add: m)
      moreover have "distinct (occupied keys)" by (simp add: occupied_def)
      ultimately show ?thesis using that by (simp add: nth_eq_iff_index_eq m)
    qed
    ultimately show ?thesis using ij by linarith
  qed
  have "idset_ok I keys' idxs'"
    unfolding idset_ok_def occ using r(2-4) l(2) uniq by auto
  then have "put_idx_loop E I keys' [0 ..< nat (- (- int ?N))] e = Inr idxs'" using r(1) by (simp only: minus_minus nat_int)
  then show ?thesis using \<open>idset_ok I keys' idxs'\<close> e(1) by (simp add: jl_idset_put_idx_def)
qed

section \<open>The operations on the set of keys\<close>

lemma idset_put_ok:
  assumes E: "\<And>b. alloc_ok E b" and I: "identity_ok I" and ok: "idset_ok I keys idxs"
    and key: "key \<noteq> NULL" "\<And>x. x \<in> idset_keys keys \<Longrightarrow> \<not> egal I x key" and l: "length keys < 2 ^ 29"
  shows "\<exists>keys' idxs'. idset_put E I keys idxs key = Inr (keys', idxs') \<and> idset_ok I keys' idxs' \<and>
    idset_keys keys' = insert key (idset_keys keys)"
proof -
  have sym: "egal I x y \<longleftrightarrow> egal I y x" for x y using identity_okD(2) [OF I] by blast
  from jl_idset_put_key_ok [OF E key(1) l] show ?thesis
  proof cases
    case (1 n keys')
    have u: "\<not> egal I (keys ! i) (keys' ! n) \<and> \<not> egal I (keys' ! n) (keys ! i)" if "i \<in> set (occupied keys)" for i
      using that key(2) [of "keys ! i"] sym by (auto simp: 1(4) idset_keys_occupied)
    from idset_put_append [OF E ok 1(2,3,7,5,6) u]
    obtain idxs' where r: "jl_idset_put_idx E I keys' idxs (int n) = Inr idxs'" "idset_ok I keys' idxs'"
      by blast
    have "idset_keys keys' = insert key (idset_keys keys)"
      using 1(4,5) by (auto simp: idset_keys_occupied 1(2))
    then show ?thesis using r 1(1) by (simp add: idset_put_def)
  next
    case (2 n m)
    let ?ks = "filter ((\<noteq>) NULL) keys"
    have u: "\<not> egal I x key \<and> \<not> egal I key x" if "x \<in> set ?ks" for x
      using that key(2) [of x] sym by (auto simp: idset_keys_def)
    from idset_put_rebuild [OF E ok key(1) refl refl _ u, of m]
    obtain idxs' where r: "jl_idset_put_idx E I (?ks @ key # replicate m NULL) idxs (- int (Suc n)) = Inr idxs'"
      "idset_ok I (?ks @ key # replicate m NULL) idxs'"
      using 2(2,3) by auto
    moreover have "idset_keys (?ks @ key # replicate m NULL) = insert key (idset_keys keys)"
      using key(1) by (auto simp: idset_keys_def set_replicate_conv_if)
    ultimately show ?thesis using 2(1) by (auto simp: idset_put_def)
  qed
qed

lemma idset_val_index:
  assumes ok: "idset_ok I keys idxs" and r: "r + 1 \<in># intset_vals idxs"
  obtains i where "r = of_nat i" "unat r = i" "i \<in> set (occupied keys)" "i < length keys" "keys ! i \<noteq> NULL"
proof -
  obtain i where i: "i \<in> set (occupied keys)" "r + 1 = of_nat (Suc i)"
    using r by (auto simp: idset_okD(2) [OF ok] simp del: of_nat_Suc)
  then have "r = of_nat i" by simp
  moreover have "i < length keys" "keys ! i \<noteq> NULL" using i(1) by (simp_all add: set_occupied)
  moreover have "i < 2 ^ 64" using calculation(2) idset_okD(4) [OF ok] by simp
  ultimately show ?thesis using that i(1) by (simp add: unat_of_nat_small)
qed

text \<open>The look-up of the index set, read on the keys.\<close>

lemma idset_lookup_ok:
  assumes I: "identity_ok I" and ok: "idset_ok I keys idxs"
  obtains "jl_smallintset_lookup idxs (idset_eq I) key keys (object_id I key) pop = Inr (- 1, idxs)"
      "\<And>x. x \<in> idset_keys keys \<Longrightarrow> \<not> egal I x key"
  | i idxs' where
      "jl_smallintset_lookup idxs (idset_eq I) key keys (object_id I key) pop = Inr (of_nat i, idxs')"
      "of_nat i \<noteq> (- 1 :: u64)" "unat (of_nat i :: u64) = i" "i \<in> set (occupied keys)" "egal I (keys ! i) key"
      "intset_ok (idset_hash I) keys idxs'" "pop \<Longrightarrow> intset_vals idxs' = intset_vals idxs - {#of_nat (Suc i)#}"
      "length (slots idxs') = length (slots idxs)"
proof -
  show ?thesis
  proof (rule jl_smallintset_lookup_ok [OF idset_okD(1) [OF ok], of "idset_eq I" key "object_id I key" pop])
    fix r
    assume r: "jl_smallintset_lookup idxs (idset_eq I) key keys (object_id I key) pop = Inr (r, idxs)" "r = - 1"
      and none: "\<forall>v \<in># intset_vals idxs. idset_eq I (v - 1) key keys (object_id I key) \<longrightarrow>
        idset_hash I (v - 1) keys \<noteq> object_id I key"
    have "\<not> egal I x key" if x: "x \<in> idset_keys keys" for x
    proof
      assume e: "egal I x key"
      obtain i where i: "i \<in> set (occupied keys)" "x = keys ! i" using x by (auto simp: idset_keys_occupied)
      then have k: "i < length keys" "keys ! i \<noteq> NULL" by (simp_all add: set_occupied)
      have "of_nat (Suc i) \<in># intset_vals idxs" using i(1) by (simp add: idset_okD(2) [OF ok] del: of_nat_Suc)
      then show False
        using none e k i(2) identity_okD(4) [OF I e] idset_okD(4) [OF ok]
        by (force simp: idset_eq_at idset_hash_at)
    qed
    then show ?thesis using that(1) r by simp
  next
    fix r a'
    assume r: "jl_smallintset_lookup idxs (idset_eq I) key keys (object_id I key) pop = Inr (r, a')" "r \<noteq> - 1"
      "r + 1 \<in># intset_vals idxs" "idset_eq I r key keys (object_id I key)" "intset_ok (idset_hash I) keys a'"
      "intset_vals a' = (if pop then intset_vals idxs - {#r + 1#} else intset_vals idxs)"
      "length (slots a') = length (slots idxs)"
    obtain i where i: "r = of_nat i" "unat r = i" "i \<in> set (occupied keys)" "i < length keys" "keys ! i \<noteq> NULL"
      by (rule idset_val_index [OF ok r(3)])
    then show ?thesis
      using that(2) [of i a'] r idset_okD(4) [OF ok] by (simp add: idset_eq_at add.commute)
  qed
qed

lemma jl_idset_get_ok:
  assumes I: "identity_ok I" and ok: "idset_ok I keys idxs"
  shows "\<exists>x. jl_idset_get I keys idxs key = Inr x \<and>
    (if x = NULL then \<forall>y. y \<in> idset_keys keys \<longrightarrow> \<not> egal I y key else x \<in> idset_keys keys \<and> egal I x key)"
proof (rule idset_lookup_ok [OF I ok, of key False])
  fix i idxs'
  assume i: "jl_smallintset_lookup idxs (idset_eq I) key keys (object_id I key) False = Inr (of_nat i, idxs')"
    "of_nat i \<noteq> (- 1 :: u64)" "unat (of_nat i :: u64) = i" "i \<in> set (occupied keys)" "egal I (keys ! i) key"
  then show ?thesis
    by (intro exI [of _ "keys ! i"]) (auto simp: jl_idset_get_def jl_idset_peek_bp_def set_occupied idset_keys_def)
qed (auto simp: jl_idset_get_def jl_idset_peek_bp_def)

lemma occupied_remove:
  assumes "i < length keys"
  shows "occupied (keys[i := NULL]) = filter (\<lambda>j. j \<noteq> i) (occupied keys)"
  using assms by (auto simp: occupied_def nth_list_update intro!: filter_cong)

lemma mset_map_remove:
  assumes "distinct xs" "i \<in> set xs"
  shows "mset (map f xs) - {#f i#} = mset (map f (filter (\<lambda>j. j \<noteq> i) xs))"
proof -
  have "remove1 i xs = filter (\<lambda>j. j \<noteq> i) xs"
    using assms(1) by (simp add: distinct_remove1_removeAll removeAll_filter_not_eq eq_commute [of i])
  then have "mset xs = add_mset i (mset (filter (\<lambda>j. j \<noteq> i) xs))"
    using assms(2) mset_remove1 [of i xs] by simp
  then have "image_mset f (mset xs) = image_mset f (add_mset i (mset (filter (\<lambda>j. j \<noteq> i) xs)))"
    by (rule arg_cong)
  then show ?thesis by (simp only: mset_map image_mset_add_mset add_mset_remove_trivial)
qed

lemma idset_pop_ok:
  assumes I: "identity_ok I" and ok: "idset_ok I keys idxs"
  shows "\<exists>r keys' idxs'. jl_idset_pop I keys idxs key = Inr (r, keys', idxs') \<and> idset_ok I keys' idxs' \<and>
    idset_keys keys' = {x \<in> idset_keys keys. \<not> egal I x key}"
proof (rule idset_lookup_ok [OF I ok, of key True])
  assume "jl_smallintset_lookup idxs (idset_eq I) key keys (object_id I key) True = Inr (- 1, idxs)"
    "\<And>x. x \<in> idset_keys keys \<Longrightarrow> \<not> egal I x key"
  then show ?thesis using ok by (auto simp: jl_idset_pop_def)
next
  fix i idxs'
  assume r: "jl_smallintset_lookup idxs (idset_eq I) key keys (object_id I key) True = Inr (of_nat i, idxs')"
    "of_nat i \<noteq> (- 1 :: u64)" "unat (of_nat i :: u64) = i" and i: "i \<in> set (occupied keys)" "egal I (keys ! i) key"
    and a: "intset_ok (idset_hash I) keys idxs'" "True \<Longrightarrow> intset_vals idxs' = intset_vals idxs - {#of_nat (Suc i)#}"
      "length (slots idxs') = length (slots idxs)"
  note okD = idset_okD [OF ok]
  have il: "i < length keys" using i(1) by (simp add: set_occupied)
  let ?keys = "keys[i := NULL]"
  note occ = occupied_remove [OF il]
  have vals: "intset_vals idxs' = mset (map (\<lambda>i. of_nat (Suc i)) (occupied ?keys))"
    using a(2) okD(2) mset_map_remove [OF _ i(1), of "\<lambda>i. of_nat (Suc i)"] occ
    by (simp add: occupied_def del: of_nat_Suc)
  have "intset_ok (idset_hash I) keys idxs' \<longleftrightarrow> intset_ok (idset_hash I) ?keys idxs'"
  proof (rule intset_ok_cong)
    fix v assume "v \<in># intset_vals idxs'"
    then obtain j where j: "j \<in> set (occupied ?keys)" "v = of_nat (Suc j)" by (auto simp: vals simp del: of_nat_Suc)
    then have "v - 1 = of_nat j" "j \<noteq> i" "j < length keys" "keys ! j \<noteq> NULL" by (auto simp: occ set_occupied)
    then show "idset_hash I (v - 1) keys = idset_hash I (v - 1) ?keys"
      using okD(4) by (simp add: idset_hash_at)
  qed
  then have "idset_ok I ?keys idxs'"
    unfolding idset_ok_def using a vals okD(3,4,5) by (auto simp: occ)
  moreover have "idset_keys ?keys = {x \<in> idset_keys keys. \<not> egal I x key}"
  proof -
    have "j = i \<longleftrightarrow> egal I (keys ! j) key" if "j \<in> set (occupied keys)" for j
      using that i okD(3) [OF that i(1)] identity_okD [OF I] by metis
    then show ?thesis by (auto simp: idset_keys_occupied occ)
  qed
  ultimately show ?thesis using r il by (simp add: jl_idset_pop_def)
qed

section \<open>The interface of an identity set\<close>

text \<open>
  What \<open>jl_as_global_root\<close> and \<open>egal_set\<close> rely on: \<open>get\<close> finds the element that is egal to
  the argument, \<open>put\<close> adds an element that is not there yet, as long as there is room.
\<close>

locale identity_set =
  fixes same :: "ptr \<Rightarrow> ptr \<Rightarrow> bool"
    and invar room :: "'s \<Rightarrow> bool"
    and elems :: "'s \<Rightarrow> ptr set"
    and get :: "'s \<Rightarrow> ptr \<Rightarrow> ptr result"
    and put :: "'s \<Rightarrow> ptr \<Rightarrow> 's result"
  assumes same_refl: "same x x" and same_sym: "same x y \<Longrightarrow> same y x"
    and same_trans: "same x y \<Longrightarrow> same y z \<Longrightarrow> same x z"
    and null: "invar s \<Longrightarrow> NULL \<notin> elems s"
    and apart: "invar s \<Longrightarrow> x \<in> elems s \<Longrightarrow> y \<in> elems s \<Longrightarrow> same x y \<Longrightarrow> x = y"
    and get_law: "invar s \<Longrightarrow> \<exists>x. get s k = Inr x \<and>
      (if x = NULL then \<forall>y. y \<in> elems s \<longrightarrow> \<not> same y k else x \<in> elems s \<and> same x k)"
    and put_law: "invar s \<Longrightarrow> room s \<Longrightarrow> k \<noteq> NULL \<Longrightarrow> (\<And>x. x \<in> elems s \<Longrightarrow> \<not> same x k) \<Longrightarrow>
      \<exists>s'. put s k = Inr s' \<and> invar s' \<and> elems s' = insert k (elems s)"
begin

lemma get_elem: "invar s \<Longrightarrow> x \<in> elems s \<Longrightarrow> same x k \<Longrightarrow> get s k = Inr x"
  using get_law [of s k] apart same_sym same_trans by (metis null)

lemma put_get: "put s k = Inr s' \<Longrightarrow> invar s' \<Longrightarrow> elems s' = insert k (elems s) \<Longrightarrow> same k k' \<Longrightarrow> get s' k' = Inr k"
  by (rule get_elem) auto

text \<open>Interning: the first egal value wins, and is found from then on.\<close>

lemma intern:
  assumes "invar s" "room s" "k \<noteq> NULL"
  shows "\<exists>r s'. rbind (get s k) (\<lambda>r. if r \<noteq> NULL then Inr (r, s) else rbind (put s k) (\<lambda>s. Inr (k, s))) = Inr (r, s') \<and>
    invar s' \<and> same r k \<and> r \<in> elems s' \<and> elems s \<subseteq> elems s' \<and> (\<forall>k'. same k k' \<longrightarrow> get s' k' = Inr r)"
proof -
  obtain x where x: "get s k = Inr x"
    "if x = NULL then \<forall>y. y \<in> elems s \<longrightarrow> \<not> same y k else x \<in> elems s \<and> same x k"
    using get_law [OF assms(1), of k] by blast
  show ?thesis
  proof (cases "x = NULL")
    case True
    obtain s' where "put s k = Inr s'" "invar s'" "elems s' = insert k (elems s)"
      using put_law [OF assms] x(2) True by force
    then show ?thesis using x(1) True put_get same_refl by auto
  next
    case False
    then show ?thesis using x assms(1) get_elem [of s x] same_trans by auto
  qed
qed

end

definition sample_identity :: identity where
  "sample_identity = \<lparr>object_id = \<lambda>p. drop_bit 4 p, egal = (=)\<rparr>"

lemma identity_ok_sample: "identity_ok sample_identity"
  by (simp add: identity_ok_def sample_identity_def)

lemma identity_set_idset:
  assumes E: "\<And>b. alloc_ok E b" and I: "identity_ok I"
  shows "identity_set (egal I) (\<lambda>s. idset_ok I (fst s) (snd s)) (\<lambda>s. length (fst s) < 2 ^ 29)
    (\<lambda>s. idset_keys (fst s)) (\<lambda>s. jl_idset_get I (fst s) (snd s)) (\<lambda>s. idset_put E I (fst s) (snd s))"
proof
  fix x y z k and s :: "ptr list \<times> intmem"
  show "egal I x x" by (rule identity_okD [OF I])
  show "egal I x y \<Longrightarrow> egal I y x" by (rule identity_okD [OF I])
  show "egal I x y \<Longrightarrow> egal I y z \<Longrightarrow> egal I x z" by (rule identity_okD [OF I])
  show "NULL \<notin> idset_keys (fst s)" by (simp add: idset_keys_def)
  show "x = y" if "idset_ok I (fst s) (snd s)" "x \<in> idset_keys (fst s)" "y \<in> idset_keys (fst s)" "egal I x y"
    using that idset_okD(3) [OF that(1)] by (auto simp: idset_keys_occupied)
  show "\<exists>x. jl_idset_get I (fst s) (snd s) k = Inr x \<and> (if x = NULL then
      \<forall>y. y \<in> idset_keys (fst s) \<longrightarrow> \<not> egal I y k else x \<in> idset_keys (fst s) \<and> egal I x k)"
    if "idset_ok I (fst s) (snd s)" by (rule jl_idset_get_ok [OF I that])
  show "\<exists>s'. idset_put E I (fst s) (snd s) k = Inr s' \<and> idset_ok I (fst s') (snd s') \<and>
      idset_keys (fst s') = insert k (idset_keys (fst s))"
    if "idset_ok I (fst s) (snd s)" "length (fst s) < 2 ^ 29" "k \<noteq> NULL"
      "\<And>x. x \<in> idset_keys (fst s) \<Longrightarrow> \<not> egal I x k"
    using idset_put_ok [OF E I that(1,3,4,2)] by auto
qed

text \<open>The interface is met for every identity; the pointer identity is one of them.\<close>

interpretation pointer_set: identity_set "egal sample_identity"
  "\<lambda>s. idset_ok sample_identity (fst s) (snd s)" "\<lambda>s. length (fst s) < 2 ^ 29" "\<lambda>s. idset_keys (fst s)"
  "\<lambda>s. jl_idset_get sample_identity (fst s) (snd s)" "\<lambda>s. idset_put roomy sample_identity (fst s) (snd s)"
  by (rule identity_set_idset [OF _ identity_ok_sample]) (simp add: roomy_def)

lemma global_root_intern_ok:
  assumes E: "\<And>b. alloc_ok E b" and I: "identity_ok I"
    and s: "idset_ok I (fst s) (snd s)" "length (fst s) < 2 ^ 29" "val \<noteq> NULL"
  shows "\<exists>r s'. global_root_intern E I s val True = Inr (r, s') \<and> idset_ok I (fst s') (snd s') \<and>
    egal I r val \<and> idset_keys (fst s) \<subseteq> idset_keys (fst s') \<and>
    (\<forall>val'. egal I val val' \<longrightarrow> jl_idset_get I (fst s') (snd s') val' = Inr r)"
  using identity_set.intern [OF identity_set_idset [OF E I], of s val] s
  unfolding global_root_intern_def by (simp add: if_distrib cong: if_cong) blast

lemma idset_empty_ok: "idset_ok I [] \<lparr>el = MemAny, slots = []\<rparr>"
  by (simp add: idset_ok_def intset_ok_def intset_vals_def intcells_def occupied_def)

section \<open>Properties\<close>

text \<open>
  C20: Adding an absent key to an identity set (storing it, compacting or growing the key
  memory, then indexing it or rebuilding the whole index) ends, keeps the set well formed
  and adds exactly that key.
\<close>

theorem idset_put_correct:
  assumes "\<And>b. alloc_ok E b" "identity_ok I" "idset_ok I keys idxs"
    and "key \<noteq> NULL" "\<And>x. x \<in> idset_keys keys \<Longrightarrow> \<not> egal I x key" "length keys < 2 ^ 29"
  shows "\<exists>keys' idxs'. idset_put E I keys idxs key = Inr (keys', idxs') \<and> idset_ok I keys' idxs' \<and>
    idset_keys keys' = insert key (idset_keys keys)"
  using assms by (rule idset_put_ok)

lemma idset_put_correct_witness:
  "\<exists>keys' idxs'. idset_put roomy sample_identity [] \<lparr>el = MemAny, slots = []\<rparr> 0x40 = Inr (keys', idxs') \<and>
    idset_ok sample_identity keys' idxs' \<and> idset_keys keys' = {0x40}"
  using idset_put_correct [of roomy sample_identity "[]" "\<lparr>el = MemAny, slots = []\<rparr>" "0x40"]
    idset_empty_ok identity_ok_sample by (simp add: roomy_def idset_keys_def)

text \<open>
  C21: Popping a key removes exactly the egal key and keeps the set well formed; a look-up
  returns the stored key that is egal to the argument, or NULL if there is none.
\<close>

theorem idset_pop_get_correct:
  assumes "identity_ok I" "idset_ok I keys idxs"
  shows "(\<exists>r keys' idxs'. jl_idset_pop I keys idxs key = Inr (r, keys', idxs') \<and> idset_ok I keys' idxs' \<and>
      idset_keys keys' = {x \<in> idset_keys keys. \<not> egal I x key}) \<and>
    (\<exists>x. jl_idset_get I keys idxs key = Inr x \<and>
      (if x = NULL then \<not> (\<exists>y. y \<in> idset_keys keys \<and> egal I y key) else x \<in> idset_keys keys \<and> egal I x key))"
  using idset_pop_ok [OF assms, of key] jl_idset_get_ok [OF assms, of key] by (simp add: if_split)

lemma idset_pop_get_correct_witness:
  "(\<exists>r keys' idxs'. jl_idset_pop sample_identity [] \<lparr>el = MemAny, slots = []\<rparr> 0x40 = Inr (r, keys', idxs') \<and>
      idset_ok sample_identity keys' idxs' \<and> idset_keys keys' = {}) \<and>
    jl_idset_get sample_identity [] \<lparr>el = MemAny, slots = []\<rparr> 0x40 = Inr NULL"
  using idset_pop_get_correct [OF identity_ok_sample idset_empty_ok, of "0x40"]
  by (auto simp: idset_keys_def split: if_splits)

text \<open>
  C22: Interning a value as a global root returns a value egal to it, keeps every root, and
  from then on every egal value is answered with that same object.
\<close>

theorem global_root_canonical:
  assumes "\<And>b. alloc_ok E b" "identity_ok I"
    and "idset_ok I (fst s) (snd s)" "length (fst s) < 2 ^ 29" "val \<noteq> NULL"
  shows "\<exists>r s'. global_root_intern E I s val True = Inr (r, s') \<and> idset_ok I (fst s') (snd s') \<and>
    egal I r val \<and> idset_keys (fst s) \<subseteq> idset_keys (fst s') \<and>
    (\<forall>val'. egal I val val' \<longrightarrow> jl_idset_get I (fst s') (snd s') val' = Inr r)"
  using assms by (rule global_root_intern_ok)

lemma global_root_canonical_witness:
  "\<exists>s'. global_root_intern roomy sample_identity ([], \<lparr>el = MemAny, slots = []\<rparr>) 0x40 True = Inr (0x40, s') \<and>
    jl_idset_get sample_identity (fst s') (snd s') 0x40 = Inr 0x40"
  using global_root_canonical [of roomy sample_identity "([], \<lparr>el = MemAny, slots = []\<rparr>)" "0x40"]
    idset_empty_ok [of sample_identity] identity_ok_sample
  by (auto simp: roomy_def sample_identity_def)

end
