(* ===== verification/MapSpec.thy ===== *)
theory MapSpec
  imports Prelude
begin

text \<open>
  The contract of the runtime's hash tables: a partial map from keys, read up to the
  table's notion of equality, to values.  The locale \<open>table_map\<close> states the laws of the
  single operations; inside it every sequence of operations is shown to agree with the
  same sequence on the abstract map.
\<close>

datatype ('k, 'v) map_op = Put 'k 'v | Remove 'k

primrec op_map :: "('k \<Rightarrow> 'k \<Rightarrow> bool) \<Rightarrow> ('k, 'v) map_op \<Rightarrow> ('k \<Rightarrow> 'v option) \<Rightarrow> 'k \<Rightarrow> 'v option" where
  "op_map same (Put k v) m = (\<lambda>x. if same x k then Some v else m x)"
| "op_map same (Remove k) m = (\<lambda>x. if same x k then None else m x)"

definition run_map :: "('k \<Rightarrow> 'k \<Rightarrow> bool) \<Rightarrow> ('k, 'v) map_op list \<Rightarrow> ('k \<Rightarrow> 'v option) \<Rightarrow> 'k \<Rightarrow> 'v option" where
  "run_map same ops m = fold (op_map same) ops m"

fun run_table :: "('s \<Rightarrow> 'k \<Rightarrow> 'v \<Rightarrow> 's result) \<Rightarrow> ('s \<Rightarrow> 'k \<Rightarrow> 's result) \<Rightarrow> ('k, 'v) map_op list \<Rightarrow> 's \<Rightarrow> 's result" where
  "run_table put remove [] s = Inr s"
| "run_table put remove (Put k v # ops) s = rbind (put s k v) (run_table put remove ops)"
| "run_table put remove (Remove k # ops) s = rbind (remove s k) (run_table put remove ops)"

primrec op_ok :: "('k \<Rightarrow> bool) \<Rightarrow> ('v \<Rightarrow> bool) \<Rightarrow> ('k, 'v) map_op \<Rightarrow> bool" where
  "op_ok kok vok (Put k v) \<longleftrightarrow> kok k \<and> vok v"
| "op_ok kok vok (Remove k) \<longleftrightarrow> kok k"

locale table_map =
  fixes same :: "'k \<Rightarrow> 'k \<Rightarrow> bool"
    and kok :: "'k \<Rightarrow> bool" and vok :: "'v \<Rightarrow> bool"
    and invar :: "'s \<Rightarrow> bool"
    and abs_map :: "'s \<Rightarrow> 'k \<Rightarrow> 'v option"
    and count :: "'s \<Rightarrow> nat" and capacity :: nat
    and put :: "'s \<Rightarrow> 'k \<Rightarrow> 'v \<Rightarrow> 's result"
    and remove :: "'s \<Rightarrow> 'k \<Rightarrow> 's result"
  assumes put_law: "invar s \<Longrightarrow> count s < capacity \<Longrightarrow> kok k \<Longrightarrow> vok v \<Longrightarrow>
      \<exists>s'. put s k v = Inr s' \<and> invar s' \<and> abs_map s' = op_map same (Put k v) (abs_map s) \<and> count s' \<le> Suc (count s)"
    and remove_law: "invar s \<Longrightarrow> kok k \<Longrightarrow>
      \<exists>s'. remove s k = Inr s' \<and> invar s' \<and> abs_map s' = op_map same (Remove k) (abs_map s) \<and> count s' \<le> count s"
begin

lemma run_refines:
  assumes "invar s" "count s + length ops \<le> capacity" "list_all (op_ok kok vok) ops"
  shows "\<exists>s'. run_table put remove ops s = Inr s' \<and> invar s' \<and> abs_map s' = run_map same ops (abs_map s)"
  using assms
proof (induction ops arbitrary: s)
  case Nil
  then show ?case by (simp add: run_map_def)
next
  case (Cons op ops)
  show ?case
  proof (cases op)
    case (Put k v)
    then obtain s1 where "put s k v = Inr s1" "invar s1" "abs_map s1 = op_map same (Put k v) (abs_map s)"
      "count s1 \<le> Suc (count s)"
      using put_law [of s k v] Cons.prems by auto
    then show ?thesis using Cons.IH [of s1] Cons.prems Put by (auto simp: run_map_def)
  next
    case (Remove k)
    then obtain s1 where "remove s k = Inr s1" "invar s1" "abs_map s1 = op_map same (Remove k) (abs_map s)"
      "count s1 \<le> count s"
      using remove_law [of s k] Cons.prems by auto
    then show ?thesis using Cons.IH [of s1] Cons.prems Remove by (auto simp: run_map_def)
  qed
qed

end

end
