(* ===== verification/IdDict.thy ===== *)
theory IdDict
  imports IdSet MapSpec
begin

text \<open>
  Identity dictionaries (\<open>src/iddict.c\<close>): a \<open>Memory{Any}\<close> of alternating keys and values,
  probed linearly.  A vacant slot has key \<open>NULL\<close>; a deleted entry has key \<open>jl_nothing\<close> and
  value \<open>NULL\<close>.  As for identity sets, \<open>jl_object_id\<close> and \<open>jl_egal\<close> are arguments; \<open>nothing\<close>
  is the pointer \<open>jl_nothing\<close>.
\<close>

section \<open>The operations\<close>

record dict_env = identity +
  nothing :: ptr

definition dict_size :: "ptr list \<Rightarrow> nat" where
  "dict_size h = length h div 2"

definition dict_index :: "u64 \<Rightarrow> nat \<Rightarrow> nat" where
  "dict_index hv sz = mask_index hv sz * 2"

text \<open>\<open>(index + 2) & (sz - 1)\<close> with \<open>sz\<close> the number of pointers.\<close>

definition dict_next :: "nat \<Rightarrow> nat \<Rightarrow> nat" where
  "dict_next sz index = mask_index (of_nat (index + 2)) sz"

text \<open>What the probing loop of an assignment ends with: the entry of the key, or the slot to
  use for a new entry, if any.\<close>

datatype assign_outcome = KeyAt nat | EmptySlot "nat option"

function assign_probe ::
  "dict_env \<Rightarrow> ptr list \<Rightarrow> ptr \<Rightarrow> nat \<Rightarrow> nat \<Rightarrow> nat \<Rightarrow> nat \<Rightarrow> nat option \<Rightarrow> assign_outcome result" where
  "assign_probe I tab key maxprobe orig iter index empty_slot =
     rbind (rget tab index) (\<lambda>k2.
       if k2 = NULL then Inr (EmptySlot (Some (case empty_slot of None \<Rightarrow> index | Some e \<Rightarrow> e)))
       else rbind (rget tab (index + 1)) (\<lambda>v2.
         if egal I key k2 \<and> v2 \<noteq> NULL then Inr (KeyAt index)
         else rbind (assert_that (egal I key k2 \<longrightarrow> key = nothing I)) (\<lambda>_.
           let empty1 = (if egal I key k2 \<and> empty_slot = None then Some index else empty_slot) in
           rbind (assert_that (empty1 = None \<and> v2 = NULL \<longrightarrow> k2 = nothing I)) (\<lambda>_.
             let empty2 = (if empty1 = None \<and> v2 = NULL then Some index else empty1);
                 index' = dict_next (length tab) index; iter' = Suc iter in
             if iter' \<le> maxprobe \<and> index' \<noteq> orig
             then assign_probe I tab key maxprobe orig iter' index' empty2
             else Inr (EmptySlot empty2)))))"
  by pat_completeness auto
termination
  by (relation "measure (\<lambda>(I, tab, key, maxprobe, orig, iter, index, empty_slot). maxprobe - iter)") auto

declare assign_probe.simps [simp del]

text \<open>Re-inserting the entries of \<open>ol\<close>; \<open>assign\<close> is \<open>jl_table_assign_bp\<close>.\<close>

fun dict_refill :: "(ptr list \<Rightarrow> ptr \<Rightarrow> ptr \<Rightarrow> (bool \<times> ptr list) result) \<Rightarrow> ptr list \<Rightarrow> nat list \<Rightarrow> ptr list \<Rightarrow> ptr list result" where
  "dict_refill assign ol [] newa = Inr newa"
| "dict_refill assign ol (i # is) newa =
     rbind (rget ol (i + 1)) (\<lambda>v.
       if v \<noteq> NULL then
         rbind (rget ol i) (\<lambda>k. rbind (assign newa k v) (\<lambda>(_, newa). dict_refill assign ol is newa))
       else dict_refill assign ol is newa)"

definition dict_rehash ::
  "(ptr list \<Rightarrow> ptr \<Rightarrow> ptr \<Rightarrow> (bool \<times> ptr list) result) \<Rightarrow> heap_env \<Rightarrow> ptr list \<Rightarrow> u64 \<Rightarrow> ptr list result" where
  "dict_rehash assign E a newsz =
     rbind (jl_alloc_memory_any E newsz) (\<lambda>newa. dict_refill assign a (filter even [0 ..< length a]) newa)"

text \<open>
  \<open>jl_table_assign_bp\<close> and \<open>jl_idtable_rehash\<close> call each other; the fuel bounds the depth of
  the recursion together with the number of retries, \<open>Diverges\<close> is running out of it.
\<close>

primrec jl_table_assign_bp ::
  "nat \<Rightarrow> heap_env \<Rightarrow> dict_env \<Rightarrow> ptr list \<Rightarrow> ptr \<Rightarrow> ptr \<Rightarrow> (bool \<times> ptr list) result" where
  "jl_table_assign_bp 0 E I a key val = Inl Diverges"
| "jl_table_assign_bp (Suc fuel) E I a key val =
     rbind (if dict_size a = 0 then jl_alloc_memory_any E (of_nat HT_N_INLINE) else Inr a) (\<lambda>a.
       let sz = dict_size a; index = dict_index (object_id I key) sz in
       rbind (assign_probe I a key (max_probe sz) index 0 index None) (\<lambda>r. case r of
           KeyAt i \<Rightarrow> rbind (rset a (i + 1) val) (\<lambda>a. Inr (False, a))
         | EmptySlot (Some e) \<Rightarrow>
             rbind (rset a e key) (\<lambda>a. rbind (rset a (e + 1) val) (\<lambda>a. Inr (True, a)))
         | EmptySlot None \<Rightarrow>
             rbind (dict_rehash (jl_table_assign_bp fuel E I) E a (grown_size (of_nat (length a)))) (\<lambda>a.
               jl_table_assign_bp fuel E I a key val)))"

definition jl_idtable_rehash :: "nat \<Rightarrow> heap_env \<Rightarrow> dict_env \<Rightarrow> ptr list \<Rightarrow> u64 \<Rightarrow> ptr list result" where
  "jl_idtable_rehash fuel E I a newsz = dict_rehash (jl_table_assign_bp fuel E I) E a newsz"

text \<open>The index of the value of \<open>key\<close>, \<open>None\<close> for the \<open>NULL\<close> pointer.\<close>

function peek_probe :: "dict_env \<Rightarrow> ptr list \<Rightarrow> ptr \<Rightarrow> nat \<Rightarrow> nat \<Rightarrow> nat \<Rightarrow> nat \<Rightarrow> nat option result" where
  "peek_probe I tab key maxprobe orig iter index =
     rbind (rget tab index) (\<lambda>k2.
       if k2 = NULL then Inr None
       else rbind (if egal I key k2 then rget tab (index + 1) else Inr NULL) (\<lambda>v2.
         if egal I key k2 \<and> v2 \<noteq> NULL then Inr (Some (index + 1))
         else if egal I key k2 \<and> key \<noteq> nothing I then Inr None
         else
           (let index' = dict_next (length tab) index; iter' = Suc iter in
            if iter' \<le> maxprobe \<and> index' \<noteq> orig then peek_probe I tab key maxprobe orig iter' index'
            else Inr None)))"
  by pat_completeness auto
termination
  by (relation "measure (\<lambda>(I, tab, key, maxprobe, orig, iter, index). maxprobe - iter)") auto

declare peek_probe.simps [simp del]

definition jl_table_peek_bp :: "dict_env \<Rightarrow> ptr list \<Rightarrow> ptr \<Rightarrow> nat option result" where
  "jl_table_peek_bp I a key =
     (let sz = dict_size a in
      if sz = 0 then Inr None
      else let index = dict_index (object_id I key) sz in
        peek_probe I a key (max_probe sz) index 0 index)"

definition jl_eqtable_put ::
  "nat \<Rightarrow> heap_env \<Rightarrow> dict_env \<Rightarrow> ptr list \<Rightarrow> ptr \<Rightarrow> ptr \<Rightarrow> (ptr list \<times> bool) result" where
  "jl_eqtable_put fuel E I h key val =
     rbind (jl_table_assign_bp fuel E I h key val) (\<lambda>(inserted, h). Inr (h, inserted))"

definition jl_eqtable_get :: "dict_env \<Rightarrow> ptr list \<Rightarrow> ptr \<Rightarrow> ptr \<Rightarrow> ptr result" where
  "jl_eqtable_get I h key deflt =
     rbind (jl_table_peek_bp I h key) (\<lambda>bp. case bp of None \<Rightarrow> Inr deflt | Some i \<Rightarrow> rget h i)"

definition jl_eqtable_getkey :: "dict_env \<Rightarrow> ptr list \<Rightarrow> ptr \<Rightarrow> ptr \<Rightarrow> ptr result" where
  "jl_eqtable_getkey I h key deflt =
     rbind (jl_table_peek_bp I h key) (\<lambda>bp. case bp of None \<Rightarrow> Inr deflt | Some i \<Rightarrow> rget h (i - 1))"

definition jl_eqtable_pop :: "dict_env \<Rightarrow> ptr list \<Rightarrow> ptr \<Rightarrow> ptr \<Rightarrow> (ptr \<times> bool \<times> ptr list) result" where
  "jl_eqtable_pop I h key deflt =
     rbind (jl_table_peek_bp I h key) (\<lambda>bp. case bp of
         None \<Rightarrow> Inr (deflt, False, h)
       | Some i \<Rightarrow>
           rbind (rget h i) (\<lambda>val.
           rbind (rset h (i - 1) (nothing I)) (\<lambda>h.
           rbind (rset h i NULL) (\<lambda>h. Inr (val, True, h)))))"

text \<open>The next occupied entry at or after index \<open>i\<close>.\<close>

function nextind_scan :: "ptr list \<Rightarrow> nat \<Rightarrow> nat result" where
  "nextind_scan t i =
     (if i < length t then
        rbind (rget t (i + 1)) (\<lambda>v. if v = NULL then nextind_scan t (i + 2) else Inr i)
      else Inr i)"
  by pat_completeness auto
termination
  by (relation "measure (\<lambda>(t, i). length t - i)") auto

declare nextind_scan.simps [simp del]

definition jl_eqtable_nextind :: "ptr list \<Rightarrow> nat \<Rightarrow> u64 result" where
  "jl_eqtable_nextind t i =
     rbind (nextind_scan t (if odd i then i + 1 else i)) (\<lambda>i.
       Inr (if length t \<le> i then - 1 else of_nat i))"

section \<open>Entries and invariant\<close>

text \<open>The table as a list of key/value pairs.\<close>

definition dict_cells :: "ptr list \<Rightarrow> (ptr \<times> ptr) list" where
  "dict_cells a = map (\<lambda>i. (a ! (2 * i), a ! (2 * i + 1))) [0 ..< dict_size a]"

abbreviation dict_vacant :: "ptr \<times> ptr \<Rightarrow> bool" where
  "dict_vacant c \<equiv> fst c = NULL"

abbreviation dict_free :: "ptr \<times> ptr \<Rightarrow> bool" where
  "dict_free c \<equiv> fst c = NULL \<or> snd c = NULL"

definition dict_hash :: "dict_env \<Rightarrow> ptr \<times> ptr \<Rightarrow> u64 option" where
  "dict_hash I c = (if dict_free c then None else Some (object_id I (fst c)))"

definition dict_env_ok :: "dict_env \<Rightarrow> bool" where
  "dict_env_ok I \<longleftrightarrow> identity_ok \<lparr>object_id = object_id I, egal = egal I\<rparr> \<and>
     (\<forall>x. egal I x (nothing I) \<longrightarrow> x = nothing I)"

definition dict_ok :: "dict_env \<Rightarrow> ptr list \<Rightarrow> bool" where
  "dict_ok I a \<longleftrightarrow> a = [] \<or>
     even (length a) \<and> pow2 (dict_size a) \<and> dict_size a < 2 ^ 58 \<and>
     (\<forall>c \<in> set (dict_cells a). (fst c = NULL \<longrightarrow> snd c = NULL) \<and>
        (fst c \<noteq> NULL \<and> snd c = NULL \<longrightarrow> fst c = nothing I)) \<and>
     placed dict_vacant (int_path (dict_size a)) (dict_hash I) (dict_cells a) \<and>
     (\<forall>i < dict_size a. \<forall>j < dict_size a.
        \<not> dict_free (dict_cells a ! i) \<and> \<not> dict_free (dict_cells a ! j) \<and>
        egal I (fst (dict_cells a ! i)) (fst (dict_cells a ! j)) \<longrightarrow> i = j)"

text \<open>The dictionary a table stands for.\<close>

definition dict_map :: "dict_env \<Rightarrow> ptr list \<Rightarrow> ptr \<Rightarrow> ptr option" where
  "dict_map I a key =
     map_option snd (find (\<lambda>c. \<not> dict_free c \<and> egal I key (fst c)) (dict_cells a))"

lemma length_dict_cells [simp]: "length (dict_cells a) = dict_size a"
  by (simp add: dict_cells_def)

lemma dict_cells_nth: "i < dict_size a \<Longrightarrow> dict_cells a ! i = (a ! (2 * i), a ! (2 * i + 1))"
  by (simp add: dict_cells_def)

lemma dict_env_okD:
  assumes "dict_env_ok I"
  shows "egal I x x" "egal I x y \<Longrightarrow> egal I y x" "egal I x y \<Longrightarrow> egal I y z \<Longrightarrow> egal I x z"
    "egal I x y \<Longrightarrow> object_id I x = object_id I y" "egal I x (nothing I) \<Longrightarrow> x = nothing I"
  using assms unfolding dict_env_ok_def identity_ok_def identity.simps by blast+

lemma dict_okD:
  assumes "dict_ok I a" "a \<noteq> []"
  shows "length a = 2 * dict_size a" "pow2 (dict_size a)" "dict_size a < 2 ^ 58"
    "\<And>i. i < dict_size a \<Longrightarrow> fst (dict_cells a ! i) \<noteq> NULL \<Longrightarrow> snd (dict_cells a ! i) = NULL \<Longrightarrow>
       fst (dict_cells a ! i) = nothing I"
    "placed dict_vacant (int_path (dict_size a)) (dict_hash I) (dict_cells a)"
    "\<And>i j. i < dict_size a \<Longrightarrow> j < dict_size a \<Longrightarrow> \<not> dict_free (dict_cells a ! i) \<Longrightarrow>
       \<not> dict_free (dict_cells a ! j) \<Longrightarrow> egal I (fst (dict_cells a ! i)) (fst (dict_cells a ! j)) \<Longrightarrow> i = j"
    "\<And>i. i < dict_size a \<Longrightarrow> fst (dict_cells a ! i) = NULL \<Longrightarrow> snd (dict_cells a ! i) = NULL"
proof -
  have *: "even (length a)" "pow2 (dict_size a)" "dict_size a < 2 ^ 58"
     "\<forall>c \<in> set (dict_cells a). (fst c = NULL \<longrightarrow> snd c = NULL) \<and>
        (fst c \<noteq> NULL \<and> snd c = NULL \<longrightarrow> fst c = nothing I)"
     "placed dict_vacant (int_path (dict_size a)) (dict_hash I) (dict_cells a)"
     "\<forall>i < dict_size a. \<forall>j < dict_size a.
        \<not> dict_free (dict_cells a ! i) \<and> \<not> dict_free (dict_cells a ! j) \<and>
        egal I (fst (dict_cells a ! i)) (fst (dict_cells a ! j)) \<longrightarrow> i = j"
    using assms by (simp_all add: dict_ok_def)
  show "length a = 2 * dict_size a" using *(1) by (simp add: dict_size_def)
  show "pow2 (dict_size a)" "dict_size a < 2 ^ 58"
    "placed dict_vacant (int_path (dict_size a)) (dict_hash I) (dict_cells a)" by fact+
  show "fst (dict_cells a ! i) = nothing I"
    if "i < dict_size a" "fst (dict_cells a ! i) \<noteq> NULL" "snd (dict_cells a ! i) = NULL" for i
    using *(4) that nth_mem [of i "dict_cells a"] by simp
  show "snd (dict_cells a ! i) = NULL" if "i < dict_size a" "fst (dict_cells a ! i) = NULL" for i
    using *(4) that nth_mem [of i "dict_cells a"] by simp
  show "i = j" if "i < dict_size a" "j < dict_size a" "\<not> dict_free (dict_cells a ! i)"
      "\<not> dict_free (dict_cells a ! j)" "egal I (fst (dict_cells a ! i)) (fst (dict_cells a ! j))" for i j
    using *(6) that by blast
qed

text \<open>The C index of pair \<open>i\<close> is \<open>2 * i\<close>; probing runs over pairs.\<close>

lemma dict_next_pair:
  assumes "pow2 n" "n < 2 ^ 58"
  shows "dict_next (2 * n) (2 * i) = 2 * next_index n i"
proof -
  have "pow2 (2 * n)" using assms by (intro pow2_double) auto
  moreover have "2 * i + 2 = 2 * (i + 1)" by simp
  ultimately show ?thesis
    using assms(1) unfolding dict_next_def next_index_def by (simp only: mask_index_of_nat mult_mod_right)
qed

lemma rget_pair:
  assumes "length a = 2 * dict_size a" "i < dict_size a"
  shows "rget a (2 * i) = Inr (fst (dict_cells a ! i))" "rget a (2 * i + 1) = Inr (snd (dict_cells a ! i))"
    "rget a (Suc (2 * i)) = Inr (snd (dict_cells a ! i))"
  using assms by (simp_all add: dict_cells_nth)

lemma assign_probe_scan:
  assumes I: "dict_env_ok I" and len: "length a = 2 * n" "n = dict_size a" and n: "pow2 n" "n < 2 ^ 58"
    and tomb: "\<And>i. i < dict_size a \<Longrightarrow> fst (dict_cells a ! i) \<noteq> NULL \<Longrightarrow> snd (dict_cells a ! i) = NULL \<Longrightarrow>
       fst (dict_cells a ! i) = nothing I"
    and i: "i < n"
  shows "assign_probe I a key maxprobe (2 * orig) iter (2 * i) eslot =
    Inr (let p = probe_path (\<lambda>_. next_index n) maxprobe orig iter i in
      case scan dict_vacant (\<lambda>c. snd c \<noteq> NULL \<and> egal I key (fst c)) (dict_cells a) p of
        Some j \<Rightarrow> KeyAt (2 * j)
      | None \<Rightarrow> EmptySlot (case eslot of Some e \<Rightarrow> Some e
          | None \<Rightarrow> map_option ((*) 2) (find (\<lambda>j. dict_free (dict_cells a ! j)) p)))"
  using i
proof (induction "\<lambda>_ :: nat. next_index n" maxprobe orig iter i arbitrary: eslot rule: probe_path.induct)
  case (1 maxprobe orig iter i)
  have nx: "next_index n i < n" using n(1) by (rule next_index_lt)
  have i: "i < dict_size a" using 1 len(2) by simp
  have nxt: "dict_next (length a) (2 * i) = 2 * next_index n i"
    unfolding len(1) by (rule dict_next_pair [OF n])
  have pair: "rget a (2 * i) = Inr (fst (dict_cells a ! i))" "rget a (Suc (2 * i)) = Inr (snd (dict_cells a ! i))"
    using rget_pair [of a i] len i by simp_all
  let ?k = "fst (dict_cells a ! i)" and ?v = "snd (dict_cells a ! i)"
  have th: "?k \<noteq> NULL \<Longrightarrow> ?v = NULL \<Longrightarrow> ?k = nothing I \<and> (egal I key ?k \<longrightarrow> key = nothing I)"
    using tomb [OF i] dict_env_okD(5) [OF I] by auto
  show ?case
  proof (cases "?k = NULL")
    case True
    then show ?thesis
      by (subst assign_probe.simps, subst probe_path.simps) (simp add: pair Let_def split: option.splits)
  next
    case k: False
    let ?slot = "if eslot = None \<and> ?v = NULL then Some (2 * i) else eslot"
    let ?hit = "?v \<noteq> NULL \<and> egal I key ?k" and ?i = "next_index n i"
    have step: "assign_probe I a key maxprobe (2 * orig) iter (2 * i) eslot =
      (if ?hit then Inr (KeyAt (2 * i))
       else if Suc iter \<le> maxprobe \<and> ?i \<noteq> orig
       then assign_probe I a key maxprobe (2 * orig) (Suc iter) (2 * ?i) ?slot
       else Inr (EmptySlot ?slot))"
    proof (cases ?hit)
      case True
      then show ?thesis using k by (subst assign_probe.simps) (simp add: pair)
    next
      case False
      then have "egal I key ?k \<longrightarrow> key = nothing I" "?v = NULL \<longrightarrow> ?k = nothing I" using th k by auto
      then show ?thesis
        using False k by (subst assign_probe.simps) (auto simp: pair nxt Let_def)
    qed
    have path: "probe_path (\<lambda>_. next_index n) maxprobe orig iter i =
        i # (if Suc iter \<le> maxprobe \<and> ?i \<noteq> orig
             then probe_path (\<lambda>_. next_index n) maxprobe orig (Suc iter) ?i else [])"
      by (subst probe_path.simps) (simp add: Let_def)
    show ?thesis
    proof (cases "Suc iter \<le> maxprobe \<and> ?i \<noteq> orig")
      case True
      note IH = 1(1) [OF refl True nx, of ?slot]
      show ?thesis
        unfolding step path using True k IH by (auto simp: Let_def split: option.splits)
    next
      case False
      then show ?thesis unfolding step path using k by (auto simp: Let_def split: option.splits)
    qed
  qed
qed

lemma peek_probe_scan:
  assumes I: "dict_env_ok I" and len: "length a = 2 * n" "n = dict_size a" and n: "pow2 n" "n < 2 ^ 58"
    and tomb: "\<And>i. i < dict_size a \<Longrightarrow> fst (dict_cells a ! i) \<noteq> NULL \<Longrightarrow> snd (dict_cells a ! i) = NULL \<Longrightarrow>
       fst (dict_cells a ! i) = nothing I"
    and i: "i < n"
  shows "peek_probe I a key maxprobe (2 * orig) iter (2 * i) =
    Inr (map_option (\<lambda>j. 2 * j + 1) (scan dict_vacant (\<lambda>c. snd c \<noteq> NULL \<and> egal I key (fst c)) (dict_cells a)
      (probe_path (\<lambda>_. next_index n) maxprobe orig iter i)))"
  using i
proof (induction "\<lambda>_ :: nat. next_index n" maxprobe orig iter i rule: probe_path.induct)
  case (1 maxprobe orig iter i)
  have nx: "next_index n i < n" using n(1) by (rule next_index_lt)
  have i: "i < dict_size a" using 1 len(2) by simp
  have nxt: "dict_next (length a) (2 * i) = 2 * next_index n i"
    unfolding len(1) by (rule dict_next_pair [OF n])
  have pair: "rget a (2 * i) = Inr (fst (dict_cells a ! i))" "rget a (Suc (2 * i)) = Inr (snd (dict_cells a ! i))"
    using rget_pair [of a i] len i by simp_all
  have th: "fst (dict_cells a ! i) \<noteq> NULL \<Longrightarrow> snd (dict_cells a ! i) = NULL \<Longrightarrow>
      egal I key (fst (dict_cells a ! i)) \<Longrightarrow> key = nothing I"
    using tomb [OF i] dict_env_okD(5) [OF I] by auto
  note IH = 1(1) [OF refl _ nx]
  show ?case
    by (subst peek_probe.simps, subst probe_path.simps) (use th IH in \<open>auto simp: pair nxt Let_def\<close>)
qed

section \<open>Updating an entry\<close>

lemma dict_map_iff:
  assumes I: "dict_env_ok I" and ok: "dict_ok I a"
  shows "dict_map I a key = Some v \<longleftrightarrow>
    (\<exists>i < dict_size a. \<not> dict_free (dict_cells a ! i) \<and> egal I key (fst (dict_cells a ! i)) \<and> snd (dict_cells a ! i) = v)"
    (is "?l \<longleftrightarrow> ?r")
proof
  assume ?l
  then obtain c where "find (\<lambda>c. \<not> dict_free c \<and> egal I key (fst c)) (dict_cells a) = Some c" "snd c = v"
    by (auto simp: dict_map_def)
  then show ?r by (auto simp: find_Some_iff)
next
  assume ?r
  then obtain i where i: "i < dict_size a" "\<not> dict_free (dict_cells a ! i)" "egal I key (fst (dict_cells a ! i))"
    "snd (dict_cells a ! i) = v" by blast
  have ne: "a \<noteq> []" using i(1) by (auto simp: dict_size_def)
  have uniq: "j = i" if "j < dict_size a" "\<not> dict_free (dict_cells a ! j)" "egal I key (fst (dict_cells a ! j))" for j
    using dict_okD(6) [OF ok ne that(1) i(1) that(2) i(2)]
      dict_env_okD(3) [OF I dict_env_okD(2) [OF I that(3)] i(3)] by blast
  have "find (\<lambda>c. \<not> dict_free c \<and> egal I key (fst c)) (dict_cells a) = Some (dict_cells a ! i)"
    unfolding find_Some_iff
  proof (intro exI [of _ i] conjI allI impI)
    show "\<not> (\<not> dict_free (dict_cells a ! j) \<and> egal I key (fst (dict_cells a ! j)))" if "j < i" for j
      using that uniq [of j] i(1) by auto
  qed (use i(1-3) in simp_all)
  then show ?l using i(4) by (simp add: dict_map_def)
qed

definition set_pair :: "ptr list \<Rightarrow> nat \<Rightarrow> ptr \<Rightarrow> ptr \<Rightarrow> ptr list" where
  "set_pair a i k v = a[2 * i := k, 2 * i + 1 := v]"

lemma dict_size_set_pair [simp]: "dict_size (set_pair a i k v) = dict_size a"
  by (simp add: dict_size_def set_pair_def)

lemma set_pair_Nil [simp]: "set_pair a i k v = [] \<longleftrightarrow> a = []"
  by (simp add: set_pair_def)

lemma length_set_pair [simp]: "length (set_pair a i k v) = length a"
  by (simp add: set_pair_def)

lemma set_pair_nth:
  assumes "length a = 2 * dict_size a" "i < dict_size a" "j < dict_size a"
  shows "set_pair a i k v ! (2 * j) = (if j = i then k else a ! (2 * j))"
    "set_pair a i k v ! Suc (2 * j) = (if j = i then v else a ! Suc (2 * j))"
proof -
  have "2 * i \<noteq> Suc (2 * j)" "Suc (2 * i) \<noteq> 2 * j" by presburger+
  then show "set_pair a i k v ! (2 * j) = (if j = i then k else a ! (2 * j))"
    "set_pair a i k v ! Suc (2 * j) = (if j = i then v else a ! Suc (2 * j))"
    using assms by (auto simp: set_pair_def nth_list_update)
qed

lemma dict_cells_update:
  assumes "length a = 2 * dict_size a" "i < dict_size a"
  shows "dict_cells (set_pair a i k v) = (dict_cells a)[i := (k, v)]"
proof (rule nth_equalityI)
  show "length (dict_cells (set_pair a i k v)) = length ((dict_cells a)[i := (k, v)])"
    by simp
  fix j assume "j < length (dict_cells (set_pair a i k v))"
  then have j: "j < dict_size a" by simp
  show "dict_cells (set_pair a i k v) ! j = (dict_cells a)[i := (k, v)] ! j"
    using j assms by (simp add: dict_cells_nth set_pair_nth nth_list_update)
qed

text \<open>Overwriting cell \<open>i\<close> with a tombstone or a well-placed entry for a key of its own.\<close>

lemma dict_ok_update:
  assumes ok: "dict_ok I a" and i: "i < dict_size a" and k: "k \<noteq> NULL" "v = NULL \<Longrightarrow> k = nothing I"
    and r: "v \<noteq> NULL \<Longrightarrow> reach dict_vacant (dict_cells a) (int_path (dict_size a) (object_id I k)) i"
    and u: "\<And>j. v \<noteq> NULL \<Longrightarrow> j < dict_size a \<Longrightarrow> j \<noteq> i \<Longrightarrow> \<not> dict_free (dict_cells a ! j) \<Longrightarrow>
      \<not> egal I k (fst (dict_cells a ! j)) \<and> \<not> egal I (fst (dict_cells a ! j)) k"
  shows "dict_ok I (set_pair a i k v)"
proof -
  have ne: "a \<noteq> []" using i by (auto simp: dict_size_def)
  note okD = dict_okD [OF ok ne]
  let ?a = "set_pair a i k v"
  have cells: "dict_cells ?a = (dict_cells a)[i := (k, v)]" by (rule dict_cells_update [OF okD(1) i])
  have nth: "dict_cells ?a ! j = (if j = i then (k, v) else dict_cells a ! j)" if "j < dict_size a" for j
    using that i by (simp add: cells nth_list_update)
  have "placed dict_vacant (int_path (length (dict_cells a))) (dict_hash I) ((dict_cells a)[i := (k, v)])"
    by (rule ip.placed_insert) (use okD(5) k r in \<open>auto simp: dict_hash_def split: if_splits\<close>)
  moreover have "(fst c = NULL \<longrightarrow> snd c = NULL) \<and> (fst c \<noteq> NULL \<and> snd c = NULL \<longrightarrow> fst c = nothing I)"
    if c: "c \<in> set (dict_cells ?a)" for c
  proof -
    obtain j where "j < dict_size a" "c = dict_cells ?a ! j"
      using c in_set_conv_nth [of c "dict_cells ?a"] by auto
    then show ?thesis using nth [of j] okD(4,7) [of j] k by (auto split: if_splits)
  qed
  moreover have "j = j'" if "j < dict_size a" "j' < dict_size a" "\<not> dict_free (dict_cells ?a ! j)"
      "\<not> dict_free (dict_cells ?a ! j')" "egal I (fst (dict_cells ?a ! j)) (fst (dict_cells ?a ! j'))" for j j'
    using that nth okD(6) [of j j'] u [of j] u [of j'] by (auto split: if_splits)
  ultimately show ?thesis
    using okD(1,2,3) unfolding dict_ok_def cells by (auto simp: cells)
qed

lemma dict_map_update:
  assumes I: "dict_env_ok I" and ok: "dict_ok I a" "dict_ok I (set_pair a i k v)"
    and i: "i < dict_size a" and v: "k \<noteq> NULL" "v \<noteq> NULL"
    and old: "dict_free (dict_cells a ! i) \<or> egal I k (fst (dict_cells a ! i))"
    and new: "dict_free (dict_cells a ! i) \<Longrightarrow> dict_map I a k = None"
  shows "dict_map I (set_pair a i k v) = (\<lambda>key. if egal I key k then Some v else dict_map I a key)"
proof
  fix key
  let ?a = "set_pair a i k v"
  have ne: "a \<noteq> []" using i by (auto simp: dict_size_def)
  have nth: "dict_cells ?a ! j = (if j = i then (k, v) else dict_cells a ! j)" if "j < dict_size a" for j
    using that i dict_cells_update [OF dict_okD(1) [OF ok(1) ne] i] by (simp add: nth_list_update)
  have "dict_map I ?a key = Some w \<longleftrightarrow> (if egal I key k then Some v else dict_map I a key) = Some w" for w
  proof (cases "egal I key k")
    case True
    have "dict_map I ?a key = Some v"
      unfolding dict_map_iff [OF I ok(2)] using True i v nth [OF i] by (intro exI [of _ i]) simp
    then show ?thesis using True by simp
  next
    case False
    have no: "\<not> egal I key (fst (dict_cells a ! i))" if "\<not> dict_free (dict_cells a ! i)"
      using that old False dict_env_okD(3) [OF I _ dict_env_okD(2) [OF I], of key _ k] by blast
    have "(\<not> dict_free (dict_cells ?a ! j) \<and> egal I key (fst (dict_cells ?a ! j)) \<and> snd (dict_cells ?a ! j) = w) =
      (\<not> dict_free (dict_cells a ! j) \<and> egal I key (fst (dict_cells a ! j)) \<and> snd (dict_cells a ! j) = w)"
      if "j < dict_size a" for j
      using nth [OF that] no False by (cases "j = i") auto
    then have "dict_map I ?a key = Some w \<longleftrightarrow> dict_map I a key = Some w"
      unfolding dict_map_iff [OF I ok(2)] dict_map_iff [OF I ok(1)] by auto
    then show ?thesis using False by simp
  qed
  then show "dict_map I ?a key = (if egal I key k then Some v else dict_map I a key)"
    by (metis option.exhaust)
qed

section \<open>Assignment\<close>

definition dict_live :: "ptr list \<Rightarrow> nat" where
  "dict_live a = length (filter (\<lambda>c. \<not> dict_free c) (dict_cells a))"

text \<open>What an assignment of \<open>v\<close> to \<open>k\<close> achieves.\<close>

definition assigned :: "dict_env \<Rightarrow> ptr list \<Rightarrow> ptr \<Rightarrow> ptr \<Rightarrow> bool \<Rightarrow> ptr list \<Rightarrow> bool" where
  "assigned I a k v b a' \<longleftrightarrow> dict_ok I a' \<and> a' \<noteq> [] \<and>
     dict_map I a' = (\<lambda>key. if egal I key k then Some v else dict_map I a key) \<and>
     (b \<longleftrightarrow> dict_map I a k = None) \<and> dict_live a' = dict_live a + of_bool b \<and> dict_size a \<le> dict_size a'"

lemma dict_live_update:
  assumes "length a = 2 * dict_size a" "i < dict_size a" "k \<noteq> NULL" "v \<noteq> NULL"
  shows "dict_live (set_pair a i k v) = dict_live a + of_bool (dict_free (dict_cells a ! i))"
proof -
  let ?P = "\<lambda>c :: ptr \<times> ptr. \<not> dict_free c"
  have i: "i < length (dict_cells a)" using assms(2) by simp
  have "mset (filter ?P (dict_cells (set_pair a i k v))) = {#(k, v)#} +
      (mset (filter ?P (dict_cells a)) - (if ?P (dict_cells a ! i) then {#dict_cells a ! i#} else {#}))"
    unfolding dict_cells_update [OF assms(1,2)] by (subst mset_filter_update [OF i]) (use assms(3,4) in simp)
  then have "dict_live (set_pair a i k v) = 1 +
      size (mset (filter ?P (dict_cells a)) - (if ?P (dict_cells a ! i) then {#dict_cells a ! i#} else {#}))"
    unfolding dict_live_def using arg_cong [of _ _ size] by (simp only: size_mset [symmetric] size_union size_single)
  moreover have "dict_cells a ! i \<in># mset (filter ?P (dict_cells a))" if "?P (dict_cells a ! i)"
    using that i nth_mem [of i "dict_cells a"] by simp
  moreover have "size (mset (filter ?P (dict_cells a))) = dict_live a" by (simp only: size_mset dict_live_def)
  moreover have "dict_live a \<noteq> 0" if "?P (dict_cells a ! i)"
    using that nth_mem [OF i] by (auto simp: dict_live_def filter_empty_conv)
  ultimately show ?thesis by (auto simp: size_Diff_singleton)
qed

lemma set_pair_value: "length a = 2 * dict_size a \<Longrightarrow> i < dict_size a \<Longrightarrow>
    a[2 * i + 1 := v] = set_pair a i (fst (dict_cells a ! i)) v"
  by (simp add: set_pair_def dict_cells_nth)

lemma dict_overwrite:
  assumes I: "dict_env_ok I" and ok: "dict_ok I a" and j: "j < dict_size a" "\<not> dict_free (dict_cells a ! j)"
    "egal I key (fst (dict_cells a ! j))" and v: "val \<noteq> NULL"
  shows "assigned I a key val False (a[2 * j + 1 := val])"
proof -
  have ne: "a \<noteq> []" using j(1) by (auto simp: dict_size_def)
  note okD = dict_okD [OF ok ne]
  let ?k = "fst (dict_cells a ! j)"
  have eq: "a[2 * j + 1 := val] = set_pair a j ?k val" by (rule set_pair_value [OF okD(1) j(1)])
  have r: "reach dict_vacant (dict_cells a) (int_path (dict_size a) (object_id I ?k)) j"
    using okD(5) j(1,2) by (auto simp: placed_def dict_hash_def)
  have ok': "dict_ok I (set_pair a j ?k val)"
    by (rule dict_ok_update [OF ok j(1)]) (use j(2) v r okD(6) [OF j(1) _ j(2)] okD(6) [OF _ j(1) _ j(2)] in auto)
  have "dict_map I (set_pair a j ?k val) = (\<lambda>key. if egal I key ?k then Some val else dict_map I a key)"
    by (rule dict_map_update [OF I ok ok' j(1)]) (use j(2) v dict_env_okD(1) [OF I] in auto)
  moreover have "egal I x ?k \<longleftrightarrow> egal I x key" for x using j(3) dict_env_okD(2,3) [OF I] by blast
  moreover have "dict_map I a key \<noteq> None" using j by (auto simp: dict_map_iff [OF I ok])
  moreover have "dict_live (set_pair a j ?k val) = dict_live a"
    using dict_live_update [OF okD(1) j(1), of ?k val] j(2) v by simp
  ultimately show ?thesis unfolding eq assigned_def using ok' ne by simp
qed

lemma dict_add:
  assumes I: "dict_env_ok I" and ok: "dict_ok I a" "a \<noteq> []" and v: "key \<noteq> NULL" "val \<noteq> NULL"
    and none: "dict_map I a key = None"
    and f: "find (\<lambda>j. dict_free (dict_cells a ! j)) (int_path (dict_size a) (object_id I key)) = Some i"
  shows "assigned I a key val True (set_pair a i key val)" "i < dict_size a"
proof -
  note okD = dict_okD [OF ok]
  have "i < length (dict_cells a)" "dict_free (dict_cells a ! i)"
    using ip.find_free_range [of "dict_cells a" "\<lambda>c. dict_free c" "object_id I key" i] okD(2) f by simp_all
  then have i: "i < dict_size a" "dict_free (dict_cells a ! i)" by simp_all
  have r: "reach dict_vacant (dict_cells a) (int_path (dict_size a) (object_id I key)) i"
    by (rule find_free_reach [OF f]) simp
  have no: "\<not> egal I key (fst (dict_cells a ! j))" if "j < dict_size a" "\<not> dict_free (dict_cells a ! j)" for j
  proof
    assume "egal I key (fst (dict_cells a ! j))"
    then have "dict_map I a key = Some (snd (dict_cells a ! j))" using that by (auto simp: dict_map_iff [OF I ok(1)])
    then show False using none by simp
  qed
  have ok': "dict_ok I (set_pair a i key val)"
    by (rule dict_ok_update [OF ok(1) i(1)]) (use v r no dict_env_okD(2) [OF I] in auto)
  have "dict_map I (set_pair a i key val) = (\<lambda>k. if egal I k key then Some val else dict_map I a k)"
    by (rule dict_map_update [OF I ok(1) ok' i(1) v]) (use i none in auto)
  moreover have "dict_live (set_pair a i key val) = dict_live a + 1"
    using dict_live_update [OF okD(1) i(1) v] i(2) by simp
  ultimately show "assigned I a key val True (set_pair a i key val)"
    unfolding assigned_def using ok' none ok(2) by simp
  show "i < dict_size a" by fact
qed

lemma dict_hit:
  assumes I: "dict_env_ok I" and ok: "dict_ok I a" "a \<noteq> []"
  obtains j where "scan dict_vacant (\<lambda>c. snd c \<noteq> NULL \<and> egal I key (fst c)) (dict_cells a)
        (int_path (dict_size a) (object_id I key)) = Some j"
      "j < dict_size a" "\<not> dict_free (dict_cells a ! j)" "egal I key (fst (dict_cells a ! j))"
  | "scan dict_vacant (\<lambda>c. snd c \<noteq> NULL \<and> egal I key (fst c)) (dict_cells a)
        (int_path (dict_size a) (object_id I key)) = None" "dict_map I a key = None"
proof -
  note okD = dict_okD [OF ok]
  let ?hit = "\<lambda>c. snd c \<noteq> NULL \<and> egal I key (fst c)"
  let ?s = "scan dict_vacant ?hit (dict_cells a) (int_path (dict_size a) (object_id I key))"
  show ?thesis
  proof (cases ?s)
    case None
    have "dict_map I a key = None"
    proof (rule ccontr)
      assume "dict_map I a key \<noteq> None"
      then obtain v where "dict_map I a key = Some v" by blast
      then obtain i where i: "i < dict_size a" "\<not> dict_free (dict_cells a ! i)" "egal I key (fst (dict_cells a ! i))"
        by (auto simp: dict_map_iff [OF I ok(1)])
      have "\<exists>j. scan dict_vacant ?hit (dict_cells a) (int_path (length (dict_cells a)) (object_id I key)) = Some j"
        by (rule ip.lookup_complete [where hs = "dict_hash I" and i = i])
          (use okD(5) i dict_env_okD(4) [OF I i(3)] in \<open>auto simp: dict_hash_def\<close>)
      then show False using None by simp
    qed
    then show ?thesis using that(2) None by simp
  next
    case (Some j)
    then show ?thesis
      using that(1) ip.lookup_sound [of dict_vacant ?hit "dict_cells a" "object_id I key" j] okD(2) by simp
  qed
qed

text \<open>One pass of the loop: the assignment is done, or the probe sequence is full.\<close>

lemma dict_pass:
  assumes I: "dict_env_ok I" and ok: "dict_ok I a" "a \<noteq> []" and v: "key \<noteq> NULL" "val \<noteq> NULL"
  obtains b a' where "\<And>fuel. jl_table_assign_bp (Suc fuel) E I a key val = Inr (b, a')"
      "assigned I a key val b a'" "dict_size a' = dict_size a"
  | "\<And>fuel. jl_table_assign_bp (Suc fuel) E I a key val =
        rbind (dict_rehash (jl_table_assign_bp fuel E I) E a (grown_size (of_nat (length a)))) (\<lambda>a.
          jl_table_assign_bp fuel E I a key val)"
      "dict_size a < linear_room (dict_live a)"
proof -
  note okD = dict_okD [OF ok]
  let ?n = "dict_size a" let ?h = "mask_index (object_id I key) ?n"
  let ?s = "scan dict_vacant (\<lambda>c. snd c \<noteq> NULL \<and> egal I key (fst c)) (dict_cells a) (int_path ?n (object_id I key))"
  let ?f = "find (\<lambda>j. dict_free (dict_cells a ! j)) (int_path ?n (object_id I key))"
  have n0: "?n \<noteq> 0" using pow2_pos [OF okD(2)] by simp
  have probe: "assign_probe I a key (max_probe ?n) (dict_index (object_id I key) ?n) 0
      (dict_index (object_id I key) ?n) None =
    Inr (case ?s of Some j \<Rightarrow> KeyAt (2 * j) | None \<Rightarrow> EmptySlot (map_option ((*) 2) ?f))"
    unfolding dict_index_def mult.commute [of ?h 2] int_path_def
    by (rule assign_probe_scan [where eslot = None, unfolded Let_def option.case,
          OF I okD(1) refl okD(2,3) _ mask_index_lt [OF okD(2)]]) (rule okD(4))
  show ?thesis
  proof (rule dict_hit [OF I ok, of key])
    fix j
    assume j: "?s = Some j" "j < ?n" "\<not> dict_free (dict_cells a ! j)" "egal I key (fst (dict_cells a ! j))"
    have "jl_table_assign_bp (Suc fuel) E I a key val = Inr (False, a[2 * j + 1 := val])" for fuel
      using n0 probe j(1,2) okD(1) by (simp add: Let_def)
    then show ?thesis
      by (rule that(1) [OF _ dict_overwrite [OF I ok(1) j(2-4) v(2)]]) (simp add: dict_size_def)
  next
    assume none: "?s = None" "dict_map I a key = None"
    show ?thesis
    proof (cases ?f)
      case None
      then have "jl_table_assign_bp (Suc fuel) E I a key val =
        rbind (dict_rehash (jl_table_assign_bp fuel E I) E a (grown_size (of_nat (length a)))) (\<lambda>a.
          jl_table_assign_bp fuel E I a key val)" for fuel
        using n0 probe none(1) by (simp add: Let_def)
      moreover have "\<not> linear_room (dict_live a) \<le> ?n"
        using ip.free_slot [of "dict_cells a" "dict_live a" "\<lambda>c. dict_free c" "object_id I key"] okD(2) None
        by (auto simp: dict_live_def)
      then have "?n < linear_room (dict_live a)" by simp
      ultimately show ?thesis by (rule that(2))
    next
      case (Some i)
      note add = dict_add [OF I ok v none(2) Some]
      have "jl_table_assign_bp (Suc fuel) E I a key val = Inr (True, set_pair a i key val)" for fuel
        using n0 probe none(1) Some add(2) okD(1) by (simp add: Let_def set_pair_def)
      then show ?thesis by (rule that(1) [OF _ add(1)]) simp
    qed
  qed
qed

section \<open>Rehashing\<close>

text \<open>\<open>assign\<close> works on every table with at least \<open>n\<close> slots and fewer than \<open>M\<close> entries.\<close>

definition assigns :: "dict_env \<Rightarrow> (ptr list \<Rightarrow> ptr \<Rightarrow> ptr \<Rightarrow> (bool \<times> ptr list) result) \<Rightarrow> nat \<Rightarrow> nat \<Rightarrow> bool" where
  "assigns I assign n M \<longleftrightarrow>
     (\<forall>a k v. dict_ok I a \<and> a \<noteq> [] \<and> n \<le> dict_size a \<and> dict_size a \<le> 2 ^ 56 \<and> dict_live a < M \<and> k \<noteq> NULL \<and> v \<noteq> NULL \<longrightarrow>
       (\<exists>b a'. assign a k v = Inr (b, a') \<and> assigned I a k v b a' \<and> dict_size a' \<le> 2 ^ 56))"

text \<open>The dictionary of the first \<open>j\<close> entries.\<close>

definition prefix_map :: "dict_env \<Rightarrow> (ptr \<times> ptr) list \<Rightarrow> ptr \<Rightarrow> ptr option" where
  "prefix_map I cs key = map_option snd (find (\<lambda>c. \<not> dict_free c \<and> egal I key (fst c)) cs)"

lemma find_append: "find P (xs @ ys) = (case find P xs of None \<Rightarrow> find P ys | Some x \<Rightarrow> Some x)"
  by (induction xs) auto

lemma even_upt: "filter even [0 ..< 2 * n] = map ((*) 2) [0 ..< n]"
  by (induction n) auto

lemma dict_refill_ok:
  assumes I: "dict_env_ok I" and ok: "dict_ok I a" "a \<noteq> []" and g: "assigns I assign n M" "dict_live a \<le> M"
    and "j \<le> dict_size a" "dict_ok I newa" "newa \<noteq> []" "n \<le> dict_size newa" "dict_size newa \<le> 2 ^ 56"
      "dict_map I newa = prefix_map I (take j (dict_cells a))"
      "dict_live newa = length (filter (\<lambda>c. \<not> dict_free c) (take j (dict_cells a)))"
  shows "\<exists>newa'. dict_refill assign a (map ((*) 2) [j ..< dict_size a]) newa = Inr newa' \<and>
    dict_ok I newa' \<and> newa' \<noteq> [] \<and> dict_map I newa' = dict_map I a \<and> dict_live newa' = dict_live a \<and>
    dict_size newa \<le> dict_size newa' \<and> dict_size newa' \<le> 2 ^ 56"
  using assms(6-)
proof (induction "dict_size a - j" arbitrary: j newa)
  case 0
  then show ?case by (simp add: prefix_map_def dict_map_def [abs_def] dict_live_def fun_eq_iff)
next
  case (Suc m)
  note okD = dict_okD [OF ok]
  let ?c = "dict_cells a ! j" let ?P = "\<lambda>c :: ptr \<times> ptr. \<not> dict_free c"
  have j: "j < dict_size a" "[j ..< dict_size a] = j # [Suc j ..< dict_size a]" using Suc.hyps(2)
    by (auto simp: upt_conv_Cons)
  have take: "take (Suc j) (dict_cells a) = take j (dict_cells a) @ [?c]" using j(1) by (simp add: take_Suc_conv_app_nth)
  have m: "m = dict_size a - Suc j" using Suc.hyps(2) by simp
  note pair = rget_pair [OF okD(1) j(1)]
  show ?case
  proof (cases "dict_free ?c")
    case True
    then have v: "snd ?c = NULL" using okD(7) [OF j(1)] by auto
    have "dict_refill assign a (map ((*) 2) [j ..< dict_size a]) newa =
        dict_refill assign a (map ((*) 2) [Suc j ..< dict_size a]) newa"
      unfolding j(2) using pair v by simp
    moreover have "prefix_map I (take (Suc j) (dict_cells a)) = prefix_map I (take j (dict_cells a))"
      using True by (auto simp: take prefix_map_def find_append fun_eq_iff split: option.splits)
    moreover have "filter ?P (take (Suc j) (dict_cells a)) = filter ?P (take j (dict_cells a))"
      using True by (auto simp: take)
    ultimately show ?thesis
      using Suc.hyps(1) [of "Suc j" newa] Suc.hyps(2) Suc.prems j(1) by simp
  next
    case False
    have "filter ?P (dict_cells a) = filter ?P (take (Suc j) (dict_cells a)) @ filter ?P (drop (Suc j) (dict_cells a))"
      by (metis append_take_drop_id filter_append)
    then have "length (filter ?P (take j (dict_cells a))) < dict_live a"
      unfolding dict_live_def take using False by simp
    then have "dict_live newa < M" using Suc.prems(7) g(2) by simp
    then obtain b newa1 where n1: "assign newa (fst ?c) (snd ?c) = Inr (b, newa1)"
      "assigned I newa (fst ?c) (snd ?c) b newa1" "dict_size newa1 \<le> 2 ^ 56"
      using g(1) Suc.prems False unfolding assigns_def by blast
    have other: "find (\<lambda>c. ?P c \<and> egal I key (fst c)) (take j (dict_cells a)) = None" if "egal I key (fst ?c)" for key
    proof (rule ccontr)
      assume "find (\<lambda>c. ?P c \<and> egal I key (fst c)) (take j (dict_cells a)) \<noteq> None"
      then obtain i where i: "i < j" "?P (dict_cells a ! i)" "egal I key (fst (dict_cells a ! i))"
        using j(1) by (auto simp: find_Some_iff)
      have "egal I (fst (dict_cells a ! i)) (fst ?c)"
        by (rule dict_env_okD(3) [OF I dict_env_okD(2) [OF I i(3)] that])
      then show False using okD(6) [of i j] i j(1) False by simp
    qed
    have "dict_map I newa1 = prefix_map I (take (Suc j) (dict_cells a))"
    proof
      fix key
      show "dict_map I newa1 key = prefix_map I (take (Suc j) (dict_cells a)) key"
        using n1(2) Suc.prems(6) other [of key] False
        by (auto simp: assigned_def prefix_map_def take find_append split: option.splits)
    qed
    moreover have "b" using n1(2) Suc.prems(6) other [OF dict_env_okD(1) [OF I]]
      by (simp add: assigned_def prefix_map_def)
    then have "dict_live newa1 = length (filter ?P (take (Suc j) (dict_cells a)))"
      using n1(2) Suc.prems(7) False by (simp add: assigned_def take)
    moreover have "dict_ok I newa1" "newa1 \<noteq> []" "dict_size newa \<le> dict_size newa1"
      using n1(2) by (simp_all add: assigned_def)
    ultimately obtain newa' where r: "dict_refill assign a (map ((*) 2) [Suc j ..< dict_size a]) newa1 = Inr newa'"
      "dict_ok I newa'" "newa' \<noteq> []" "dict_map I newa' = dict_map I a" "dict_live newa' = dict_live a"
      "dict_size newa1 \<le> dict_size newa'" "dict_size newa' \<le> 2 ^ 56"
      using Suc.hyps(1) [OF m, of newa1] Suc.prems(4) j(1) n1(3) by auto
    have "dict_refill assign a (map ((*) 2) [j ..< dict_size a]) newa = Inr newa'"
      unfolding j(2) using pair n1(1) False r(1) by simp
    then show ?thesis using r \<open>dict_size newa \<le> dict_size newa1\<close> by (intro exI [of _ newa']) simp
  qed
qed

lemma dict_fresh:
  assumes "pow2 n" "n < 2 ^ 58"
  shows "dict_ok I (replicate (2 * n) NULL)" "dict_map I (replicate (2 * n) NULL) = (\<lambda>_. None)"
    "dict_live (replicate (2 * n) NULL) = 0" "dict_size (replicate (2 * n) NULL) = n"
proof -
  show sz: "dict_size (replicate (2 * n) NULL) = n" by (simp add: dict_size_def)
  have cells: "dict_cells (replicate (2 * n) NULL) = replicate n (NULL, NULL)"
    unfolding dict_cells_def sz by (rule nth_equalityI) simp_all
  have "placed dict_vacant (int_path n) (dict_hash I) (replicate n (NULL, NULL))"
    by (rule ip.placed_vacant) (simp add: dict_hash_def)
  then show "dict_ok I (replicate (2 * n) NULL)" using assms by (auto simp: dict_ok_def sz cells)
  show "dict_live (replicate (2 * n) NULL) = 0" by (simp add: dict_live_def cells)
  have "find (\<lambda>c. \<not> dict_free c \<and> egal I key (fst c)) (replicate n (NULL, NULL)) = None" for key
    by (simp add: find_None_iff)
  then show "dict_map I (replicate (2 * n) NULL) = (\<lambda>_. None)" by (simp add: dict_map_def fun_eq_iff cells)
qed

lemma pow2_less_double:
  assumes "pow2 m" "pow2 n" "n < m"
  shows "2 * n \<le> m"
proof -
  obtain j k where "m = 2 ^ j" "n = 2 ^ k" using assms(1,2) by (auto simp: pow2_def)
  moreover from this have "Suc k \<le> j" using assms(3) by simp
  ultimately show ?thesis using power_increasing [of "Suc k" j "2::nat"] by simp
qed

lemma pow2_half: "pow2 m \<Longrightarrow> 1 < m \<Longrightarrow> \<exists>n. m = 2 * n \<and> pow2 n"
  unfolding pow2_def by (metis Suc_lessD less_irrefl not0_implies_Suc power_0 power_Suc)

lemma dict_grown:
  assumes "pow2 n" "n < 2 ^ 50"
  obtains m where "grown_size (of_nat (2 * n)) = of_nat (2 * m)" "pow2 m" "2 * n \<le> m" "m \<le> 16 + 4 * n"
proof -
  have p: "pow2 (2 * n)" using assms by (intro pow2_double) auto
  obtain l where l: "grown_size (of_nat (2 * n)) = of_nat l" "pow2 l" "2 * n < l" "l \<le> 32 + 4 * (2 * n)"
    by (rule grown_size_bounds [of "2 * n"]) (use p assms in auto)
  obtain m where m: "l = 2 * m" "pow2 m" using pow2_half [OF l(2)] l(3) pow2_pos [OF assms(1)] by auto
  have "2 * (2 * n) \<le> l" by (rule pow2_less_double [OF l(2) p l(3)])
  then show ?thesis using that [of m] l m by simp
qed

text \<open>Each level of the recursion at least doubles the table, so the depth is bounded.\<close>

lemma assigns_fuel:
  assumes E: "\<And>b. alloc_ok E b" and I: "dict_env_ok I" and M: "linear_room M \<le> 2 ^ 49"
    and "linear_room M \<le> n * 2 ^ d" "d < fuel" "0 < n"
  shows "assigns I (jl_table_assign_bp fuel E I) n M"
  using assms(4-)
proof (induction d arbitrary: n fuel rule: less_induct)
  case (less d)
  obtain f where f: "fuel = Suc f" using less.prems(2) by (cases fuel) auto
  show ?case
    unfolding assigns_def
  proof (intro allI impI)
    fix a k v
    assume a: "dict_ok I a \<and> a \<noteq> [] \<and> n \<le> dict_size a \<and> dict_size a \<le> 2 ^ 56 \<and> dict_live a < M \<and> k \<noteq> NULL \<and> v \<noteq> NULL"
    then have ok: "dict_ok I a" "a \<noteq> []" and kv: "k \<noteq> NULL" "v \<noteq> NULL" by simp_all
    note okD = dict_okD [OF ok]
    let ?n = "dict_size a"
    show "\<exists>b a'. jl_table_assign_bp fuel E I a k v = Inr (b, a') \<and> assigned I a k v b a' \<and> dict_size a' \<le> 2 ^ 56"
    proof (rule dict_pass [OF I ok kv, of E])
      fix b a'
      assume "\<And>fuel. jl_table_assign_bp (Suc fuel) E I a k v = Inr (b, a')" "assigned I a k v b a'" "dict_size a' = ?n"
      then show ?thesis using a unfolding f by auto
    next
      assume step: "\<And>fuel. jl_table_assign_bp (Suc fuel) E I a k v =
          rbind (dict_rehash (jl_table_assign_bp fuel E I) E a (grown_size (of_nat (length a)))) (\<lambda>a.
            jl_table_assign_bp fuel E I a k v)"
        and "?n < linear_room (dict_live a)"
      then have room: "?n < linear_room M" using linear_room_mono [of "dict_live a" M] a by simp
      have "d \<noteq> 0" using room less.prems(1) a by (intro notI) simp
      then obtain e where e: "d = Suc e" by (cases d) auto
      obtain m where m: "grown_size (of_nat (2 * ?n)) = of_nat (2 * m)" "pow2 m" "2 * ?n \<le> m" "m \<le> 16 + 4 * ?n"
        by (rule dict_grown [OF okD(2)]) (use room M in simp)
      have mb: "m \<le> 2 ^ 56" "m < 2 ^ 58" using m(4) room M by simp_all
      have "linear_room M \<le> m * 2 ^ e"
      proof -
        have "linear_room M \<le> ?n * 2 ^ d" using less.prems(1) a mult_le_mono1 [of n ?n "2 ^ d"] by linarith
        also have "\<dots> \<le> m * 2 ^ e" using m(3) mult_le_mono1 [of "2 * ?n" m "2 ^ e"] by (simp add: e mult.assoc mult.left_commute)
        finally show ?thesis .
      qed
      then have good: "assigns I (jl_table_assign_bp f E I) m M"
        using less.IH [of e m f] e f less.prems(2) pow2_pos [OF m(2)] by simp
      have alloc: "jl_alloc_memory_any E (of_nat (2 * m)) = Inr (replicate (2 * m) NULL)"
        by (rule jl_alloc_memory_any_ok [OF E]) (use mb in simp)
      note fresh = dict_fresh [OF m(2) mb(2)]
      obtain newa where newa: "dict_refill (jl_table_assign_bp f E I) a (map ((*) 2) [0 ..< ?n]) (replicate (2 * m) NULL) = Inr newa"
        "dict_ok I newa" "newa \<noteq> []" "dict_map I newa = dict_map I a" "dict_live newa = dict_live a"
        "m \<le> dict_size newa" "dict_size newa \<le> 2 ^ 56"
        using dict_refill_ok [OF I ok good _ _ fresh(1), of 0] fresh a mb(1) pow2_pos [OF m(2)]
        by (auto simp: prefix_map_def fun_eq_iff)
      have rehash: "dict_rehash (jl_table_assign_bp f E I) E a (grown_size (of_nat (length a))) = Inr newa"
        unfolding dict_rehash_def okD(1) m(1) alloc using newa(1) by (simp add: even_upt)
      obtain b a' where "jl_table_assign_bp f E I newa k v = Inr (b, a')" "assigned I newa k v b a'" "dict_size a' \<le> 2 ^ 56"
        using good newa a kv unfolding assigns_def by (metis (no_types, lifting))
      then show ?thesis
        using step [of f] rehash newa m(3) unfolding f by (auto simp: assigned_def)
    qed
  qed
qed

section \<open>The operations on the dictionary\<close>

text \<open>Well-formed tables within the sizes the model covers.\<close>

definition dict_invar :: "dict_env \<Rightarrow> ptr list \<Rightarrow> bool" where
  "dict_invar I a \<longleftrightarrow> dict_ok I a \<and> dict_size a \<le> 2 ^ 56"

lemma dict_Nil: "dict_map I [] = (\<lambda>_. None)" "dict_live [] = 0" "dict_invar I []"
  by (simp_all add: dict_map_def [abs_def] dict_live_def dict_cells_def dict_size_def dict_ok_def dict_invar_def)

lemma jl_table_assign_bp_ok:
  assumes E: "\<And>b. alloc_ok E b" and I: "dict_env_ok I" and a: "dict_invar I a" "dict_live a < 2 ^ 40"
    and kv: "k \<noteq> NULL" "v \<noteq> NULL" and fuel: "50 \<le> fuel"
  shows "\<exists>b a'. jl_table_assign_bp fuel E I a k v = Inr (b, a') \<and> dict_invar I a' \<and>
    dict_map I a' = (\<lambda>key. if egal I key k then Some v else dict_map I a key) \<and>
    (b \<longleftrightarrow> dict_map I a k = None) \<and> dict_live a' = dict_live a + of_bool b"
proof -
  have p16: "pow2 16" unfolding pow2_def by (intro exI [of _ 4]) simp
  define c where "c = (if a = [] then replicate (2 * 16) NULL else a)"
  have fresh: "dict_ok I (replicate (2 * 16) NULL)" "dict_map I (replicate (2 * 16) NULL) = (\<lambda>_. None)"
    "dict_live (replicate (2 * 16) NULL) = 0" "dict_size (replicate (2 * 16) NULL) = 16"
    by (rule dict_fresh [OF p16]; simp)+
  have c: "dict_ok I c" "c \<noteq> []" "dict_size c \<le> 2 ^ 56" "dict_map I c = dict_map I a" "dict_live c = dict_live a"
    using a fresh dict_Nil by (simp_all add: c_def dict_invar_def)
  obtain f where f: "fuel = Suc f" using fuel by (cases fuel) auto
  have alloc: "jl_alloc_memory_any E (of_nat HT_N_INLINE) = Inr (replicate (2 * 16) NULL)"
    unfolding HT_N_INLINE_def using jl_alloc_memory_any_ok [OF E, of 32] by simp
  have start: "jl_table_assign_bp fuel E I a k v = jl_table_assign_bp fuel E I c k v"
  proof (cases "a = []")
    case True
    have "dict_size [] = 0" by (simp add: dict_size_def)
    then show ?thesis unfolding f c_def True using fresh(4) alloc by (simp only: jl_table_assign_bp.simps) simp
  qed (simp add: c_def)
  have n: "0 < dict_size c" using pow2_pos [OF dict_okD(2) [OF c(1,2)]] .
  have "assigns I (jl_table_assign_bp fuel E I) (dict_size c) (2 ^ 40)"
    by (rule assigns_fuel [OF E I, where d = 49]) (use fuel n in \<open>simp_all add: linear_room_def\<close>)
  then obtain b a' where "jl_table_assign_bp fuel E I c k v = Inr (b, a')" "assigned I c k v b a'" "dict_size a' \<le> 2 ^ 56"
    unfolding assigns_def using c a(2) kv by (metis order_refl)
  then show ?thesis unfolding start using c(4,5) by (auto simp: assigned_def dict_invar_def)
qed

lemma jl_table_peek_bp_ok:
  assumes I: "dict_env_ok I" and a: "dict_ok I a"
  obtains j where "jl_table_peek_bp I a key = Inr (Some (2 * j + 1))" "j < dict_size a"
      "\<not> dict_free (dict_cells a ! j)" "egal I key (fst (dict_cells a ! j))"
      "dict_map I a key = Some (snd (dict_cells a ! j))"
  | "jl_table_peek_bp I a key = Inr None" "dict_map I a key = None"
proof (cases "a = []")
  case True
  then show ?thesis using that(2) dict_Nil(1) [of I] by (simp add: jl_table_peek_bp_def dict_size_def)
next
  case ne: False
  note okD = dict_okD [OF a ne]
  let ?n = "dict_size a" let ?h = "mask_index (object_id I key) ?n"
  have n0: "?n \<noteq> 0" using pow2_pos [OF okD(2)] by simp
  have "peek_probe I a key (max_probe ?n) (2 * ?h) 0 (2 * ?h) = Inr (map_option (\<lambda>j. 2 * j + 1)
      (scan dict_vacant (\<lambda>c. snd c \<noteq> NULL \<and> egal I key (fst c)) (dict_cells a) (int_path ?n (object_id I key))))"
    unfolding int_path_def
    by (rule peek_probe_scan [OF I okD(1) refl okD(2,3) _ mask_index_lt [OF okD(2)]]) (rule okD(4))
  then have eq: "jl_table_peek_bp I a key = Inr (map_option (\<lambda>j. 2 * j + 1)
      (scan dict_vacant (\<lambda>c. snd c \<noteq> NULL \<and> egal I key (fst c)) (dict_cells a) (int_path ?n (object_id I key))))"
    using n0 by (simp add: jl_table_peek_bp_def Let_def dict_index_def mult.commute)
  show ?thesis
  proof (rule dict_hit [OF I a ne, of key])
    fix j
    assume j: "scan dict_vacant (\<lambda>c. snd c \<noteq> NULL \<and> egal I key (fst c)) (dict_cells a)
        (int_path ?n (object_id I key)) = Some j"
      "j < ?n" "\<not> dict_free (dict_cells a ! j)" "egal I key (fst (dict_cells a ! j))"
    have "dict_map I a key = Some (snd (dict_cells a ! j))" using j(2-4) by (auto simp: dict_map_iff [OF I a])
    then show ?thesis using that(1) [of j] eq j by simp
  qed (use that(2) eq in simp)
qed

lemma jl_eqtable_get_ok:
  assumes I: "dict_env_ok I" and a: "dict_ok I a"
  shows "jl_eqtable_get I a key deflt = Inr (case dict_map I a key of None \<Rightarrow> deflt | Some v \<Rightarrow> v)"
proof (rule jl_table_peek_bp_ok [OF I a, of key])
  fix j
  assume j: "jl_table_peek_bp I a key = Inr (Some (2 * j + 1))" "j < dict_size a"
    "dict_map I a key = Some (snd (dict_cells a ! j))"
  then have "a \<noteq> []" by (auto simp: dict_size_def)
  then show ?thesis using j rget_pair [OF dict_okD(1) [OF a] j(2)] by (simp add: jl_eqtable_get_def)
qed (simp add: jl_eqtable_get_def)

lemma dict_map_cong:
  assumes I: "dict_env_ok I" and ok: "dict_ok I a" and e: "egal I k key"
  shows "dict_map I a k = dict_map I a key"
proof -
  have "egal I k x \<longleftrightarrow> egal I key x" for x
    using e dict_env_okD(3) [OF I, of k key x] dict_env_okD(3) [OF I dict_env_okD(2) [OF I e], of x] by blast
  then have "dict_map I a k = Some w \<longleftrightarrow> dict_map I a key = Some w" for w by (simp add: dict_map_iff [OF I ok])
  then show ?thesis by (metis option.exhaust)
qed

lemma dict_map_delete:
  assumes I: "dict_env_ok I" and ok: "dict_ok I a" "dict_ok I (set_pair a j x NULL)" and j: "j < dict_size a"
    "\<not> dict_free (dict_cells a ! j)" "egal I key (fst (dict_cells a ! j))"
  shows "dict_map I (set_pair a j x NULL) = (\<lambda>k. if egal I k key then None else dict_map I a k)"
proof
  fix k
  let ?a = "set_pair a j x NULL"
  have ne: "a \<noteq> []" using j(1) by (auto simp: dict_size_def)
  note okD = dict_okD [OF ok(1) ne]
  have nth: "dict_cells ?a ! i = (if i = j then (x, NULL) else dict_cells a ! i)" if "i < dict_size a" for i
    using that j(1) dict_cells_update [OF okD(1) j(1)] by (simp add: nth_list_update)
  have key: "egal I k (fst (dict_cells a ! j)) \<longleftrightarrow> egal I k key"
    using j(3) dict_env_okD(2,3) [OF I] by blast
  have "(\<not> dict_free (dict_cells ?a ! i) \<and> egal I k (fst (dict_cells ?a ! i)) \<and> snd (dict_cells ?a ! i) = w) =
      (\<not> egal I k key \<and> \<not> dict_free (dict_cells a ! i) \<and> egal I k (fst (dict_cells a ! i)) \<and> snd (dict_cells a ! i) = w)"
    if i: "i < dict_size a" for i w
  proof (cases "i = j")
    case True
    then show ?thesis using nth [OF i] key by auto
  next
    case False
    have "\<not> (egal I k key \<and> \<not> dict_free (dict_cells a ! i) \<and> egal I k (fst (dict_cells a ! i)))"
      using okD(6) [OF i j(1) _ j(2)] False key dict_env_okD(2,3) [OF I] by blast
    then show ?thesis using nth [OF i] False by auto
  qed
  then have "dict_map I ?a k = Some w \<longleftrightarrow> \<not> egal I k key \<and> dict_map I a k = Some w" for w
    unfolding dict_map_iff [OF I ok(2)] dict_map_iff [OF I ok(1)] by auto
  then show "dict_map I ?a k = (if egal I k key then None else dict_map I a k)"
    by (metis option.exhaust)
qed

lemma jl_eqtable_pop_ok:
  assumes I: "dict_env_ok I" and a: "dict_invar I a" and nn: "nothing I \<noteq> NULL"
  shows "\<exists>a'. jl_eqtable_pop I a key deflt =
      Inr (case dict_map I a key of None \<Rightarrow> deflt | Some v \<Rightarrow> v, dict_map I a key \<noteq> None, a') \<and>
    dict_invar I a' \<and> dict_map I a' = (\<lambda>k. if egal I k key then None else dict_map I a k) \<and> dict_live a' \<le> dict_live a"
proof -
  have ok: "dict_ok I a" using a by (simp add: dict_invar_def)
  have cong: "dict_map I a k = dict_map I a key" if "egal I k key" for k
    by (rule dict_map_cong [OF I ok that])
  show ?thesis
  proof (rule jl_table_peek_bp_ok [OF I ok, of key])
    fix j
    assume j: "jl_table_peek_bp I a key = Inr (Some (2 * j + 1))" "j < dict_size a"
      "\<not> dict_free (dict_cells a ! j)" "egal I key (fst (dict_cells a ! j))"
      "dict_map I a key = Some (snd (dict_cells a ! j))"
    then have ne: "a \<noteq> []" by (auto simp: dict_size_def)
    note okD = dict_okD [OF ok ne]
    let ?a = "set_pair a j (nothing I) NULL"
    have "jl_eqtable_pop I a key deflt = Inr (snd (dict_cells a ! j), True, ?a)"
      using j(1,2) okD(1) rget_pair [OF okD(1) j(2)] by (simp add: jl_eqtable_pop_def set_pair_def)
    moreover have ok': "dict_ok I ?a" by (rule dict_ok_update [OF ok j(2) nn]) auto
    moreover have "dict_map I ?a = (\<lambda>k. if egal I k key then None else dict_map I a k)"
      by (rule dict_map_delete [OF I ok ok' j(2-4)])
    moreover have "dict_live ?a \<le> dict_live a"
    proof -
      have "j < length (dict_cells a)" using j(2) by simp
      from mset_filter_update [OF this, of "\<lambda>c. \<not> dict_free c" "(nothing I, NULL)"]
      have "size (mset (filter (\<lambda>c. \<not> dict_free c) (dict_cells ?a))) \<le> size (mset (filter (\<lambda>c. \<not> dict_free c) (dict_cells a)))"
        unfolding dict_cells_update [OF okD(1) j(2)] using j(3) by (simp add: size_Diff1_le)
      then show ?thesis by (simp only: size_mset dict_live_def)
    qed
    ultimately show ?thesis using j(5) a by (simp add: dict_invar_def)
  next
    assume "jl_table_peek_bp I a key = Inr None" "dict_map I a key = None"
    then show ?thesis using a cong by (auto simp: jl_eqtable_pop_def fun_eq_iff)
  qed
qed

lemma nextind_scan_ok:
  assumes "length a = 2 * dict_size a" "i \<le> dict_size a"
  shows "\<exists>j. nextind_scan a (2 * i) = Inr (2 * j) \<and> i \<le> j \<and> j \<le> dict_size a \<and>
    (\<forall>k. i \<le> k \<and> k < j \<longrightarrow> snd (dict_cells a ! k) = NULL) \<and> (j < dict_size a \<longrightarrow> snd (dict_cells a ! j) \<noteq> NULL)"
  using assms(2)
proof (induction "dict_size a - i" arbitrary: i)
  case 0
  then have "i = dict_size a" by simp
  then show ?case using assms(1) by (subst nextind_scan.simps) auto
next
  case (Suc m)
  then have i: "i < dict_size a" by simp
  have pair: "rget a (Suc (2 * i)) = Inr (snd (dict_cells a ! i))" by (rule rget_pair(3) [OF assms(1) i])
  show ?case
  proof (cases "snd (dict_cells a ! i) = NULL")
    case False
    then show ?thesis using i assms(1) pair by (subst nextind_scan.simps) (auto intro!: exI [of _ i])
  next
    case True
    have m: "m = dict_size a - Suc i" using Suc.hyps(2) by simp
    have "nextind_scan a (2 * i) = nextind_scan a (2 * Suc i)"
      using i assms(1) pair True by (subst nextind_scan.simps) simp
    moreover obtain j where j: "nextind_scan a (2 * Suc i) = Inr (2 * j)" "Suc i \<le> j" "j \<le> dict_size a"
      "\<forall>k. Suc i \<le> k \<and> k < j \<longrightarrow> snd (dict_cells a ! k) = NULL" "j < dict_size a \<longrightarrow> snd (dict_cells a ! j) \<noteq> NULL"
      using Suc.hyps(1) [OF m] i by auto
    moreover have "snd (dict_cells a ! k) = NULL" if "i \<le> k" "k < j" for k
      using j(4) that True by (cases "k = i") auto
    ultimately show ?thesis by (intro exI [of _ j]) simp
  qed
qed

section \<open>The interface of a map\<close>

definition eqtable_put :: "nat \<Rightarrow> heap_env \<Rightarrow> dict_env \<Rightarrow> ptr list \<Rightarrow> ptr \<Rightarrow> ptr \<Rightarrow> ptr list result" where
  "eqtable_put fuel E I a k v = rbind (jl_eqtable_put fuel E I a k v) (\<lambda>(a, _). Inr a)"

definition eqtable_remove :: "dict_env \<Rightarrow> ptr list \<Rightarrow> ptr \<Rightarrow> ptr list result" where
  "eqtable_remove I a k = rbind (jl_eqtable_pop I a k NULL) (\<lambda>(_, _, a). Inr a)"

lemma table_map_eqtable:
  assumes E: "\<And>b. alloc_ok E b" and I: "dict_env_ok I" "nothing I \<noteq> NULL" and fuel: "50 \<le> fuel"
  shows "table_map (egal I) (\<lambda>k. k \<noteq> NULL) (\<lambda>v. v \<noteq> NULL) (dict_invar I) (dict_map I) dict_live (2 ^ 40)
    (eqtable_put fuel E I) (eqtable_remove I)"
proof
  fix a k v
  assume a: "dict_invar I a"
  show "\<exists>s'. eqtable_put fuel E I a k v = Inr s' \<and> dict_invar I s' \<and>
      dict_map I s' = op_map (egal I) (Put k v) (dict_map I a) \<and> dict_live s' \<le> Suc (dict_live a)"
    if "dict_live a < 2 ^ 40" "k \<noteq> NULL" "v \<noteq> NULL"
    using jl_table_assign_bp_ok [OF E I(1) a that fuel] by (auto simp: eqtable_put_def jl_eqtable_put_def)
  show "\<exists>s'. eqtable_remove I a k = Inr s' \<and> dict_invar I s' \<and>
      dict_map I s' = op_map (egal I) (Remove k) (dict_map I a) \<and> dict_live s' \<le> dict_live a"
    using jl_eqtable_pop_ok [OF I(1) a I(2), of k NULL] by (auto simp: eqtable_remove_def)
qed

definition sample_dict_env :: dict_env where
  "sample_dict_env = \<lparr>object_id = \<lambda>p. drop_bit 4 p, egal = (=), nothing = 0x10\<rparr>"

lemma dict_env_ok_sample: "dict_env_ok sample_dict_env"
  by (simp add: dict_env_ok_def identity_ok_def sample_dict_env_def)

interpretation pointer_dict: table_map "egal sample_dict_env" "\<lambda>k. k \<noteq> NULL" "\<lambda>v. v \<noteq> NULL"
  "dict_invar sample_dict_env" "dict_map sample_dict_env" dict_live "2 ^ 40"
  "eqtable_put 50 roomy sample_dict_env" "eqtable_remove sample_dict_env"
  by (rule table_map_eqtable [OF _ dict_env_ok_sample]) (simp_all add: roomy_def sample_dict_env_def)

section \<open>Properties\<close>

text \<open>
  C23: An identity dictionary implements a map: for every sequence of insertions and
  removals the table operations end (a recursion depth of 50 suffices), keep the table well
  formed, and every look-up afterwards answers what the abstract map holds for a key up to
  egality, or the default.
\<close>

theorem eqtable_refines_map:
  assumes "\<And>b. alloc_ok E b" "dict_env_ok I" "nothing I \<noteq> NULL" "50 \<le> fuel"
    and "length ops \<le> 2 ^ 40" "list_all (op_ok (\<lambda>k. k \<noteq> NULL) (\<lambda>v. v \<noteq> NULL)) ops"
  shows "\<exists>a. run_table (eqtable_put fuel E I) (eqtable_remove I) ops [] = Inr a \<and> dict_invar I a \<and>
    (\<forall>key deflt. jl_eqtable_get I a key deflt =
       Inr (case run_map (egal I) ops (\<lambda>_. None) key of None \<Rightarrow> deflt | Some v \<Rightarrow> v))"
proof -
  have "\<exists>a. run_table (eqtable_put fuel E I) (eqtable_remove I) ops [] = Inr a \<and> dict_invar I a \<and>
      dict_map I a = run_map (egal I) ops (dict_map I [])"
    by (rule table_map.run_refines [OF table_map_eqtable [OF assms(1-4)]])
      (use assms(5,6) dict_Nil in auto)
  then show ?thesis using jl_eqtable_get_ok [OF assms(2)] dict_Nil(1) by (force simp: dict_invar_def)
qed

lemma eqtable_refines_map_witness:
  "\<exists>a. run_table (eqtable_put 50 roomy sample_dict_env) (eqtable_remove sample_dict_env)
        [Put 0x40 7, Put 0x50 8, Remove 0x40, Put 0x50 9] [] = Inr a \<and>
     jl_eqtable_get sample_dict_env a 0x50 1 = Inr 9 \<and> jl_eqtable_get sample_dict_env a 0x40 1 = Inr 1"
proof -
  have roomy_ok: "alloc_ok roomy b" "nothing sample_dict_env \<noteq> NULL" for b
    by (simp_all add: roomy_def sample_dict_env_def)
  from eqtable_refines_map [OF roomy_ok(1) dict_env_ok_sample roomy_ok(2), of 50
      "[Put 0x40 7, Put 0x50 8, Remove 0x40, Put 0x50 9]"]
  obtain a where a: "run_table (eqtable_put 50 roomy sample_dict_env) (eqtable_remove sample_dict_env)
        [Put 0x40 7, Put 0x50 8, Remove 0x40, Put 0x50 9] [] = Inr a"
    "\<forall>key deflt. jl_eqtable_get sample_dict_env a key deflt =
       Inr (case run_map (egal sample_dict_env) [Put 0x40 7, Put 0x50 8, Remove 0x40, Put 0x50 9] (\<lambda>_. None) key of
            None \<Rightarrow> deflt | Some v \<Rightarrow> v)"
    by auto
  then show ?thesis by (auto simp: run_map_def sample_dict_env_def)
qed



end
