(* ===== verification/Engine.thy ===== *)
theory Engine
  imports Prelude
begin

text \<open>
  The inference engine of \<open>src/engine.c\<close>: threads take leases (reservations) on pairs of a
  method instance and an owner, block on a condition variable while another thread holds
  the lease they need, and detect a cyclic wait before they block.  One call is cut at its
  only blocking point, \<open>uv_cond_wait\<close>: everything between two such points happens under
  \<open>engine_lock\<close> and is one step of the relation \<open>engine_step\<close>.  The lemmas show that the
  wait-for graph stays acyclic, so that the detection loop always ends and its assertion
  holds, that no wake-up is lost, that the per-thread counter \<open>engine_nqueued\<close> counts the
  leases of the thread, and that no reachable state is a deadlock.
\<close>

section \<open>Definitions\<close>

record infer_key =
  key_mi :: ptr
  key_owner :: ptr

record reservation_info =
  res_tid :: nat
  res_ci :: ptr

text \<open>A \<open>htable_t\<close> of reservations is the list of its live entries; the hash table itself is
  the concern of another theory.\<close>

type_synonym reservations = "(ptr \<times> reservation_info) list"

text \<open>
  The fields beyond the C globals: the threads that sleep on \<open>engine_wait\<close> and have not been
  signalled, and for each thread inside the wait of \<open>jl_engine_reserve\<close> its local variables
  (the key it asked for and its placeholder code instance).
\<close>

record engine =
  native_reservations :: reservations
  foreign_reservations :: "(ptr \<times> reservations) list"
  awaiting :: "infer_key option list"
  engine_nqueued :: "nat \<Rightarrow> int"
  engine_wait :: "nat list"
  reserving :: "nat \<Rightarrow> (infer_key \<times> ptr) option"

text \<open>The object \<open>nothing\<close>, the fields \<open>def\<close> and \<open>owner\<close> of a code instance and the GC bits
  of its header are read from the heap.\<close>

record engine_env =
  jl_nothing :: ptr
  ci_mi :: "ptr \<Rightarrow> ptr"
  ci_owner :: "ptr \<Rightarrow> ptr"

definition jl_init_engine :: engine where
  "jl_init_engine = \<lparr>native_reservations = [], foreign_reservations = [], awaiting = [],
     engine_nqueued = (\<lambda>_. 0), engine_wait = [], reserving = (\<lambda>_. None)\<rparr>"

text \<open>The map for an owner, created empty when it is asked for the first time.\<close>

definition reservation_map_for_owner :: "engine_env \<Rightarrow> engine \<Rightarrow> ptr \<Rightarrow> engine \<times> reservations" where
  "reservation_map_for_owner V e owner =
     (if owner = jl_nothing V then (e, native_reservations e)
      else (case map_of (foreign_reservations e) owner of
              None \<Rightarrow> (e\<lparr>foreign_reservations := foreign_reservations e @ [(owner, [])]\<rparr>, [])
            | Some h \<Rightarrow> (e, h)))"

definition put_reservation_map :: "engine_env \<Rightarrow> engine \<Rightarrow> ptr \<Rightarrow> reservations \<Rightarrow> engine" where
  "put_reservation_map V e owner h =
     (if owner = jl_nothing V then e\<lparr>native_reservations := h\<rparr>
      else e\<lparr>foreign_reservations :=
             map (\<lambda>(ow, h'). (ow, if ow = owner then h else h')) (foreign_reservations e)\<rparr>)"

definition get_reservation :: "engine_env \<Rightarrow> engine \<Rightarrow> ptr \<Rightarrow> ptr \<Rightarrow> engine \<times> reservation_info option" where
  "get_reservation V e mi owner =
     (let (e, h) = reservation_map_for_owner V e owner in (e, map_of h mi))"

definition remove_reservation :: "engine_env \<Rightarrow> engine \<Rightarrow> ptr \<Rightarrow> ptr \<Rightarrow> engine" where
  "remove_reservation V e mi owner =
     (let (e, h) = reservation_map_for_owner V e owner
      in put_reservation_map V e owner (filter (\<lambda>(m, _). m \<noteq> mi) h))"

definition try_insert_reservation ::
  "engine_env \<Rightarrow> engine \<Rightarrow> infer_key \<Rightarrow> reservation_info \<Rightarrow> engine \<times> reservation_info \<times> bool" where
  "try_insert_reservation V e key to_insert =
     (let (e, h) = reservation_map_for_owner V e (key_owner key) in
      case map_of h (key_mi key) of
        None \<Rightarrow> (put_reservation_map V e (key_owner key) (h @ [(key_mi key, to_insert)]), to_insert, True)
      | Some info \<Rightarrow> (e, info, False))"

text \<open>The cycle detection of \<open>jl_engine_reserve\<close>: \<open>None\<close> when it runs forever.\<close>

partial_function (option) detect_cycle ::
  "engine_env \<Rightarrow> nat \<Rightarrow> engine \<Rightarrow> nat \<Rightarrow> (engine \<times> bool) result option" where
  "detect_cycle V tid e wait_tid =
     (if wait_tid = tid then Some (Inr (e, True))
      else if length (awaiting e) \<le> wait_tid then Some (Inr (e, False))
      else case awaiting e ! wait_tid of
             None \<Rightarrow> Some (Inr (e, False))
           | Some key2 \<Rightarrow>
               (case get_reservation V e (key_mi key2) (key_owner key2) of
                  (e, None) \<Rightarrow> Some (Inr (e, False))
                | (e, Some info2) \<Rightarrow>
                    if wait_tid = res_tid info2 then Some (Inl AssertFailed)
                    else detect_cycle V tid e (res_tid info2)))"

datatype reserve_outcome = Reserved | Cyclic | Blocked

text \<open>One turn of the \<open>while\<close> loop of \<open>jl_engine_reserve\<close>, up to its end or to the wait.\<close>

definition reserve_attempt ::
  "engine_env \<Rightarrow> nat \<Rightarrow> infer_key \<Rightarrow> ptr \<Rightarrow> engine \<Rightarrow> (engine \<times> reserve_outcome) result" where
  "reserve_attempt V tid key ci e =
     (let (e, info, inserted) = try_insert_reservation V e key \<lparr>res_tid = tid, res_ci = ci\<rparr> in
      if inserted then Inr (e, Reserved)
      else
        rbind (returns (detect_cycle V tid e (res_tid info))) (\<lambda>r.
        rbind r (\<lambda>(e, cond).
          if cond then Inr (e\<lparr>engine_nqueued := (engine_nqueued e)(tid := engine_nqueued e tid - 1)\<rparr>, Cyclic)
          else
            rbind (rset (awaiting e) tid (Some key)) (\<lambda>aw.
            Inr (e\<lparr>awaiting := aw, engine_wait := tid # engine_wait e,
                   reserving := (reserving e)(tid \<mapsto> (key, ci))\<rparr>, Blocked)))))"

definition grow_awaiting :: "nat \<Rightarrow> engine \<Rightarrow> engine" where
  "grow_awaiting tid e =
     (let max_tid = length (awaiting e) in
      if max_tid < tid + 1
      then e\<lparr>awaiting := awaiting e @ replicate (tid + 1 - max_tid) None\<rparr> else e)"

definition jl_engine_reserve ::
  "engine_env \<Rightarrow> nat \<Rightarrow> infer_key \<Rightarrow> ptr \<Rightarrow> engine \<Rightarrow> (engine \<times> reserve_outcome) result" where
  "jl_engine_reserve V tid key ci e =
     (let e = e\<lparr>engine_nqueued := (engine_nqueued e)(tid := engine_nqueued e tid + 1)\<rparr>
      in reserve_attempt V tid key ci (grow_awaiting tid e))"

text \<open>The return of \<open>uv_cond_wait\<close> in a thread that waited, and the next turn of its loop.\<close>

definition jl_engine_resume ::
  "engine_env \<Rightarrow> nat \<Rightarrow> infer_key \<Rightarrow> ptr \<Rightarrow> engine \<Rightarrow> (engine \<times> reserve_outcome) result" where
  "jl_engine_resume V tid key ci e =
     rbind (rset (awaiting e) tid None) (\<lambda>aw.
       reserve_attempt V tid key ci
         (e\<lparr>awaiting := aw, engine_wait := filter (\<lambda>t. t \<noteq> tid) (engine_wait e),
            reserving := (reserving e)(tid := None)\<rparr>))"

definition jl_engine_hasreserved :: "engine_env \<Rightarrow> nat \<Rightarrow> ptr \<Rightarrow> ptr \<Rightarrow> engine \<Rightarrow> engine \<times> bool" where
  "jl_engine_hasreserved V tid mi owner e =
     (case get_reservation V e mi owner of
        (e, None) \<Rightarrow> (e, False)
      | (e, Some info) \<Rightarrow> (e, res_tid info = tid))"

definition gc_marked :: "u64 \<Rightarrow> bool" where
  "gc_marked bits \<longleftrightarrow> bits AND 1 \<noteq> 0"

fun sweep_reservations ::
  "(ptr \<Rightarrow> u64) \<Rightarrow> reservations \<Rightarrow> (nat \<Rightarrow> int) \<Rightarrow> reservations \<times> (nat \<Rightarrow> int) \<times> bool" where
  "sweep_reservations gc [] q = ([], q, False)"
| "sweep_reservations gc ((mi, info) # h) q =
     (if \<not> gc_marked (gc (res_ci info)) then
        (case sweep_reservations gc h (q(res_tid info := q (res_tid info) - 1)) of
           (h, q, any) \<Rightarrow> (h, q, True))
      else
        (case sweep_reservations gc h q of (h, q, any) \<Rightarrow> ((mi, info) # h, q, any)))"

fun sweep_foreign ::
  "(ptr \<Rightarrow> u64) \<Rightarrow> (ptr \<times> reservations) list \<Rightarrow> (nat \<Rightarrow> int) \<Rightarrow>
   (ptr \<times> reservations) list \<times> (nat \<Rightarrow> int) \<times> bool" where
  "sweep_foreign gc [] q = ([], q, False)"
| "sweep_foreign gc ((owner, h) # t) q =
     (case sweep_reservations gc h q of (h, q, any1) \<Rightarrow>
        (case sweep_foreign gc t q of (t, q, any2) \<Rightarrow> ((owner, h) # t, q, any1 \<or> any2)))"

definition jl_engine_sweep :: "(ptr \<Rightarrow> u64) \<Rightarrow> engine \<Rightarrow> engine" where
  "jl_engine_sweep gc e =
     (case sweep_reservations gc (native_reservations e) (engine_nqueued e) of (nat', q, any1) \<Rightarrow>
        (case sweep_foreign gc (foreign_reservations e) q of (fo, q, any2) \<Rightarrow>
           e\<lparr>native_reservations := nat', foreign_reservations := fo, engine_nqueued := q,
             engine_wait := if any1 \<or> any2 then [] else engine_wait e\<rparr>))"

definition jl_engine_fulfill :: "engine_env \<Rightarrow> nat \<Rightarrow> ptr \<Rightarrow> engine \<Rightarrow> engine result" where
  "jl_engine_fulfill V tid ci e =
     (case get_reservation V e (ci_mi V ci) (ci_owner V ci) of
        (e, None) \<Rightarrow> Inr e
      | (e, Some info) \<Rightarrow>
          if res_ci info \<noteq> ci then Inr e
          else rbind (assert_that (tid = res_tid info)) (\<lambda>_.
            let e = e\<lparr>engine_nqueued := (engine_nqueued e)(tid := engine_nqueued e tid - 1)\<rparr>;
                e = remove_reservation V e (ci_mi V ci) (ci_owner V ci)
            in Inr (e\<lparr>engine_wait := []\<rparr>)))"

section \<open>Interleavings\<close>

text \<open>
  The steps of the threads.  A thread that waits takes no other step.  A thread passes to
  \<open>jl_engine_fulfill\<close> only code instances whose lease it holds, or none holds, which is the
  contract the assertion there records.  With \<open>spurious\<close> a waiting thread may resume
  without a broadcast, as a condition variable allows.
\<close>

inductive engine_step :: "engine_env \<Rightarrow> bool \<Rightarrow> engine \<Rightarrow> engine \<Rightarrow> bool"
  for V :: engine_env and spurious :: bool
where
  reserve: "reserving e t = None \<Longrightarrow> ci_mi V ci = key_mi key \<Longrightarrow> ci_owner V ci = key_owner key \<Longrightarrow>
    jl_engine_reserve V t key ci e = Inr (e', r) \<Longrightarrow> engine_step V spurious e e'"
| resume: "reserving e t = Some (key, ci) \<Longrightarrow> spurious \<or> t \<notin> set (engine_wait e) \<Longrightarrow>
    jl_engine_resume V t key ci e = Inr (e', r) \<Longrightarrow> engine_step V spurious e e'"
| fulfill: "reserving e t = None \<Longrightarrow> jl_engine_fulfill V t ci e = Inr e' \<Longrightarrow>
    engine_step V spurious e e'"
| hasreserved: "reserving e t = None \<Longrightarrow> jl_engine_hasreserved V t mi owner e = (e', b) \<Longrightarrow>
    engine_step V spurious e e'"
| sweep: "e' = jl_engine_sweep gc e \<Longrightarrow> engine_step V spurious e e'"

inductive engine_reachable :: "engine_env \<Rightarrow> engine \<Rightarrow> bool" for V :: engine_env where
  init: "engine_reachable V jl_init_engine"
| step: "engine_reachable V e \<Longrightarrow> engine_step V spurious e e' \<Longrightarrow> engine_reachable V e'"

section \<open>The leases\<close>

text \<open>What the maps say: the lease of a key, all the leases, and the wait-for graph.\<close>

definition lease :: "engine_env \<Rightarrow> engine \<Rightarrow> infer_key \<Rightarrow> reservation_info option" where
  "lease V e key = map_of (snd (reservation_map_for_owner V e (key_owner key))) (key_mi key)"

definition leases :: "engine \<Rightarrow> reservation_info list" where
  "leases e = map snd (native_reservations e) @ concat (map (map snd \<circ> snd) (foreign_reservations e))"

definition waits_for :: "engine_env \<Rightarrow> engine \<Rightarrow> (nat \<times> nat) set" where
  "waits_for V e = {(t, res_tid i) | t i k.
     t < length (awaiting e) \<and> awaiting e ! t = Some k \<and> lease V e k = Some i}"

definition held :: "engine \<Rightarrow> nat \<Rightarrow> nat" where
  "held e t = length (filter (\<lambda>i. res_tid i = t) (leases e))"


definition tables_ok :: "engine_env \<Rightarrow> engine \<Rightarrow> bool" where
  "tables_ok V e \<longleftrightarrow> distinct (map fst (native_reservations e)) \<and>
     distinct (map fst (foreign_reservations e)) \<and>
     jl_nothing V \<notin> fst ` set (foreign_reservations e) \<and>
     (\<forall>(ow, h) \<in> set (foreign_reservations e). distinct (map fst h))"

definition held_in :: "reservations \<Rightarrow> nat \<Rightarrow> nat" where
  "held_in h t = length (filter (\<lambda>i. res_tid i = t) (map snd h))"

lemma held_in_simps [simp]:
  "held_in [] t = 0"
  "held_in ((mi, i) # h) t = of_bool (res_tid i = t) + held_in h t"
  by (simp_all add: held_in_def)

text \<open>Two engines that differ at most in empty maps.\<close>

definition same_leases :: "engine_env \<Rightarrow> engine \<Rightarrow> engine \<Rightarrow> bool" where
  "same_leases V e e' \<longleftrightarrow> tables_ok V e' \<and> lease V e' = lease V e \<and> leases e' = leases e \<and>
     awaiting e' = awaiting e \<and> engine_nqueued e' = engine_nqueued e \<and>
     engine_wait e' = engine_wait e \<and> reserving e' = reserving e"

lemma same_leases_refl: "tables_ok V e \<Longrightarrow> same_leases V e e"
  by (simp add: same_leases_def)

lemma same_leases_trans: "same_leases V e e' \<Longrightarrow> same_leases V e' e'' \<Longrightarrow> same_leases V e e''"
  by (simp add: same_leases_def)

lemma same_leases_waits_for: "same_leases V e e' \<Longrightarrow> waits_for V e' = waits_for V e"
  by (simp add: same_leases_def waits_for_def)

lemma lease_alt: "lease V e k =
   (if key_owner k = jl_nothing V then map_of (native_reservations e) (key_mi k)
    else case map_of (foreign_reservations e) (key_owner k) of
           None \<Rightarrow> None | Some h \<Rightarrow> map_of h (key_mi k))"
  by (simp add: lease_def reservation_map_for_owner_def split: option.splits)

lemma lease_cong [simp]:
  "lease V (e\<lparr>awaiting := x\<rparr>) = lease V e"
  "lease V (e\<lparr>engine_nqueued := y\<rparr>) = lease V e"
  "lease V (e\<lparr>engine_wait := z\<rparr>) = lease V e"
  "lease V (e\<lparr>reserving := w\<rparr>) = lease V e"
  by (simp_all add: fun_eq_iff lease_alt)

lemma leases_cong [simp]:
  "leases (e\<lparr>awaiting := x\<rparr>) = leases e"
  "leases (e\<lparr>engine_nqueued := y\<rparr>) = leases e"
  "leases (e\<lparr>engine_wait := z\<rparr>) = leases e"
  "leases (e\<lparr>reserving := w\<rparr>) = leases e"
  by (simp_all add: leases_def)

lemma tables_ok_cong [simp]:
  "tables_ok V (e\<lparr>awaiting := x\<rparr>) = tables_ok V e"
  "tables_ok V (e\<lparr>engine_nqueued := y\<rparr>) = tables_ok V e"
  "tables_ok V (e\<lparr>engine_wait := z\<rparr>) = tables_ok V e"
  "tables_ok V (e\<lparr>reserving := w\<rparr>) = tables_ok V e"
  by (simp_all add: tables_ok_def)

lemma map_for_owner_ok:
  assumes ok: "tables_ok V e" and m: "reservation_map_for_owner V e ow = (e', h)"
  shows "same_leases V e e'" "reservation_map_for_owner V e' ow = (e', h)" "distinct (map fst h)"
    "map_of h mi = lease V e \<lparr>key_mi = mi, key_owner = ow\<rparr>"
proof -
  have "same_leases V e e' \<and> reservation_map_for_owner V e' ow = (e', h) \<and> distinct (map fst h)"
  proof (cases "ow = jl_nothing V")
    case True
    then show ?thesis using ok m by (auto simp: reservation_map_for_owner_def same_leases_def tables_ok_def)
  next
    case ow: False
    show ?thesis
    proof (cases "map_of (foreign_reservations e) ow")
      case (Some h')
      then have "(ow, h') \<in> set (foreign_reservations e)" by (rule map_of_SomeD)
      then show ?thesis using ok m ow Some
        by (auto simp: reservation_map_for_owner_def same_leases_def tables_ok_def)
    next
      case None
      then have fresh: "ow \<notin> fst ` set (foreign_reservations e)" by (simp add: map_of_eq_None_iff)
      have e': "e' = e\<lparr>foreign_reservations := foreign_reservations e @ [(ow, [])]\<rparr>" "h = []"
        using m ow None by (auto simp: reservation_map_for_owner_def)
      have "lease V e' k = lease V e k" for k
        using None by (auto simp: lease_alt e' map_add_def split: option.splits)
      then have "lease V e' = lease V e" by (rule ext)
      then have "same_leases V e e'"
        using ok fresh ow by (auto simp: same_leases_def e' tables_ok_def leases_def)
      moreover have "reservation_map_for_owner V e' ow = (e', h)"
        using None ow by (simp add: e' reservation_map_for_owner_def map_add_def)
      ultimately show ?thesis by (simp add: e')
    qed
  qed
  then show "same_leases V e e'" "reservation_map_for_owner V e' ow = (e', h)" "distinct (map fst h)"
    by auto
  show "map_of h mi = lease V e \<lparr>key_mi = mi, key_owner = ow\<rparr>"
    using m by (simp add: lease_def)
qed

lemma held_alt: "held e t = held_in (native_reservations e) t + (\<Sum>(_, h) \<leftarrow> foreign_reservations e. held_in h t)"
proof -
  have "length (filter (\<lambda>i. res_tid i = t) (concat (map (map snd \<circ> snd) fo))) = (\<Sum>(_, h) \<leftarrow> fo. held_in h t)"
    for fo :: "(ptr \<times> reservations) list"
    by (induction fo) (auto simp: held_in_def)
  then show ?thesis by (simp add: held_def leases_def held_in_def)
qed

lemma held_foreign_update:
  assumes "distinct (map fst fo)" "map_of fo ow = Some h"
  shows "(\<Sum>(_, h) \<leftarrow> map (\<lambda>(o', h'). (o', if o' = ow then h2 else h')) fo. held_in h t) + held_in h t
       = (\<Sum>(_, h) \<leftarrow> fo. held_in h t) + held_in h2 t"
  using assms
proof (induction fo)
  case (Cons p fo)
  obtain o' h' where p: "p = (o', h')" by force
  show ?case
  proof (cases "o' = ow")
    case True
    then have "map (\<lambda>(o', h'). (o', if o' = ow then h2 else h')) fo = fo"
      using Cons.prems p by (force intro!: map_idI)
    then show ?thesis using True Cons.prems p by simp
  next
    case False
    then show ?thesis using Cons p by simp
  qed
qed simp

lemma map_of_update_at:
  "map_of (map (\<lambda>(o', h'). (o', if o' = ow then h2 else h')) fo) k =
     (if k = ow then map_option (\<lambda>_. h2) (map_of fo k) else map_of fo k)"
  by (induction fo) auto

lemma put_map_ok:
  assumes ok: "tables_ok V e" and m: "reservation_map_for_owner V e ow = (e, h)"
    and d: "distinct (map fst h2)"
  defines "e' \<equiv> put_reservation_map V e ow h2"
  shows "tables_ok V e'"
    "lease V e' k = (if key_owner k = ow then map_of h2 (key_mi k) else lease V e k)"
    "held e' t + held_in h t = held e t + held_in h2 t"
    "awaiting e' = awaiting e" "engine_nqueued e' = engine_nqueued e"
    "engine_wait e' = engine_wait e" "reserving e' = reserving e"
proof -
  have *: "tables_ok V e' \<and> lease V e' k = (if key_owner k = ow then map_of h2 (key_mi k) else lease V e k) \<and>
      held e' t + held_in h t = held e t + held_in h2 t"
  proof (cases "ow = jl_nothing V")
    case True
    then show ?thesis using ok m d
      by (auto simp: e'_def put_reservation_map_def reservation_map_for_owner_def tables_ok_def lease_alt held_alt)
  next
    case False
    have h: "map_of (foreign_reservations e) ow = Some h"
    proof (cases "map_of (foreign_reservations e) ow")
      case None
      then have "foreign_reservations e @ [(ow, [])] = foreign_reservations e"
        using m False by (auto simp: reservation_map_for_owner_def dest!: arg_cong [where f = foreign_reservations])
      then show ?thesis by simp
    next
      case (Some h')
      then show ?thesis using m False by (simp add: reservation_map_for_owner_def)
    qed
    have fst_upd: "map fst (foreign_reservations e') = map fst (foreign_reservations e)"
      using False by (auto simp: e'_def put_reservation_map_def)
    have "tables_ok V e'"
    proof -
      have "fst ` set (foreign_reservations e') = fst ` set (foreign_reservations e)"
        using arg_cong [OF fst_upd, of set] by simp
      moreover have "\<forall>(o', h') \<in> set (foreign_reservations e'). distinct (map fst h')"
        using ok d False by (auto simp: tables_ok_def e'_def put_reservation_map_def)
      ultimately show ?thesis
        using ok fst_upd False by (simp add: tables_ok_def) (simp add: e'_def put_reservation_map_def)
    qed
    moreover have "held e' t + held_in h t = held e t + held_in h2 t"
      using held_foreign_update [OF _ h, where ?h2.0 = h2 and t = t] ok False
      by (simp add: held_alt e'_def put_reservation_map_def tables_ok_def)
    moreover have "lease V e' k = (if key_owner k = ow then map_of h2 (key_mi k) else lease V e k)"
      using False h by (simp add: lease_alt e'_def put_reservation_map_def map_of_update_at)
    ultimately show ?thesis by blast
  qed
  then show "tables_ok V e'" "lease V e' k = (if key_owner k = ow then map_of h2 (key_mi k) else lease V e k)"
    "held e' t + held_in h t = held e t + held_in h2 t" by auto
  show "awaiting e' = awaiting e" "engine_nqueued e' = engine_nqueued e"
    "engine_wait e' = engine_wait e" "reserving e' = reserving e"
    by (simp_all add: e'_def put_reservation_map_def)
qed

section \<open>What the operations do to the leases\<close>

lemma infer_key_eta [simp]: "\<lparr>key_mi = key_mi k, key_owner = key_owner k\<rparr> = k"
  by simp

lemma infer_key_eq_iff: "k = k' \<longleftrightarrow> key_mi k = key_mi k' \<and> key_owner k = key_owner (k' :: infer_key)"
  by (auto intro: infer_key.equality)

lemma lease_in_map:
  "reservation_map_for_owner V e ow = (e', h) \<Longrightarrow> key_owner k = ow \<Longrightarrow> lease V e k = map_of h (key_mi k)"
  by (simp add: lease_def)

lemma get_reservation_ok:
  assumes "tables_ok V e"
  obtains e' where "get_reservation V e mi ow = (e', lease V e \<lparr>key_mi = mi, key_owner = ow\<rparr>)"
    "same_leases V e e'"
proof -
  obtain e' h where m: "reservation_map_for_owner V e ow = (e', h)" by force
  show ?thesis
    using that map_for_owner_ok(1) [OF assms m] map_for_owner_ok(4) [OF assms m, where mi = mi] by (simp add: get_reservation_def m)
qed

lemma try_insert_found:
  assumes "tables_ok V e" "lease V e key = Some i"
  obtains e' where "try_insert_reservation V e key new = (e', i, False)" "same_leases V e e'"
proof -
  obtain e' h where m: "reservation_map_for_owner V e (key_owner key) = (e', h)" by force
  show ?thesis
    using that map_for_owner_ok(1) [OF assms(1) m] map_for_owner_ok(4) [OF assms(1) m, where mi = "key_mi key"] assms(2)
    by (simp add: try_insert_reservation_def m)
qed

lemma try_insert_new:
  assumes ok: "tables_ok V e" and new: "lease V e key = None"
  obtains e' where "try_insert_reservation V e key i = (e', i, True)" "tables_ok V e'"
    "lease V e' = (lease V e)(key \<mapsto> i)" "\<And>t. held e' t = held e t + of_bool (res_tid i = t)"
    "awaiting e' = awaiting e" "engine_nqueued e' = engine_nqueued e"
    "engine_wait e' = engine_wait e" "reserving e' = reserving e"
proof -
  obtain e1 h where m: "reservation_map_for_owner V e (key_owner key) = (e1, h)" by force
  note m' = map_for_owner_ok [OF ok m]
  have s: "same_leases V e e1" by (rule m'(1))
  have ok1: "tables_ok V e1" using s by (simp add: same_leases_def)
  have none: "map_of h (key_mi key) = None" using m'(4) [where mi = "key_mi key"] new by simp
  define h2 where "h2 = h @ [(key_mi key, i)]"
  have d: "distinct (map fst h2)"
    using m'(3) none by (simp add: h2_def map_of_eq_None_iff)
  define e' where "e' = put_reservation_map V e1 (key_owner key) h2"
  note p = put_map_ok [OF ok1 m'(2) d, folded e'_def]
  have "lease V e' k = ((lease V e)(key \<mapsto> i)) k" for k
    using p(2) [where k = k] s none lease_in_map [OF m, of k]
    by (auto simp: h2_def same_leases_def infer_key_eq_iff map_add_def split: option.splits)
  then have "lease V e' = (lease V e)(key \<mapsto> i)" by (rule ext)
  moreover have "held e' t = held e t + of_bool (res_tid i = t)" for t
    using p(3) [where t = t] s by (auto simp: h2_def held_in_def held_def same_leases_def)
  ultimately show ?thesis
    using that [of e'] p s none
    by (auto simp: try_insert_reservation_def m e'_def h2_def same_leases_def)
qed

lemma held_in_remove:
  assumes "distinct (map fst h)" "map_of h mi = Some i"
  shows "held_in h t = held_in (filter (\<lambda>(m, _). m \<noteq> mi) h) t + of_bool (res_tid i = t)"
  using assms
proof (induction h)
  case (Cons p h)
  obtain m j where p: "p = (m, j)" by force
  show ?case
  proof (cases "m = mi")
    case True
    then have "filter (\<lambda>(m, _). m \<noteq> mi) h = h" using Cons.prems(1) p
      by (force simp: filter_id_conv)
    then show ?thesis using True Cons.prems p by (auto simp: held_in_def)
  next
    case False
    then show ?thesis using Cons p by (auto simp: held_in_def)
  qed
qed simp

lemma map_of_filter_key: "map_of (filter (\<lambda>(m, _). m \<noteq> mi) h) k = (if k = mi then None else map_of h k)"
  by (induction h) auto

lemma distinct_fst_filter: "distinct (map fst h) \<Longrightarrow> distinct (map fst (filter P h))"
  by (induction h) auto

lemma remove_reservation_ok:
  assumes ok: "tables_ok V e" and l: "lease V e key = Some i"
  defines "e' \<equiv> remove_reservation V e (key_mi key) (key_owner key)"
  shows "tables_ok V e'" "lease V e' = (lease V e)(key := None)"
    "held e t = held e' t + of_bool (res_tid i = t)"
    "awaiting e' = awaiting e" "engine_nqueued e' = engine_nqueued e"
    "engine_wait e' = engine_wait e" "reserving e' = reserving e"
proof -
  obtain e1 h where m: "reservation_map_for_owner V e (key_owner key) = (e1, h)" by force
  note m' = map_for_owner_ok [OF ok m]
  have s: "same_leases V e e1" by (rule m'(1))
  have ok1: "tables_ok V e1" using s by (simp add: same_leases_def)
  have found: "map_of h (key_mi key) = Some i" using m'(4) [where mi = "key_mi key"] l by simp
  define h2 where "h2 = filter (\<lambda>(m, _). m \<noteq> key_mi key) h"
  have d: "distinct (map fst h2)"
    using m'(3) by (simp add: h2_def distinct_fst_filter)
  have e': "e' = put_reservation_map V e1 (key_owner key) h2"
    by (simp add: e'_def remove_reservation_def m h2_def)
  note p = put_map_ok [OF ok1 m'(2) d, folded e']
  show "tables_ok V e'" by (rule p(1))
  have "lease V e' k = ((lease V e)(key := None)) k" for k
    using p(2) [where k = k] s lease_in_map [OF m, of k]
    by (auto simp: h2_def same_leases_def infer_key_eq_iff map_of_filter_key)
  then show "lease V e' = (lease V e)(key := None)" by (rule ext)
  show "held e t = held e' t + of_bool (res_tid i = t)"
    using p(3) [where t = t] s held_in_remove [OF m'(3) found, where t = t]
    by (simp add: h2_def held_def same_leases_def)
  show "awaiting e' = awaiting e" "engine_nqueued e' = engine_nqueued e"
    "engine_wait e' = engine_wait e" "reserving e' = reserving e"
    using p(4-7) s by (simp_all add: same_leases_def)
qed

text \<open>The sweep keeps exactly the leases whose code instance is marked.\<close>

abbreviation kept :: "(ptr \<Rightarrow> u64) \<Rightarrow> reservation_info \<Rightarrow> bool" where
  "kept gc i \<equiv> gc_marked (gc (res_ci i))"

lemma sweep_reservations_ok:
  "sweep_reservations gc h q = (h', q', any) \<Longrightarrow> h' = filter (\<lambda>(_, i). kept gc i) h"
  "sweep_reservations gc h q = (h', q', any) \<Longrightarrow> q' t + int (held_in h t) = q t + int (held_in h' t)"
  "sweep_reservations gc h q = (h', q', any) \<Longrightarrow> \<not> any \<Longrightarrow> h' = h"
proof (induction gc h q arbitrary: h' q' any rule: sweep_reservations.induct)
  case (2 gc mi info h q)
  {
    case 1
    then show ?case using 2(1,4) by (fastforce split: if_splits prod.splits)
  next
    case 2
    then show ?case using "2.IH"(2,5) by (fastforce split: if_splits prod.splits)
  next
    case 3
    then show ?case using "2.IH"(3,6) by (fastforce split: if_splits prod.splits)
  }
qed auto

lemma sweep_foreign_ok:
  "sweep_foreign gc fo q = (fo', q', any) \<Longrightarrow> fo' = map (\<lambda>(ow, h). (ow, filter (\<lambda>(_, i). kept gc i) h)) fo"
  "sweep_foreign gc fo q = (fo', q', any) \<Longrightarrow>
     q' t + int (\<Sum>(_, h) \<leftarrow> fo. held_in h t) = q t + int (\<Sum>(_, h) \<leftarrow> fo'. held_in h t)"
  "sweep_foreign gc fo q = (fo', q', any) \<Longrightarrow> \<not> any \<Longrightarrow> fo' = fo"
proof (induction gc fo q arbitrary: fo' q' any rule: sweep_foreign.induct)
  case (2 gc ow h fo q)
  {
    case 1
    then show ?case using 2(1) sweep_reservations_ok(1) by (fastforce split: prod.splits)
  next
    case 2
    then obtain h1 q1 a1 fo2 q2 a2 where r: "sweep_reservations gc h q = (h1, q1, a1)"
        "sweep_foreign gc fo q1 = (fo2, q2, a2)" "fo' = (ow, h1) # fo2" "q' = q2"
      by (auto split: prod.splits)
    show ?case
      using sweep_reservations_ok(2) [OF r(1), where t = t] "2.IH"(2) [OF r(1) [symmetric] refl r(2)] r(3,4)
      by simp
  next
    case 3
    then show ?case using "2.IH"(3) sweep_reservations_ok(3) by (fastforce split: prod.splits)
  }
qed auto

lemma map_of_filter_val:
  "distinct (map fst h) \<Longrightarrow> map_of (filter (\<lambda>(_, i). P i) h) k =
     (case map_of h k of Some i \<Rightarrow> if P i then Some i else None | None \<Rightarrow> None)"
  by (induction h) (auto simp: map_of_eq_None_iff split: option.splits dest: map_of_SomeD)

lemma map_of_map_snd: "map_of (map (\<lambda>(k, v). (k, f v)) xs) k = map_option f (map_of xs k)"
  by (induction xs) auto

lemma sweep_ok:
  fixes gc :: "ptr \<Rightarrow> u64"
  assumes ok: "tables_ok V e"
  defines "e' \<equiv> jl_engine_sweep gc e"
  shows "tables_ok V e'"
    "lease V e' k = (case lease V e k of Some i \<Rightarrow> if kept gc i then Some i else None | None \<Rightarrow> None)"
    "engine_nqueued e' t + int (held e t) = engine_nqueued e t + int (held e' t)"
    "awaiting e' = awaiting e" "reserving e' = reserving e"
    "engine_wait e' = [] \<or> (engine_wait e' = engine_wait e \<and> lease V e' = lease V e)"
proof -
  obtain n1 q1 a1 where r1: "sweep_reservations gc (native_reservations e) (engine_nqueued e) = (n1, q1, a1)"
    by (metis prod_cases3)
  obtain fo2 q2 a2 where r2: "sweep_foreign gc (foreign_reservations e) q1 = (fo2, q2, a2)"
    by (metis prod_cases3)
  have e': "e' = e\<lparr>native_reservations := n1, foreign_reservations := fo2, engine_nqueued := q2,
      engine_wait := if a1 \<or> a2 then [] else engine_wait e\<rparr>"
    by (simp add: e'_def jl_engine_sweep_def r1 r2)
  note s1 = sweep_reservations_ok [OF r1] and s2 = sweep_foreign_ok [OF r2]
  have fst_fo: "map fst fo2 = map fst (foreign_reservations e)" using s2 by auto
  have "fst ` set fo2 = fst ` set (foreign_reservations e)"
    using arg_cong [OF fst_fo, of set] by simp
  moreover have "\<forall>(o', h') \<in> set fo2. distinct (map fst h')"
    using ok s2 by (auto simp: tables_ok_def distinct_fst_filter)
  ultimately show "tables_ok V e'"
    using ok s1 fst_fo by (simp add: e' tables_ok_def distinct_fst_filter)
  have d: "distinct (map fst h)" if "map_of (foreign_reservations e) ow = Some h" for ow h
    using ok map_of_SomeD [OF that] by (auto simp: tables_ok_def)
  show l: "lease V e' k = (case lease V e k of Some i \<Rightarrow> if kept gc i then Some i else None | None \<Rightarrow> None)" for k
    using ok s1 s2 by (auto simp: lease_alt e' tables_ok_def map_of_filter_val map_of_map_snd d split: option.splits)
  show "engine_nqueued e' t + int (held e t) = engine_nqueued e t + int (held e' t)"
    using s1(2) [of t] s2(2) [of t]
    by (simp add: e' held_alt)
  show "awaiting e' = awaiting e" "reserving e' = reserving e" by (simp_all add: e')
  show "engine_wait e' = [] \<or> (engine_wait e' = engine_wait e \<and> lease V e' = lease V e)"
  proof (cases "a1 \<or> a2")
    case False
    then have "n1 = native_reservations e" "fo2 = foreign_reservations e" using s1 s2 by auto
    then have "lease V e' = lease V e" by (simp add: fun_eq_iff lease_alt e')
    then show ?thesis using False by (simp add: e')
  qed (simp add: e')
qed

section \<open>Cycle detection\<close>

lemma finite_waits_for: "finite (waits_for V e)"
proof (rule finite_subset)
  show "waits_for V e \<subseteq> (\<lambda>t. (t, res_tid (the (lease V e (the (awaiting e ! t)))))) ` {..< length (awaiting e)}"
    by (auto simp: waits_for_def)
qed simp

lemma detect_cycle_correct:
  assumes ok: "tables_ok V e" and acyc: "acyclic (waits_for V e)" and s: "same_leases V e e1"
  shows "\<exists>e'. detect_cycle V tid e1 w = Some (Inr (e', (w, tid) \<in> (waits_for V e)\<^sup>*)) \<and> same_leases V e e'"
  using s
proof (induction w arbitrary: e1 rule: wf_induct_rule [OF finite_acyclic_wf_converse [OF finite_waits_for [of V e] acyc]])
  case (1 w)
  have sw: "awaiting e1 = awaiting e" "lease V e1 = lease V e" "tables_ok V e1"
    using 1(2) by (simp_all add: same_leases_def)
  have stop: "(w, tid) \<notin> (waits_for V e)\<^sup>*" if "w \<noteq> tid" "\<forall>u. (w, u) \<notin> waits_for V e"
    using that by (metis converse_rtranclE)
  show ?case
  proof (cases "w = tid \<or> length (awaiting e) \<le> w \<or> awaiting e ! w = None")
    case True
    then show ?thesis using stop 1(2) sw(1)
      by (subst detect_cycle.simps) (auto simp: waits_for_def)
  next
    case False
    then obtain k where k: "awaiting e ! w = Some k" "w < length (awaiting e)" "w \<noteq> tid" by auto
    obtain e2 where e2: "get_reservation V e1 (key_mi k) (key_owner k) = (e2, lease V e k)"
        "same_leases V e1 e2"
      using get_reservation_ok [OF sw(3), of "key_mi k" "key_owner k"] sw(2) by auto
    have s2: "same_leases V e e2" using 1(2) e2(2) by (rule same_leases_trans)
    show ?thesis
    proof (cases "lease V e k")
      case None
      then show ?thesis using stop k e2(1) s2 sw(1)
        by (subst detect_cycle.simps) (auto simp: waits_for_def)
    next
      case (Some i)
      have edge: "(w, res_tid i) \<in> waits_for V e" using k Some by (auto simp: waits_for_def)
      then have "w \<noteq> res_tid i" using acyc by (metis acyclic_def r_into_trancl)
      moreover have "(w, tid) \<in> (waits_for V e)\<^sup>* \<longleftrightarrow> (res_tid i, tid) \<in> (waits_for V e)\<^sup>*"
      proof
        assume "(w, tid) \<in> (waits_for V e)\<^sup>*"
        then show "(res_tid i, tid) \<in> (waits_for V e)\<^sup>*"
          using k Some by (cases rule: converse_rtranclE) (auto simp: waits_for_def)
      qed (use edge in \<open>meson converse_rtrancl_into_rtrancl\<close>)
      ultimately show ?thesis
        using 1(1) [of "res_tid i" e2] edge s2 k e2(1) Some sw(1)
        by (subst detect_cycle.simps) auto
    qed
  qed
qed

section \<open>The invariant\<close>

text \<open>\<open>extra\<close> counts the calls of a thread that have entered \<open>jl_engine_reserve\<close> and neither
  hold their lease nor wait for it; it is zero between two steps.\<close>

definition engine_inv :: "engine_env \<Rightarrow> (nat \<Rightarrow> int) \<Rightarrow> engine \<Rightarrow> bool" where
  "engine_inv V extra e \<longleftrightarrow>
     tables_ok V e \<and> acyclic (waits_for V e) \<and>
     (\<forall>t k ci. reserving e t = Some (k, ci) \<longrightarrow> t < length (awaiting e) \<and> awaiting e ! t = Some k \<and>
        ci_mi V ci = key_mi k \<and> ci_owner V ci = key_owner k) \<and>
     (\<forall>t k. t < length (awaiting e) \<longrightarrow> awaiting e ! t = Some k \<longrightarrow> reserving e t \<noteq> None) \<and>
     (\<forall>t. t \<in> set (engine_wait e) \<longrightarrow> (\<exists>k ci i. reserving e t = Some (k, ci) \<and> lease V e k = Some i)) \<and>
     (\<forall>k i. lease V e k = Some i \<longrightarrow> ci_mi V (res_ci i) = key_mi k \<and> ci_owner V (res_ci i) = key_owner k) \<and>
     (\<forall>t. engine_nqueued e t = int (held e t) + of_bool (reserving e t \<noteq> None) + extra t)"

abbreviation engine_ok :: "engine_env \<Rightarrow> engine \<Rightarrow> bool" where
  "engine_ok V e \<equiv> engine_inv V (\<lambda>_. 0) e"

lemma engine_inv_same: "engine_inv V x e \<Longrightarrow> same_leases V e e' \<Longrightarrow> engine_inv V x e'"
  by (simp add: engine_inv_def same_leases_waits_for) (simp add: same_leases_def held_def)

lemma acyclic_into_sink:
  assumes "acyclic r" "\<And>u. (t, u) \<notin> r" "t \<notin> A"
  shows "acyclic (r \<union> A \<times> {t})"
proof -
  have *: "(x, y) \<in> r\<^sup>+ \<or> y = t" if "(x, y) \<in> (r \<union> A \<times> {t})\<^sup>+" for x y
    using that by (induction rule: trancl_induct) (use assms in \<open>auto intro: trancl_into_trancl\<close>)
  have "(t, u) \<notin> (r \<union> A \<times> {t})\<^sup>+" for u
    using assms by (auto dest: tranclD)
  then show ?thesis using * assms(1) by (metis acyclic_def)
qed

lemma waits_for_block:
  assumes "t < length (awaiting e)" "lease V e k = Some i"
  shows "waits_for V (e\<lparr>awaiting := (awaiting e)[t := Some k], engine_wait := w, reserving := m\<rparr>) \<subseteq>
     insert (t, res_tid i) (waits_for V e)"
  using assms by (auto simp: waits_for_def nth_list_update split: if_splits)

lemma reserve_attempt_ok:
  assumes inv: "engine_inv V ((\<lambda>_. 0)(t := 1)) e" and t: "reserving e t = None" "t < length (awaiting e)"
    and ci: "ci_mi V ci = key_mi key" "ci_owner V ci = key_owner key"
  shows "\<exists>e' r. reserve_attempt V t key ci e = Inr (e', r) \<and> engine_ok V e' \<and>
     (case r of
        Reserved \<Rightarrow> lease V e key = None \<and> lease V e' = (lease V e)(key \<mapsto> \<lparr>res_tid = t, res_ci = ci\<rparr>) \<and>
          reserving e' = reserving e
      | Cyclic \<Rightarrow> lease V e' = lease V e \<and> reserving e' = reserving e \<and>
          (\<exists>i. lease V e key = Some i \<and> (res_tid i, t) \<in> (waits_for V e)\<^sup>*)
      | Blocked \<Rightarrow> lease V e' = lease V e \<and> reserving e' = (reserving e)(t \<mapsto> (key, ci)) \<and>
          (\<exists>i. lease V e key = Some i \<and> (res_tid i, t) \<notin> (waits_for V e)\<^sup>*))"
proof -
  have ok: "tables_ok V e" and acyc: "acyclic (waits_for V e)" using inv by (simp_all add: engine_inv_def)
  have aw: "awaiting e ! t = None" using inv t by (auto simp: engine_inv_def)
  show ?thesis
  proof (cases "lease V e key")
    case None
    obtain e' where e': "try_insert_reservation V e key \<lparr>res_tid = t, res_ci = ci\<rparr> = (e', \<lparr>res_tid = t, res_ci = ci\<rparr>, True)"
        "tables_ok V e'" "lease V e' = (lease V e)(key \<mapsto> \<lparr>res_tid = t, res_ci = ci\<rparr>)"
        "\<And>u. held e' u = held e u + of_bool (t = u)"
        "awaiting e' = awaiting e" "engine_nqueued e' = engine_nqueued e"
        "engine_wait e' = engine_wait e" "reserving e' = reserving e"
      using try_insert_new [OF ok None, of "\<lparr>res_tid = t, res_ci = ci\<rparr>"] by auto
    have "acyclic (waits_for V e \<union> (- {t}) \<times> {t})"
      using acyc aw by (intro acyclic_into_sink) (auto simp: waits_for_def)
    moreover have "waits_for V e' \<subseteq> waits_for V e \<union> (- {t}) \<times> {t}"
      using aw by (auto simp: waits_for_def e'(3,5) split: if_splits)
    ultimately have "acyclic (waits_for V e')" by (rule acyclic_subset)
    then have "engine_ok V e'" using inv t ci e' by (auto simp: engine_inv_def) metis
    then show ?thesis using None e' by (auto simp: reserve_attempt_def)
  next
    case (Some i)
    obtain e1 where e1: "try_insert_reservation V e key \<lparr>res_tid = t, res_ci = ci\<rparr> = (e1, i, False)"
        "same_leases V e e1"
      using try_insert_found [OF ok Some] by metis
    obtain e2 where e2: "detect_cycle V t e1 (res_tid i) = Some (Inr (e2, (res_tid i, t) \<in> (waits_for V e)\<^sup>*))"
        "same_leases V e e2"
      using detect_cycle_correct [OF ok acyc e1(2)] by metis
    have inv2: "engine_inv V ((\<lambda>_. 0)(t := 1)) e2" using engine_inv_same [OF inv e2(2)] .
    have same: "lease V e2 = lease V e" "reserving e2 = reserving e" "awaiting e2 = awaiting e"
      using e2(2) by (simp_all add: same_leases_def)
    show ?thesis
    proof (cases "(res_tid i, t) \<in> (waits_for V e)\<^sup>*")
      case True
      define e3 where "e3 = e2\<lparr>engine_nqueued := (engine_nqueued e2)(t := engine_nqueued e2 t - 1)\<rparr>"
      have "waits_for V e3 = waits_for V e2" by (simp add: e3_def waits_for_def)
      then have "engine_ok V e3"
        using inv2 by (auto simp: engine_inv_def e3_def held_def)
      then show ?thesis using e1 e2 True Some same by (auto simp: reserve_attempt_def e3_def)
    next
      case False
      define e3 where "e3 = e2\<lparr>awaiting := (awaiting e2)[t := Some key],
          engine_wait := t # engine_wait e2, reserving := (reserving e2)(t \<mapsto> (key, ci))\<rparr>"
      have "waits_for V e3 \<subseteq> insert (t, res_tid i) (waits_for V e2)"
        unfolding e3_def using t same Some by (intro waits_for_block) auto
      moreover have "acyclic (insert (t, res_tid i) (waits_for V e2))"
        using False acyc same_leases_waits_for [OF e2(2)] by (simp add: acyclic_insert)
      ultimately have "acyclic (waits_for V e3)" by (rule acyclic_subset [rotated])
      then have "engine_ok V e3"
        using inv2 t ci Some same by (auto simp: engine_inv_def e3_def held_def nth_list_update)
      then show ?thesis using e1 e2 False Some same t by (auto simp: reserve_attempt_def e3_def)
    qed
  qed
qed

section \<open>Every step keeps the invariant\<close>

lemma init_ok: "engine_ok V jl_init_engine"
  by (simp add: engine_inv_def jl_init_engine_def tables_ok_def waits_for_def lease_alt acyclic_def held_alt)

lemma waits_for_subset:
  assumes "awaiting e' = awaiting e" "\<And>k i. lease V e' k = Some i \<Longrightarrow> lease V e k = Some i"
  shows "waits_for V e' \<subseteq> waits_for V e"
  using assms by (auto simp: waits_for_def)

lemma grow_ok:
  assumes "engine_ok V e" "reserving e t = None"
  defines "e' \<equiv> grow_awaiting t (e\<lparr>engine_nqueued := (engine_nqueued e)(t := engine_nqueued e t + 1)\<rparr>)"
  shows "engine_inv V ((\<lambda>_. 0)(t := 1)) e'" "reserving e' t = None" "t < length (awaiting e')"
    "lease V e' = lease V e" "reserving e' = reserving e" "waits_for V e' = waits_for V e"
proof -
  show "waits_for V e' = waits_for V e"
    by (auto simp: e'_def grow_awaiting_def waits_for_def Let_def nth_append split: if_splits)
  then show "engine_inv V ((\<lambda>_. 0)(t := 1)) e'"
    using assms(1,2)
    by (auto simp: engine_inv_def e'_def grow_awaiting_def Let_def nth_append held_def split: if_splits)
      (meson less_trans not_less_eq)
qed (use assms in \<open>auto simp: grow_awaiting_def Let_def\<close>)

lemma resume_pre_ok:
  assumes inv: "engine_ok V e" and r: "reserving e t = Some (key, ci)"
  defines "e' \<equiv> e\<lparr>awaiting := (awaiting e)[t := None],
     engine_wait := filter (\<lambda>u. u \<noteq> t) (engine_wait e), reserving := (reserving e)(t := None)\<rparr>"
  shows "engine_inv V ((\<lambda>_. 0)(t := 1)) e'" "t < length (awaiting e)"
    "waits_for V e' \<subseteq> waits_for V e"
proof -
  show lt: "t < length (awaiting e)" using inv r by (auto simp: engine_inv_def)
  show sub: "waits_for V e' \<subseteq> waits_for V e"
    using lt by (auto simp: e'_def waits_for_def nth_list_update split: if_splits)
  then have "acyclic (waits_for V e')" using inv by (auto simp: engine_inv_def intro: acyclic_subset)
  then show "engine_inv V ((\<lambda>_. 0)(t := 1)) e'"
    using inv r lt by (auto simp: engine_inv_def e'_def held_def nth_list_update)
qed

lemma jl_engine_reserve_ok:
  assumes "engine_ok V e" "reserving e t = None" "ci_mi V ci = key_mi key" "ci_owner V ci = key_owner key"
  shows "\<exists>e' r. jl_engine_reserve V t key ci e = Inr (e', r) \<and> engine_ok V e' \<and>
     (case r of
        Reserved \<Rightarrow> lease V e key = None \<and> lease V e' = (lease V e)(key \<mapsto> \<lparr>res_tid = t, res_ci = ci\<rparr>) \<and>
          reserving e' = reserving e
      | Cyclic \<Rightarrow> lease V e' = lease V e \<and> reserving e' = reserving e \<and>
          (\<exists>i. lease V e key = Some i \<and> (res_tid i, t) \<in> (waits_for V e)\<^sup>*)
      | Blocked \<Rightarrow> lease V e' = lease V e \<and> reserving e' = (reserving e)(t \<mapsto> (key, ci)) \<and>
          (\<exists>i. lease V e key = Some i \<and> (res_tid i, t) \<notin> (waits_for V e)\<^sup>*))"
  using reserve_attempt_ok [OF grow_ok(1-3) [OF assms(1,2)] assms(3,4)]
  unfolding grow_ok(4-6) [OF assms(1,2)] jl_engine_reserve_def Let_def .

lemma jl_engine_resume_ok:
  assumes inv: "engine_ok V e" and r: "reserving e t = Some (key, ci)"
  shows "\<exists>e' r. jl_engine_resume V t key ci e = Inr (e', r) \<and> engine_ok V e' \<and>
     (lease V e key = None \<longrightarrow> r = Reserved \<and> reserving e' = (reserving e)(t := None))"
proof -
  have ci: "ci_mi V ci = key_mi key" "ci_owner V ci = key_owner key"
    using inv r by (auto simp: engine_inv_def)
  note p = resume_pre_ok [OF inv r]
  show ?thesis
    using reserve_attempt_ok [OF p(1) _ _ ci] p(2)
    by (fastforce simp: jl_engine_resume_def split: reserve_outcome.split_asm)
qed

lemma jl_engine_fulfill_ok:
  assumes inv: "engine_ok V e" and f: "jl_engine_fulfill V t ci e = Inr e'"
  shows "engine_ok V e'"
proof -
  let ?k = "\<lparr>key_mi = ci_mi V ci, key_owner = ci_owner V ci\<rparr>"
  obtain e1 where e1: "get_reservation V e (ci_mi V ci) (ci_owner V ci) = (e1, lease V e ?k)" "same_leases V e e1"
    using get_reservation_ok inv by (metis engine_inv_def)
  have inv1: "engine_ok V e1" using engine_inv_same [OF inv e1(2)] .
  show ?thesis
  proof (cases "\<exists>i. lease V e ?k = Some i \<and> res_ci i = ci")
    case False
    then show ?thesis using f e1 inv1 by (auto simp: jl_engine_fulfill_def split: option.splits)
  next
    case True
    then obtain i where i: "lease V e ?k = Some i" "res_ci i = ci" by blast
    define e2 where "e2 = e1\<lparr>engine_nqueued := (engine_nqueued e1)(t := engine_nqueued e1 t - 1)\<rparr>"
    have t: "t = res_tid i" and e': "e' = (remove_reservation V e2 (ci_mi V ci) (ci_owner V ci))\<lparr>engine_wait := []\<rparr>"
      using f e1 i by (auto simp: jl_engine_fulfill_def e2_def Let_def assert_that_def split: if_splits)
    have ok2: "tables_ok V e2" "lease V e2 ?k = Some i"
      using inv1 e1(2) i by (auto simp: e2_def engine_inv_def same_leases_def)
    note rem = remove_reservation_ok [OF ok2, simplified infer_key.simps]
    define e3 where "e3 = remove_reservation V e2 (ci_mi V ci) (ci_owner V ci)"
    note rem = rem [folded e3_def] and e' = e' [folded e3_def]
    have e2: "awaiting e2 = awaiting e1" "reserving e2 = reserving e1" "lease V e2 = lease V e1"
      "\<And>u. held e2 u = held e1 u"
      "engine_nqueued e2 = (engine_nqueued e1)(t := engine_nqueued e1 t - 1)"
      by (simp_all add: e2_def held_def)
    have "waits_for V e' \<subseteq> waits_for V e1"
      by (rule waits_for_subset) (auto simp: e' rem e2 split: if_splits)
    then have "acyclic (waits_for V e')" using inv1 by (auto simp: engine_inv_def intro: acyclic_subset)
    moreover have "held e' u = held e3 u" for u by (simp add: e' held_def)
    moreover have "held e1 u = held e3 u + of_bool (t = u)" for u using rem(3) [of u] e2(4) t by simp
    ultimately show ?thesis
      using inv1 by (auto simp: engine_inv_def e' rem e2 split: if_splits)
  qed
qed

lemma jl_engine_sweep_ok:
  assumes inv: "engine_ok V e"
  shows "engine_ok V (jl_engine_sweep gc e)"
proof -
  have ok: "tables_ok V e" using inv by (simp add: engine_inv_def)
  note s = sweep_ok [OF ok, of gc]
  have sub: "lease V e k = Some i" if "lease V (jl_engine_sweep gc e) k = Some i" for k i
    using that s(2) [of k] by (auto split: option.splits if_splits)
  have "waits_for V (jl_engine_sweep gc e) \<subseteq> waits_for V e"
    by (rule waits_for_subset) (auto simp: s(4) intro: sub)
  then have "acyclic (waits_for V (jl_engine_sweep gc e))"
    using inv by (auto simp: engine_inv_def intro: acyclic_subset)
  moreover have "engine_nqueued (jl_engine_sweep gc e) t =
      int (held (jl_engine_sweep gc e) t) + of_bool (reserving e t \<noteq> None)" for t
    using s(3) [of t] inv by (simp add: engine_inv_def)
  moreover have "\<exists>k ci i. reserving e t = Some (k, ci) \<and> lease V (jl_engine_sweep gc e) k = Some i"
    if "t \<in> set (engine_wait (jl_engine_sweep gc e))" for t
    using s(6) that inv by (auto simp: engine_inv_def)
  ultimately show ?thesis
    using inv s(1,4,5) sub by (auto simp: engine_inv_def)
qed

lemma engine_step_ok: "engine_step V sp e e' \<Longrightarrow> engine_ok V e \<Longrightarrow> engine_ok V e'"
proof (induction rule: engine_step.induct)
  case (reserve e t ci key e' r)
  then show ?case using jl_engine_reserve_ok [of V e t ci key] by auto
next
  case (resume e t key ci e' r)
  then show ?case using jl_engine_resume_ok [of V e t key ci] by auto
next
  case (fulfill e t ci e')
  then show ?case by (blast intro: jl_engine_fulfill_ok)
next
  case (hasreserved e t mi owner e' b)
  obtain e1 where "get_reservation V e mi owner = (e1, lease V e \<lparr>key_mi = mi, key_owner = owner\<rparr>)"
      "same_leases V e e1"
    using hasreserved get_reservation_ok by (metis engine_inv_def)
  then show ?case using hasreserved
    by (auto simp: jl_engine_hasreserved_def intro: engine_inv_same split: option.splits)
next
  case (sweep e' gc e)
  then show ?case by (simp add: jl_engine_sweep_ok)
qed

lemma reachable_ok: "engine_reachable V e \<Longrightarrow> engine_ok V e"
  by (induction rule: engine_reachable.induct) (auto intro: init_ok engine_step_ok)

section \<open>Progress\<close>

lemma fulfill_own_lease:
  assumes inv: "engine_ok V e" and l: "lease V e k = Some i"
  shows "\<exists>e'. jl_engine_fulfill V (res_tid i) (res_ci i) e = Inr e' \<and>
     lease V e' = (lease V e)(k := None) \<and> reserving e' = reserving e \<and> engine_wait e' = []"
proof -
  have k: "\<lparr>key_mi = ci_mi V (res_ci i), key_owner = ci_owner V (res_ci i)\<rparr> = k"
    using inv l by (auto simp: engine_inv_def infer_key_eq_iff)
  obtain e1 where e1: "get_reservation V e (ci_mi V (res_ci i)) (ci_owner V (res_ci i)) = (e1, Some i)"
      "same_leases V e e1"
    using get_reservation_ok [of V e "ci_mi V (res_ci i)" "ci_owner V (res_ci i)"] inv k l
    by (metis engine_inv_def)
  define e2 where "e2 = e1\<lparr>engine_nqueued := (engine_nqueued e1)(res_tid i := engine_nqueued e1 (res_tid i) - 1)\<rparr>"
  have "tables_ok V e2" "lease V e2 k = Some i"
    using e1(2) l by (auto simp: e2_def same_leases_def)
  from remove_reservation_ok [OF this] e1 k show ?thesis
    by (auto simp: jl_engine_fulfill_def e2_def [symmetric] Let_def same_leases_def)
      (auto simp: e2_def infer_key_eq_iff)
qed

text \<open>Some waiting thread waits for a lease that is gone or whose holder does not wait.\<close>

lemma unblocked_holder:
  assumes inv: "engine_ok V e" and b: "reserving e t \<noteq> None"
  obtains t' k ci where "reserving e t' = Some (k, ci)"
    "\<And>i. lease V e k = Some i \<Longrightarrow> reserving e (res_tid i) = None"
proof -
  have "wf ((waits_for V e)\<inverse>)"
    using inv finite_waits_for by (auto simp: engine_inv_def intro: finite_acyclic_wf_converse)
  then obtain t' where t': "reserving e t' \<noteq> None" "\<And>u. (t', u) \<in> waits_for V e \<Longrightarrow> reserving e u = None"
    using b wfE_min [of "(waits_for V e)\<inverse>" t "{t. reserving e t \<noteq> None}"]
    by (metis (mono_tags, lifting) converse_iff mem_Collect_eq)
  obtain k ci where k: "reserving e t' = Some (k, ci)" using t'(1) by auto
  then have "t' < length (awaiting e)" "awaiting e ! t' = Some k"
    using inv by (auto simp: engine_inv_def)
  then show ?thesis using that [OF k] t'(2) by (auto simp: waits_for_def)
qed

lemma resume_when_free:
  assumes "engine_ok V e" "reserving e t = Some (k, ci)" "lease V e k = None"
  shows "\<exists>e'. engine_step V False e e' \<and> reserving e' = (reserving e)(t := None)"
proof -
  have "t \<notin> set (engine_wait e)" using assms by (fastforce simp: engine_inv_def)
  then show ?thesis
    using jl_engine_resume_ok [OF assms(1,2)] assms(2,3) engine_step.resume [of e t k ci False V] by auto
qed

lemma one_returns:
  assumes inv: "engine_ok V e" and b: "reserving e t \<noteq> None"
  shows "\<exists>e' t'. (engine_step V False)\<^sup>*\<^sup>* e e' \<and> reserving e t' \<noteq> None \<and> reserving e' = (reserving e)(t' := None)"
proof -
  obtain t' k ci where t': "reserving e t' = Some (k, ci)"
    "\<And>i. lease V e k = Some i \<Longrightarrow> reserving e (res_tid i) = None"
    using unblocked_holder [OF inv b] by metis
  show ?thesis
  proof (cases "lease V e k")
    case None
    then show ?thesis using resume_when_free [OF inv t'(1)] t'(1) by blast
  next
    case (Some i)
    obtain e1 where e1: "jl_engine_fulfill V (res_tid i) (res_ci i) e = Inr e1"
        "lease V e1 = (lease V e)(k := None)" "reserving e1 = reserving e"
      using fulfill_own_lease [OF inv Some] by blast
    have st: "engine_step V False e e1" using t'(2) [OF Some] e1(1) by (rule engine_step.fulfill)
    then obtain e2 where "engine_step V False e1 e2" "reserving e2 = (reserving e1)(t' := None)"
      using resume_when_free [of V e1 t' k ci] engine_step_ok inv e1 t'(1) by (metis fun_upd_same)
    then show ?thesis using st t'(1) e1(3) by (metis option.distinct(1) converse_rtranclp_into_rtranclp r_into_rtranclp)
  qed
qed

lemma steps_ok: "(engine_step V sp)\<^sup>*\<^sup>* e e' \<Longrightarrow> engine_ok V e \<Longrightarrow> engine_ok V e'"
  by (induction rule: rtranclp_induct) (auto intro: engine_step_ok)

lemma all_return:
  assumes "engine_ok V e"
  shows "\<exists>e'. (engine_step V False)\<^sup>*\<^sup>* e e' \<and> reserving e' = (\<lambda>_. None)"
  using assms
proof (induction "card (dom (reserving e))" arbitrary: e rule: less_induct)
  case less
  have "dom (reserving e) \<subseteq> {..< length (awaiting e)}"
    using less.prems by (auto simp: engine_inv_def)
  then have fin: "finite (dom (reserving e))" by (rule finite_subset) simp
  show ?case
  proof (cases "\<exists>t. reserving e t \<noteq> None")
    case True
    then obtain e' t' where e': "(engine_step V False)\<^sup>*\<^sup>* e e'" "reserving e t' \<noteq> None"
        "reserving e' = (reserving e)(t' := None)"
      using one_returns [OF less.prems] by blast
    then have "card (dom (reserving e')) < card (dom (reserving e))"
      using fin by (intro psubset_card_mono) (auto simp: dom_def)
    then show ?thesis using less.hyps [OF _ steps_ok [OF e'(1) less.prems]] e'(1)
      by (meson rtranclp_trans)
  next
    case False
    then have "reserving e = (\<lambda>_. None)" by blast
    then show ?thesis by blast
  qed
qed

section \<open>Properties\<close>

text \<open>A sample state: thread 0 holds the lease that thread 1 waits for.\<close>

definition sample_env :: engine_env where
  "sample_env = \<lparr>jl_nothing = 8, ci_mi = (\<lambda>_. 16), ci_owner = (\<lambda>_. 8)\<rparr>"

definition sample_key :: infer_key where
  "sample_key = \<lparr>key_mi = 16, key_owner = 8\<rparr>"

definition sample_wait :: engine where
  "sample_wait = \<lparr>native_reservations = [(16, \<lparr>res_tid = 0, res_ci = 100\<rparr>)], foreign_reservations = [],
     awaiting = [None, Some sample_key], engine_nqueued = (\<lambda>_. 0)(0 := 1, 1 := 1), engine_wait = [1],
     reserving = (\<lambda>_. None)(1 \<mapsto> (sample_key, 101))\<rparr>"

lemmas engine_eval = jl_engine_reserve_def reserve_attempt_def try_insert_reservation_def
  reservation_map_for_owner_def put_reservation_map_def get_reservation_def grow_awaiting_def
  sample_env_def sample_key_def sample_wait_def jl_init_engine_def rset_def detect_cycle.simps

lemma sample_reachable: "engine_reachable sample_env sample_wait"
proof -
  define e1 where "e1 = jl_init_engine\<lparr>native_reservations := [(16, \<lparr>res_tid = 0, res_ci = 100\<rparr>)],
    awaiting := [None], engine_nqueued := (\<lambda>_. 0)(0 := 1)\<rparr>"
  have "jl_engine_reserve sample_env 0 sample_key 100 jl_init_engine = Inr (e1, Reserved)"
    by (simp add: engine_eval e1_def)
  then have 1: "engine_reachable sample_env e1"
    by (intro engine_reachable.step [OF engine_reachable.init engine_step.reserve])
      (auto simp: jl_init_engine_def sample_env_def sample_key_def)
  have "jl_engine_reserve sample_env 1 sample_key 101 e1 = Inr (sample_wait, Blocked)"
    by (simp add: engine_eval e1_def)
  then show ?thesis
    by (intro engine_reachable.step [OF 1 engine_step.reserve])
      (auto simp: e1_def jl_init_engine_def sample_env_def sample_key_def)
qed

text \<open>
  C25: In every reachable state a call of \<open>jl_engine_reserve\<close> passes its assertion and leaves its
  cycle-detection loop: it takes the lease when nobody has it, gives up exactly when the
  holder transitively waits for the caller, and otherwise blocks without a cycle.
\<close>

theorem engine_reserve_safe:
  assumes "engine_reachable V e" "reserving e t = None"
    "ci_mi V ci = key_mi key" "ci_owner V ci = key_owner key"
  shows "\<exists>e' r. jl_engine_reserve V t key ci e = Inr (e', r) \<and>
     (case r of
        Reserved \<Rightarrow> lease V e key = None \<and> lease V e' = (lease V e)(key \<mapsto> \<lparr>res_tid = t, res_ci = ci\<rparr>)
      | Cyclic \<Rightarrow> lease V e' = lease V e \<and>
          (\<exists>i. lease V e key = Some i \<and> (res_tid i, t) \<in> (waits_for V e)\<^sup>*)
      | Blocked \<Rightarrow> lease V e' = lease V e \<and> reserving e' = (reserving e)(t \<mapsto> (key, ci)) \<and>
          (\<exists>i. lease V e key = Some i \<and> (res_tid i, t) \<notin> (waits_for V e)\<^sup>*))"
  using jl_engine_reserve_ok [OF reachable_ok [OF assms(1)] assms(2-4)]
  by (fastforce split: reserve_outcome.split_asm)

theorem engine_reserve_safe_witness:
  "\<exists>e' r. jl_engine_reserve sample_env 2 sample_key 102 sample_wait = Inr (e', r)"
  using engine_reserve_safe [OF sample_reachable, of 2 102 sample_key]
  by (auto simp: sample_env_def sample_key_def sample_wait_def)

text \<open>
  C26: In every reachable state the wait-for graph has no cycle, a thread asleep on the condition
  variable waits for a lease that another thread still holds (no wake-up is lost), and
  \<open>engine_nqueued\<close> counts the leases a thread holds plus the one it waits for.
\<close>

theorem engine_invariant:
  assumes "engine_reachable V e"
  shows "acyclic (waits_for V e) \<and>
    (t \<in> set (engine_wait e) \<longrightarrow>
      (\<exists>k ci i. reserving e t = Some (k, ci) \<and> lease V e k = Some i \<and> res_tid i \<noteq> t)) \<and>
    engine_nqueued e t = int (held e t) + of_bool (reserving e t \<noteq> None)"
proof -
  have inv: "engine_ok V e" using assms by (rule reachable_ok)
  have "\<exists>k ci i. reserving e t = Some (k, ci) \<and> lease V e k = Some i \<and> res_tid i \<noteq> t"
    if w: "t \<in> set (engine_wait e)"
  proof -
    obtain k ci i where k: "reserving e t = Some (k, ci)" "lease V e k = Some i"
      using inv w unfolding engine_inv_def by blast
    then have "(t, res_tid i) \<in> waits_for V e"
      using inv by (auto simp: engine_inv_def waits_for_def)
    then have "res_tid i \<noteq> t" using inv by (metis acyclic_def engine_inv_def r_into_trancl)
    then show ?thesis using k by blast
  qed
  then show ?thesis using inv by (simp add: engine_inv_def)
qed

theorem engine_invariant_witness:
  "acyclic (waits_for sample_env sample_wait) \<and>
   (\<exists>k ci i. reserving sample_wait 1 = Some (k, ci) \<and> lease sample_env sample_wait k = Some i \<and> res_tid i \<noteq> 1) \<and>
   engine_nqueued sample_wait 1 = int (held sample_wait 1) + 1"
  using engine_invariant [OF sample_reachable, of 1]
  by (simp add: sample_wait_def)



end
