(* ===== verification/Mutex.thy ===== *)
theory Mutex
  imports ArrayList
begin

text \<open>
  The runtime's recursive lock \<open>jl_mutex_t\<close> (\<open>src/threading.c\<close>): a word that holds the owning
  task and, in its low bit, whether a task may be parked; a recursion count; and a parking
  lot of mutex/condition-variable pairs.  Each access to the shared word, each operation
  on the parking bucket and each update of the count is one step of a task, so the steps of
  different tasks interleave in every order.  Other locks that share the bucket can only
  wake a task up early, which the relation allows at any time.  The lemmas show mutual
  exclusion, that a free lock is never flagged parked, that no wake-up is lost and that the
  tasks never all block.
\<close>

section \<open>The lock word\<close>

definition JL_MUTEX_PARKED :: u64 where
  "JL_MUTEX_PARKED = 1"

definition jl_mutex_owner :: "u64 \<Rightarrow> ptr" where
  "jl_mutex_owner w = w AND NOT JL_MUTEX_PARKED"

definition jl_mutex_parked :: "u64 \<Rightarrow> bool" where
  "jl_mutex_parked w \<longleftrightarrow> w AND JL_MUTEX_PARKED \<noteq> 0"

definition jl_mutex_with_park :: "ptr \<Rightarrow> u64" where
  "jl_mutex_with_park t = t OR JL_MUTEX_PARKED"

definition jl_mutex_park_idx :: "ptr \<Rightarrow> u32" where
  "jl_mutex_park_idx lock =
     (let h = drop_bit 4 lock; h = h XOR drop_bit 7 h; h = h XOR drop_bit 13 h
      in ucast (h AND 255))"

section \<open>States\<close>

text \<open>Where a task stands in the code of the lock; a loaded value is kept with it.\<close>

datatype mutex_pc =
    Idle
  | WaitEntry | WaitTry ptr | SetCount | WaitLoop | WaitLoaded ptr
  | ParkLock | ParkRecheck | ParkDecided | Asleep | Woken | ParkUnlock
  | TryEntry | TryLoaded ptr
  | Unlocking | Releasing | BcastLock | BcastHeld | BcastUnlock

text \<open>\<open>park_mtx\<close> is the task that holds the bucket's mutex; \<open>depth\<close> is how often a task has taken
  the lock and not released it, which the code does not store.\<close>

record mutex =
  mowner :: u64
  mcount :: u32
  park_mtx :: "ptr option"
  mpc :: "ptr \<Rightarrow> mutex_pc"
  depth :: "ptr \<Rightarrow> nat"

definition jl_mutex_init :: mutex where
  "jl_mutex_init = \<lparr>mowner = NULL, mcount = 0, park_mtx = None, mpc = (\<lambda>_. Idle), depth = (\<lambda>_. 0)\<rparr>"

definition goto :: "ptr \<Rightarrow> mutex_pc \<Rightarrow> mutex \<Rightarrow> mutex" where
  "goto self p s = s\<lparr>mpc := (mpc s)(self := p)\<rparr>"

definition set_depth :: "ptr \<Rightarrow> nat \<Rightarrow> mutex \<Rightarrow> mutex" where
  "set_depth self n s = s\<lparr>depth := (depth s)(self := n)\<rparr>"

definition broadcast :: "mutex \<Rightarrow> mutex" where
  "broadcast s = s\<lparr>mpc := (\<lambda>t. if mpc s t = Asleep then Woken else mpc s t)\<rparr>"

section \<open>Steps of a task\<close>

text \<open>\<open>lock->count++\<close> by the owner, and the end of the call.\<close>

definition recursive_take :: "ptr \<Rightarrow> mutex \<Rightarrow> mutex" where
  "recursive_take self s =
     goto self Idle (set_depth self (depth s self + 1) (s\<lparr>mcount := mcount s + 1\<rparr>))"

text \<open>\<open>_jl_mutex_wait\<close> by its program points; \<open>None\<close> when the task cannot go on.\<close>

definition jl_mutex_wait_step :: "ptr \<Rightarrow> mutex \<Rightarrow> mutex option" where
  "jl_mutex_wait_step self s =
     (case mpc s self of
        WaitEntry \<Rightarrow>
          if jl_mutex_owner (mowner s) = self then Some (recursive_take self s)
          else Some (goto self (WaitTry (mowner s)) s)
      | WaitTry owner \<Rightarrow>
          if owner = NULL \<and> mowner s = owner then Some (goto self SetCount (s\<lparr>mowner := self\<rparr>))
          else Some (goto self WaitLoop s)
      | SetCount \<Rightarrow> Some (goto self Idle (set_depth self 1 (s\<lparr>mcount := 1\<rparr>)))
      | WaitLoop \<Rightarrow> Some (goto self (WaitLoaded (mowner s)) s)
      | WaitLoaded owner \<Rightarrow>
          if jl_mutex_owner owner = NULL then
            (if mowner s = owner then Some (goto self SetCount (s\<lparr>mowner := self\<rparr>))
             else Some (goto self WaitLoop s))
          else if jl_mutex_parked owner then Some (goto self ParkLock s)
          else if mowner s = owner then Some (goto self ParkLock (s\<lparr>mowner := jl_mutex_with_park owner\<rparr>))
          else Some (goto self WaitLoop s)
      | ParkLock \<Rightarrow>
          if park_mtx s = None then Some (goto self ParkRecheck (s\<lparr>park_mtx := Some self\<rparr>)) else None
      | ParkRecheck \<Rightarrow>
          if jl_mutex_owner (mowner s) \<noteq> NULL \<and> jl_mutex_parked (mowner s)
          then Some (goto self ParkDecided s) else Some (goto self ParkUnlock s)
      | ParkDecided \<Rightarrow> Some (goto self Asleep (s\<lparr>park_mtx := None\<rparr>))
      | Woken \<Rightarrow>
          if park_mtx s = None then Some (goto self ParkUnlock (s\<lparr>park_mtx := Some self\<rparr>)) else None
      | ParkUnlock \<Rightarrow> Some (goto self WaitLoop (s\<lparr>park_mtx := None\<rparr>))
      | _ \<Rightarrow> None)"

definition jl_mutex_trylock_nogc_step :: "ptr \<Rightarrow> mutex \<Rightarrow> mutex option" where
  "jl_mutex_trylock_nogc_step self s =
     (case mpc s self of
        TryEntry \<Rightarrow>
          if jl_mutex_owner (mowner s) = self then Some (recursive_take self s)
          else Some (goto self (TryLoaded (mowner s)) s)
      | TryLoaded owner \<Rightarrow>
          if jl_mutex_owner owner = NULL \<and> mowner s = owner
          then Some (goto self SetCount (s\<lparr>mowner := self\<rparr>))
          else Some (goto self Idle s)
      | _ \<Rightarrow> None)"

definition jl_mutex_unlock_nogc_step :: "ptr \<Rightarrow> mutex \<Rightarrow> mutex result option" where
  "jl_mutex_unlock_nogc_step self s =
     (case mpc s self of
        Unlocking \<Rightarrow>
          Some (rbind (assert_that (jl_mutex_owner (mowner s) = self)) (\<lambda>_.
            let s' = set_depth self (depth s self - 1) (s\<lparr>mcount := mcount s - 1\<rparr>)
            in Inr (goto self (if mcount s' = 0 then Releasing else Idle) s')))
      | Releasing \<Rightarrow>
          Some (Inr (goto self (if jl_mutex_parked (mowner s) then BcastLock else Idle) (s\<lparr>mowner := NULL\<rparr>)))
      | BcastLock \<Rightarrow>
          if park_mtx s = None then Some (Inr (goto self BcastHeld (s\<lparr>park_mtx := Some self\<rparr>))) else None
      | BcastHeld \<Rightarrow> Some (Inr (goto self BcastUnlock (broadcast s)))
      | BcastUnlock \<Rightarrow> Some (Inr (goto self Idle (s\<lparr>park_mtx := None\<rparr>)))
      | _ \<Rightarrow> None)"

text \<open>The step of a task inside a call, whichever call it is in.\<close>

definition mutex_run :: "ptr \<Rightarrow> mutex \<Rightarrow> mutex result option" where
  "mutex_run self s =
     (case jl_mutex_wait_step self s of
        Some s' \<Rightarrow> Some (Inr s')
      | None \<Rightarrow>
          (case jl_mutex_trylock_nogc_step self s of
             Some s' \<Rightarrow> Some (Inr s')
           | None \<Rightarrow> jl_mutex_unlock_nogc_step self s))"

text \<open>Task addresses are 16-byte aligned and not null, so the low bit is free.\<close>

definition task_ptr :: "ptr \<Rightarrow> bool" where
  "task_ptr t \<longleftrightarrow> t \<noteq> NULL \<and> t AND 15 = 0"

text \<open>A call starts in an idle task: locking at most \<open>2 ^ 32 - 1\<close> times (the count is a \<open>uint32_t\<close>),
  unlocking only what the task holds.\<close>

inductive mutex_step :: "mutex \<Rightarrow> mutex \<Rightarrow> bool" where
  lock: "mpc s t = Idle \<Longrightarrow> task_ptr t \<Longrightarrow> depth s t < 2 ^ 32 - 1 \<Longrightarrow> mutex_step s (goto t WaitEntry s)"
| trylock: "mpc s t = Idle \<Longrightarrow> task_ptr t \<Longrightarrow> depth s t < 2 ^ 32 - 1 \<Longrightarrow> mutex_step s (goto t TryEntry s)"
| unlock: "mpc s t = Idle \<Longrightarrow> depth s t > 0 \<Longrightarrow> mutex_step s (goto t Unlocking s)"
| run: "mutex_run t s = Some (Inr s') \<Longrightarrow> mutex_step s s'"
| spurious: "mpc s t = Asleep \<Longrightarrow> mutex_step s (goto t Woken s)"

inductive mutex_reachable :: "mutex \<Rightarrow> bool" where
  init: "mutex_reachable jl_mutex_init"
| step: "mutex_reachable s \<Longrightarrow> mutex_step s s' \<Longrightarrow> mutex_reachable s'"

section \<open>Lock frames\<close>

definition jl_lock_frame_push :: "heap_env \<Rightarrow> arraylist \<Rightarrow> ptr \<Rightarrow> arraylist result" where
  "jl_lock_frame_push E locks lock =
     (let len = al_len locks in
      rbind (if len \<ge> al_max locks then small_arraylist_grow E locks 1
             else Inr (locks\<lparr>al_len := len + 1\<rparr>)) (\<lambda>locks.
      al_store_at locks len lock))"

definition jl_lock_frame_pop :: "arraylist \<Rightarrow> arraylist result" where
  "jl_lock_frame_pop locks =
     rbind (assert_that (al_len locks > 0)) (\<lambda>_. Inr (locks\<lparr>al_len := al_len locks - 1\<rparr>))"

section \<open>The bits of the lock word\<close>

lemma lock_word_bits [simp]:
  "jl_mutex_owner 0 = 0" "\<not> jl_mutex_parked 0"
  "jl_mutex_owner (jl_mutex_with_park w) = jl_mutex_owner w"
  "jl_mutex_parked (jl_mutex_with_park w)"
proof -
  show "jl_mutex_owner (jl_mutex_with_park w) = jl_mutex_owner w"
    by (rule bit_word_eqI) (auto simp: jl_mutex_owner_def jl_mutex_with_park_def JL_MUTEX_PARKED_def bit_simps)
  have "bit (jl_mutex_with_park w AND 1) 0"
    by (simp add: jl_mutex_with_park_def JL_MUTEX_PARKED_def bit_simps)
  then show "jl_mutex_parked (jl_mutex_with_park w)"
    unfolding jl_mutex_parked_def JL_MUTEX_PARKED_def by (metis bit_0_eq bot_apply bot_bool_def)
qed (simp_all add: jl_mutex_owner_def jl_mutex_parked_def)

lemma task_ptr_bits:
  assumes "task_ptr t"
  shows "jl_mutex_owner t = t" "\<not> jl_mutex_parked t" "t \<noteq> 0"
proof -
  have "\<not> bit (t AND 15) 0" using assms by (simp add: task_ptr_def)
  then have b0: "\<not> bit t 0" by (simp add: bit_simps)
  show "jl_mutex_owner t = t"
  proof (rule bit_word_eqI)
    fix n
    show "bit (jl_mutex_owner t) n \<longleftrightarrow> bit t n" if "n < LENGTH(64)"
      using b0 that by (cases n) (auto simp: jl_mutex_owner_def JL_MUTEX_PARKED_def bit_simps)
  qed
  have "t AND 1 = 0" using b0 by (simp add: and_one_eq bit_0 even_iff_mod_2_eq_zero)
  then show "\<not> jl_mutex_parked t" by (simp add: jl_mutex_parked_def JL_MUTEX_PARKED_def)
  show "t \<noteq> 0" using assms by (simp add: task_ptr_def)
qed

lemma free_word: "jl_mutex_owner w = 0 \<Longrightarrow> \<not> jl_mutex_parked w \<Longrightarrow> w = 0"
proof -
  have "w = (w AND NOT 1) OR (w AND 1)" by (rule bit_word_eqI) (auto simp: bit_simps)
  then show "jl_mutex_owner w = 0 \<Longrightarrow> \<not> jl_mutex_parked w \<Longrightarrow> w = 0"
    by (simp add: jl_mutex_owner_def jl_mutex_parked_def JL_MUTEX_PARKED_def)
qed

section \<open>The invariant\<close>

definition holds :: "mutex \<Rightarrow> ptr \<Rightarrow> bool" where
  "holds s t \<longleftrightarrow> depth s t > 0 \<or> mpc s t = SetCount \<or> mpc s t = Releasing"

text \<open>The program points at which a task may own the lock already.\<close>

definition may_own :: "mutex_pc \<Rightarrow> bool" where
  "may_own p \<longleftrightarrow> p \<in> {Idle, WaitEntry, TryEntry, Unlocking}"

definition has_mtx :: "mutex_pc \<Rightarrow> bool" where
  "has_mtx p \<longleftrightarrow> p \<in> {ParkRecheck, ParkDecided, ParkUnlock, BcastHeld, BcastUnlock}"

text \<open>A broadcast is still to come.\<close>

definition bcast_pending :: "mutex \<Rightarrow> bool" where
  "bcast_pending s \<longleftrightarrow> (\<exists>u. mpc s u = BcastLock \<or> mpc s u = BcastHeld)"

definition held_parked :: "mutex \<Rightarrow> bool" where
  "held_parked s \<longleftrightarrow> jl_mutex_owner (mowner s) \<noteq> NULL \<and> jl_mutex_parked (mowner s)"

definition owner_inv :: "mutex \<Rightarrow> bool" where
  "owner_inv s \<longleftrightarrow>
     (\<forall>t. (mpc s t \<noteq> Idle \<or> depth s t > 0) \<longrightarrow> task_ptr t) \<and>
     (\<forall>t. holds s t \<longleftrightarrow> jl_mutex_owner (mowner s) = t \<and> t \<noteq> NULL) \<and>
     (\<forall>t. \<not> may_own (mpc s t) \<longrightarrow> depth s t = 0) \<and>
     (\<forall>t. mpc s t = Unlocking \<longrightarrow> depth s t > 0) \<and>
     (\<forall>t. mpc s t = WaitEntry \<or> mpc s t = TryEntry \<longrightarrow> depth s t < 2 ^ 32 - 1) \<and>
     (\<forall>t. depth s t > 0 \<longrightarrow> mcount s = of_nat (depth s t)) \<and>
     (\<forall>t. depth s t < 2 ^ 32) \<and>
     (jl_mutex_owner (mowner s) = NULL \<longrightarrow> mowner s = NULL)"

definition mtx_inv :: "mutex \<Rightarrow> bool" where
  "mtx_inv s \<longleftrightarrow> (\<forall>t. park_mtx s = Some t \<longleftrightarrow> has_mtx (mpc s t))"

definition wake_inv :: "mutex \<Rightarrow> bool" where
  "wake_inv s \<longleftrightarrow>
     (\<forall>t. mpc s t = Asleep \<or> mpc s t = ParkDecided \<longrightarrow> held_parked s \<or> bcast_pending s)"

lemmas mutex_upd = goto_def set_depth_def broadcast_def recursive_take_def

lemma count_zero_iff:
  "0 < n \<Longrightarrow> n < 2 ^ 32 \<Longrightarrow> (of_nat n - 1 = (0::u32)) \<longleftrightarrow> n = 1"
proof -
  assume n: "0 < n" "n < 2 ^ 32"
  have "(of_nat n - 1 = (0::u32)) \<longleftrightarrow> of_nat n = (of_nat 1 :: u32)" by simp
  also have "\<dots> \<longleftrightarrow> n = 1" using n by (simp add: word_unat_eq_iff unat_of_nat)
  finally show ?thesis .
qed

subsection \<open>Ownership\<close>

lemma owner_inv_park_mtx [simp]: "owner_inv (s\<lparr>park_mtx := x\<rparr>) = owner_inv s"
  by (simp add: owner_inv_def holds_def)

lemma goto_park_mtx: "goto t p (s\<lparr>park_mtx := x\<rparr>) = (goto t p s)\<lparr>park_mtx := x\<rparr>"
  by (simp add: goto_def)

lemma owner_inv_task: "owner_inv s \<Longrightarrow> mpc s t \<noteq> Idle \<Longrightarrow> task_ptr t"
  by (auto simp: owner_inv_def)

lemma owner_inv_not_own: "owner_inv s \<Longrightarrow> \<not> may_own (mpc s t) \<Longrightarrow> depth s t = 0"
  by (auto simp: owner_inv_def)

lemma owner_inv_holds: "owner_inv s \<Longrightarrow> holds s t \<longleftrightarrow> jl_mutex_owner (mowner s) = t \<and> t \<noteq> NULL"
  by (simp add: owner_inv_def)

lemma only_owner:
  assumes "owner_inv s" "jl_mutex_owner (mowner s) = t" "u \<noteq> t"
  shows "depth s u = 0 \<and> mpc s u \<noteq> SetCount \<and> mpc s u \<noteq> Releasing"
  using owner_inv_holds [OF assms(1), of u] assms(2,3) by (auto simp: holds_def)

lemma owner_inv_goto:
  assumes "owner_inv s" "task_ptr t" "mpc s t \<noteq> SetCount" "mpc s t \<noteq> Releasing"
    "p \<noteq> SetCount" "p \<noteq> Releasing" "may_own p \<or> depth s t = 0"
    "p = Unlocking \<longrightarrow> depth s t > 0" "p = WaitEntry \<or> p = TryEntry \<longrightarrow> depth s t < 2 ^ 32 - 1"
  shows "owner_inv (goto t p s)"
  using assms unfolding owner_inv_def holds_def goto_def by auto

text \<open>A step between points at which the task does not own the lock.\<close>

lemma owner_inv_move:
  assumes "owner_inv s" "\<not> may_own (mpc s t)" "mpc s t \<noteq> SetCount" "mpc s t \<noteq> Releasing"
    "p \<noteq> SetCount" "p \<noteq> Releasing" "p \<notin> {Unlocking, WaitEntry, TryEntry}"
  shows "owner_inv (goto t p s)"
  using assms owner_inv_not_own [of s t] owner_inv_task [of s t]
  by (intro owner_inv_goto) (auto simp: may_own_def)

text \<open>A step after which the owner was seen to be another task.\<close>

lemma owner_inv_enter:
  assumes "owner_inv s" "mpc s t = WaitEntry \<or> mpc s t = TryEntry" "jl_mutex_owner (mowner s) \<noteq> t"
    "p \<noteq> SetCount" "p \<noteq> Releasing" "p \<notin> {Unlocking, WaitEntry, TryEntry}"
  shows "owner_inv (goto t p s)"
proof -
  have "depth s t = 0" "task_ptr t" using assms by (auto simp: owner_inv_def holds_def)
  then show ?thesis using assms by (intro owner_inv_goto) auto
qed

lemma owner_inv_recursive:
  assumes inv: "owner_inv s" and pc: "mpc s t = WaitEntry \<or> mpc s t = TryEntry" and own: "jl_mutex_owner (mowner s) = t"
  shows "owner_inv (recursive_take t s)"
proof -
  have t: "task_ptr t" using owner_inv_task [OF inv, of t] pc by auto
  note t = t task_ptr_bits(3) [OF t]
  have "holds s t" using inv own t by (simp add: owner_inv_def)
  then have d: "depth s t > 0" using pc by (auto simp: holds_def)
  have only: "depth s u = 0 \<and> mpc s u \<noteq> SetCount \<and> mpc s u \<noteq> Releasing" if "u \<noteq> t" for u
    using only_owner [OF inv own that] .
  have lt: "depth s t < 2 ^ 32 - 1" using inv pc by (auto simp: owner_inv_def)
  have "mcount s = of_nat (depth s t)" using inv d by (simp add: owner_inv_def)
  then show ?thesis
    using inv t d lt only own unfolding owner_inv_def mutex_upd holds_def may_own_def
    by (auto simp: add.commute)
qed

lemma owner_inv_take:
  assumes inv: "owner_inv s" and pc: "\<not> may_own (mpc s t)" and free: "jl_mutex_owner (mowner s) = NULL"
  shows "owner_inv (goto t SetCount (s\<lparr>mowner := t\<rparr>))"
proof -
  have t: "task_ptr t" using inv pc by (auto simp: owner_inv_def may_own_def)
  have none: "\<not> holds s u" for u using inv free by (auto simp: owner_inv_def)
  show ?thesis
    using inv none task_ptr_bits [OF t] t pc unfolding owner_inv_def goto_def holds_def may_own_def by auto
qed

lemma owner_inv_set_count:
  assumes inv: "owner_inv s" and pc: "mpc s t = SetCount"
  shows "owner_inv (goto t Idle (set_depth t 1 (s\<lparr>mcount := 1\<rparr>)))"
proof -
  have t: "task_ptr t" "holds s t" using inv pc by (auto simp: owner_inv_def holds_def)
  have only: "depth s u = 0 \<and> mpc s u \<noteq> SetCount \<and> mpc s u \<noteq> Releasing" if "u \<noteq> t" for u
    using only_owner [OF inv _ that] owner_inv_holds [OF inv] t(2) by blast
  show ?thesis
    using inv t only pc unfolding owner_inv_def mutex_upd holds_def may_own_def by auto
qed

lemma owner_inv_set_park:
  assumes "owner_inv s" "jl_mutex_owner (mowner s) \<noteq> NULL"
  shows "owner_inv (s\<lparr>mowner := jl_mutex_with_park (mowner s)\<rparr>)"
  using assms unfolding owner_inv_def holds_def by auto

lemma owner_inv_unlock:
  assumes inv: "owner_inv s" and pc: "mpc s t = Unlocking"
  shows "jl_mutex_owner (mowner s) = t"
    "owner_inv (goto t (if mcount s - 1 = 0 then Releasing else Idle) (set_depth t (depth s t - 1) (s\<lparr>mcount := mcount s - 1\<rparr>)))"
proof -
  have d: "depth s t > 0" using inv pc by (auto simp: owner_inv_def)
  then show own: "jl_mutex_owner (mowner s) = t" using inv by (auto simp: owner_inv_def holds_def)
  have t: "task_ptr t" using owner_inv_task [OF inv, of t] pc by auto
  note t = t task_ptr_bits(3) [OF t]
  have only: "depth s u = 0 \<and> mpc s u \<noteq> SetCount \<and> mpc s u \<noteq> Releasing" if "u \<noteq> t" for u
    using only_owner [OF inv own that] .
  have m: "mcount s = of_nat (depth s t)" and lt: "depth s t < 2 ^ 32" using inv d by (simp_all add: owner_inv_def)
  obtain n where n: "depth s t = Suc n" using d by (cases "depth s t") auto
  have z: "mcount s - 1 = 0 \<longleftrightarrow> n = 0" using count_zero_iff [OF d lt] m n by simp
  have m1: "mcount s - 1 = of_nat n" using m n by simp
  have "owner_inv (goto t (if n = 0 then Releasing else Idle) (set_depth t n (s\<lparr>mcount := of_nat n\<rparr>)))"
    using inv t only own n lt unfolding owner_inv_def mutex_upd holds_def may_own_def by auto
  then show "owner_inv (goto t (if mcount s - 1 = 0 then Releasing else Idle)
      (set_depth t (depth s t - 1) (s\<lparr>mcount := mcount s - 1\<rparr>)))"
    unfolding z by (simp only: m1 n diff_Suc_1)
qed

lemma owner_inv_release:
  assumes inv: "owner_inv s" and pc: "mpc s t = Releasing" and p: "p = BcastLock \<or> p = Idle"
  shows "owner_inv (goto t p (s\<lparr>mowner := NULL\<rparr>))"
proof -
  have t: "task_ptr t" "holds s t" "depth s t = 0" using inv pc by (auto simp: owner_inv_def holds_def may_own_def)
  have only: "depth s u = 0 \<and> mpc s u \<noteq> SetCount \<and> mpc s u \<noteq> Releasing" if "u \<noteq> t" for u
    using only_owner [OF inv _ that] owner_inv_holds [OF inv] t(2) by blast
  show ?thesis
    using inv t only pc p unfolding owner_inv_def mutex_upd holds_def may_own_def by auto
qed

lemma owner_inv_broadcast:
  assumes "owner_inv s"
  shows "owner_inv (broadcast s)"
proof -
  have "holds (broadcast s) t = holds s t" "may_own (mpc (broadcast s) t) = may_own (mpc s t)" for t
    by (auto simp: broadcast_def holds_def may_own_def)
  moreover have "mpc (broadcast s) t = p \<longleftrightarrow> mpc s t = p" if "p \<noteq> Asleep" "p \<noteq> Woken" for t p
    using that by (auto simp: broadcast_def)
  moreover have "mowner (broadcast s) = mowner s" "mcount (broadcast s) = mcount s" "depth (broadcast s) = depth s"
    by (simp_all add: broadcast_def)
  ultimately show ?thesis using assms unfolding owner_inv_def by simp
qed

lemma owner_inv_init: "owner_inv jl_mutex_init"
  by (simp add: owner_inv_def jl_mutex_init_def holds_def may_own_def)

lemma mpc_broadcast: "mpc (broadcast s) t = (if mpc s t = Asleep then Woken else mpc s t)"
  by (simp add: broadcast_def)

lemma wait_step_owner:
  assumes "jl_mutex_wait_step t s = Some s'" "owner_inv s"
  shows "owner_inv s'"
proof -
  have "owner_inv (goto t SetCount (s\<lparr>mowner := t\<rparr>))" if "mpc s t = WaitTry NULL" "mowner s = NULL"
    using owner_inv_take assms(2) that by (auto simp: may_own_def)
  moreover have "owner_inv (goto t SetCount (s\<lparr>mowner := t\<rparr>))"
    if "mpc s t = WaitLoaded w" "mowner s = w" "jl_mutex_owner w = NULL" for w
    using owner_inv_take assms(2) that by (auto simp: may_own_def)
  moreover have "owner_inv (goto t ParkLock (s\<lparr>mowner := jl_mutex_with_park w\<rparr>))"
    if "mpc s t = WaitLoaded w" "mowner s = w" "jl_mutex_owner w \<noteq> NULL" for w
    using owner_inv_move [of "s\<lparr>mowner := jl_mutex_with_park w\<rparr>" t ParkLock] owner_inv_set_park assms(2) that
    by (auto simp: may_own_def)
  ultimately show ?thesis
    using assms unfolding jl_mutex_wait_step_def goto_park_mtx
    by (auto simp: may_own_def owner_inv_move owner_inv_enter owner_inv_recursive
        owner_inv_set_count [simplified] split: mutex_pc.splits if_splits)
qed

lemma trylock_step_owner:
  assumes "jl_mutex_trylock_nogc_step t s = Some s'" "owner_inv s"
  shows "owner_inv s'"
proof -
  have "owner_inv (goto t SetCount (s\<lparr>mowner := t\<rparr>))"
    if "mpc s t = TryLoaded w" "mowner s = w" "jl_mutex_owner w = NULL" for w
    using owner_inv_take assms(2) that by (auto simp: may_own_def)
  then show ?thesis
    using assms unfolding jl_mutex_trylock_nogc_step_def
    by (auto simp: may_own_def owner_inv_move owner_inv_enter owner_inv_recursive
        split: mutex_pc.splits if_splits)
qed

lemma unlock_step_owner:
  assumes "jl_mutex_unlock_nogc_step t s = Some r" "owner_inv s"
  shows "\<exists>s'. r = Inr s' \<and> owner_inv s'"
  using assms owner_inv_unlock [OF assms(2)] unfolding jl_mutex_unlock_nogc_step_def goto_park_mtx
  by (auto simp: may_own_def set_depth_def mpc_broadcast Let_def owner_inv_move owner_inv_release
      owner_inv_broadcast split: mutex_pc.splits if_splits)

lemma mutex_run_owner:
  assumes "mutex_run t s = Some r" "owner_inv s"
  shows "\<exists>s'. r = Inr s' \<and> owner_inv s'"
  using assms wait_step_owner trylock_step_owner unlock_step_owner
  by (fastforce simp: mutex_run_def split: option.split_asm)

lemma mutex_step_owner: "mutex_step s s' \<Longrightarrow> owner_inv s \<Longrightarrow> owner_inv s'"
proof (induction rule: mutex_step.induct)
  case (unlock s t)
  then have "task_ptr t" by (simp add: owner_inv_def)
  then show ?case using unlock by (auto simp: may_own_def intro: owner_inv_goto)
next
  case (run t s s')
  then show ?case using mutex_run_owner by fastforce
next
  case (spurious s t)
  then show ?case by (intro owner_inv_move) (auto simp: may_own_def)
qed (auto simp: may_own_def intro!: owner_inv_goto)

subsection \<open>The bucket's mutex\<close>

lemma mtx_inv_other [simp]:
  "mtx_inv (s\<lparr>mowner := w\<rparr>) = mtx_inv s" "mtx_inv (s\<lparr>mcount := c\<rparr>) = mtx_inv s"
  "mtx_inv (set_depth t n s) = mtx_inv s"
  by (simp_all add: mtx_inv_def set_depth_def)

lemma mtx_inv_goto: "mtx_inv s \<Longrightarrow> has_mtx p = has_mtx (mpc s t) \<Longrightarrow> mtx_inv (goto t p s)"
  by (simp add: mtx_inv_def goto_def)

lemma mtx_inv_acquire:
  "mtx_inv s \<Longrightarrow> park_mtx s = None \<Longrightarrow> has_mtx p \<Longrightarrow> mtx_inv ((goto t p s)\<lparr>park_mtx := Some t\<rparr>)"
  by (auto simp: mtx_inv_def goto_def)

lemma mtx_inv_drop:
  "mtx_inv s \<Longrightarrow> has_mtx (mpc s t) \<Longrightarrow> \<not> has_mtx p \<Longrightarrow> mtx_inv ((goto t p s)\<lparr>park_mtx := None\<rparr>)"
  by (auto simp: mtx_inv_def goto_def) (metis option.inject)

lemma mtx_inv_broadcast: "mtx_inv s \<Longrightarrow> mtx_inv (broadcast s)"
  by (auto simp: mtx_inv_def broadcast_def has_mtx_def)

lemma mpc_unaffected [simp]:
  "mpc (s\<lparr>mowner := w\<rparr>) = mpc s" "mpc (s\<lparr>mcount := c\<rparr>) = mpc s" "mpc (set_depth t n s) = mpc s"
  by (simp_all add: set_depth_def)

lemma mutex_run_cases:
  assumes "mutex_run t s = Some (Inr s')"
  obtains "jl_mutex_wait_step t s = Some s'" | "jl_mutex_trylock_nogc_step t s = Some s'"
  | "jl_mutex_unlock_nogc_step t s = Some (Inr s')"
  using assms by (auto simp: mutex_run_def split: option.splits)

lemma wait_step_mtx: "jl_mutex_wait_step t s = Some s' \<Longrightarrow> mtx_inv s \<Longrightarrow> mtx_inv s'"
  unfolding jl_mutex_wait_step_def goto_park_mtx recursive_take_def
  by (cases "mpc s t") (auto simp: has_mtx_def mtx_inv_goto mtx_inv_acquire mtx_inv_drop split: if_splits)

lemma trylock_step_mtx: "jl_mutex_trylock_nogc_step t s = Some s' \<Longrightarrow> mtx_inv s \<Longrightarrow> mtx_inv s'"
  unfolding jl_mutex_trylock_nogc_step_def recursive_take_def
  by (cases "mpc s t") (auto simp: has_mtx_def mtx_inv_goto split: if_splits)

lemma unlock_step_mtx: "jl_mutex_unlock_nogc_step t s = Some (Inr s') \<Longrightarrow> mtx_inv s \<Longrightarrow> mtx_inv s'"
  unfolding jl_mutex_unlock_nogc_step_def goto_park_mtx Let_def
  by (cases "mpc s t") (auto simp: has_mtx_def mtx_inv_goto mtx_inv_acquire mtx_inv_drop mtx_inv_broadcast
      mpc_broadcast assert_that_def split: if_splits)

lemma mutex_run_mtx: "mutex_run t s = Some (Inr s') \<Longrightarrow> mtx_inv s \<Longrightarrow> mtx_inv s'"
  by (erule mutex_run_cases) (auto intro: wait_step_mtx trylock_step_mtx unlock_step_mtx)

lemma mutex_step_mtx: "mutex_step s s' \<Longrightarrow> mtx_inv s \<Longrightarrow> mtx_inv s'"
proof (induction rule: mutex_step.induct)
  case (run t s s')
  then show ?case by (rule mutex_run_mtx)
qed (auto simp: has_mtx_def intro!: mtx_inv_goto)

subsection \<open>Wake-ups\<close>

lemma wake_inv_other [simp]:
  "wake_inv (s\<lparr>park_mtx := x\<rparr>) = wake_inv s" "wake_inv (s\<lparr>mcount := c\<rparr>) = wake_inv s"
  "wake_inv (set_depth t n s) = wake_inv s"
  by (simp_all add: wake_inv_def set_depth_def held_parked_def bcast_pending_def)

lemma goto_mowner: "goto t p (s\<lparr>mowner := w\<rparr>) = (goto t p s)\<lparr>mowner := w\<rparr>"
  by (simp add: goto_def)

lemma wake_inv_word:
  assumes "wake_inv s" "p \<notin> {Asleep, ParkDecided}" "mpc s t \<notin> {BcastLock, BcastHeld}"
    "held_parked s \<longrightarrow> p = BcastLock \<or> (jl_mutex_owner w \<noteq> NULL \<and> jl_mutex_parked w)"
  shows "wake_inv ((goto t p s)\<lparr>mowner := w\<rparr>)"
  using assms by (auto simp: wake_inv_def goto_def held_parked_def bcast_pending_def)

lemma wake_inv_goto:
  assumes "wake_inv s" "p \<notin> {Asleep, ParkDecided}" "mpc s t \<notin> {BcastLock, BcastHeld}"
  shows "wake_inv (goto t p s)"
  using wake_inv_word [OF assms, of "mowner s"] by (simp add: held_parked_def goto_def)

lemma wake_inv_decide: "held_parked s \<Longrightarrow> wake_inv (goto t ParkDecided s)"
  by (simp add: wake_inv_def held_parked_def goto_def)

lemma wake_inv_sleep: "wake_inv s \<Longrightarrow> mpc s t = ParkDecided \<Longrightarrow> wake_inv (goto t Asleep s)"
  by (auto simp: wake_inv_def held_parked_def goto_def bcast_pending_def) (metis mutex_pc.distinct)+

lemma wake_inv_bcast_lock: "mpc s t = BcastLock \<Longrightarrow> wake_inv (goto t BcastHeld s)"
  by (auto simp: wake_inv_def goto_def bcast_pending_def)

lemma wake_inv_broadcast:
  assumes "mtx_inv s" "mpc s t = BcastHeld"
  shows "wake_inv (goto t BcastUnlock (broadcast s))"
proof -
  have "mpc s u \<noteq> ParkDecided" for u
    using assms unfolding mtx_inv_def has_mtx_def
    by (metis insertCI mutex_pc.distinct option.inject)
  then show ?thesis by (auto simp: wake_inv_def goto_def broadcast_def split: if_splits)
qed

lemma wait_step_wake: "jl_mutex_wait_step t s = Some s' \<Longrightarrow> wake_inv s \<Longrightarrow> wake_inv s'"
  unfolding jl_mutex_wait_step_def goto_park_mtx recursive_take_def goto_mowner
  by (cases "mpc s t") (auto simp: wake_inv_goto wake_inv_word wake_inv_decide wake_inv_sleep
      held_parked_def split: if_splits)

lemma trylock_step_wake: "jl_mutex_trylock_nogc_step t s = Some s' \<Longrightarrow> wake_inv s \<Longrightarrow> wake_inv s'"
  unfolding jl_mutex_trylock_nogc_step_def recursive_take_def goto_mowner
  by (cases "mpc s t") (auto simp: wake_inv_goto wake_inv_word held_parked_def split: if_splits)

lemma unlock_step_wake:
  assumes "jl_mutex_unlock_nogc_step t s = Some (Inr s')" "wake_inv s" "mtx_inv s"
  shows "wake_inv s'"
  using assms wake_inv_broadcast [OF assms(3), of t]
  unfolding jl_mutex_unlock_nogc_step_def goto_park_mtx goto_mowner Let_def
  by (cases "mpc s t") (auto simp: wake_inv_goto wake_inv_word wake_inv_bcast_lock
      held_parked_def assert_that_def split: if_splits)

lemma mutex_run_wake: "mutex_run t s = Some (Inr s') \<Longrightarrow> wake_inv s \<Longrightarrow> mtx_inv s \<Longrightarrow> wake_inv s'"
  by (erule mutex_run_cases) (auto intro: wait_step_wake trylock_step_wake unlock_step_wake)

lemma mutex_step_wake:
  "mutex_step s s' \<Longrightarrow> wake_inv s \<Longrightarrow> mtx_inv s \<Longrightarrow> wake_inv s'"
proof (induction rule: mutex_step.induct)
  case (run t s s')
  then show ?case by (rule mutex_run_wake)
qed (auto intro!: wake_inv_goto)

lemma mutex_reachable_inv:
  "mutex_reachable s \<Longrightarrow> owner_inv s \<and> mtx_inv s \<and> wake_inv s"
proof (induction rule: mutex_reachable.induct)
  case init
  show ?case by (simp add: owner_inv_init)
      (simp add: mtx_inv_def wake_inv_def jl_mutex_init_def has_mtx_def)
next
  case (step s s')
  then show ?case using mutex_step_owner mutex_step_mtx mutex_step_wake by blast
qed

section \<open>Someone can always go on\<close>

lemma mtx_holder_runs:
  assumes "has_mtx (mpc s u)"
  shows "\<exists>r. mutex_run u s = Some r"
  using assms
  by (auto simp: has_mtx_def mutex_run_def jl_mutex_wait_step_def jl_mutex_trylock_nogc_step_def
      jl_mutex_unlock_nogc_step_def)

text \<open>A task inside a call either has a step, or waits for the bucket's mutex, or sleeps.\<close>

lemma blocked_cases:
  assumes "mpc s t \<noteq> Idle" "mutex_run t s = None"
  shows "mpc s t = Asleep \<or> park_mtx s \<noteq> None"
  using assms
  by (cases "mpc s t") (auto simp: mutex_run_def jl_mutex_wait_step_def jl_mutex_trylock_nogc_step_def
      jl_mutex_unlock_nogc_step_def split: if_splits)

lemma someone_runs:
  assumes inv: "owner_inv s" "mtx_inv s" "wake_inv s" and t: "mpc s t \<noteq> Idle"
  shows "(\<exists>u r. mutex_run u s = Some r) \<or> (\<exists>u. mpc s u = Idle \<and> depth s u > 0)"
proof (rule disjCI)
  assume "\<not> (\<exists>u. mpc s u = Idle \<and> depth s u > 0)"
  then have idle: "mpc s u \<noteq> Idle" if "depth s u > 0" for u using that by auto
  show "\<exists>u r. mutex_run u s = Some r"
  proof (rule ccontr)
    assume stuck: "\<not> (\<exists>u r. mutex_run u s = Some r)"
    then have free: "park_mtx s = None"
      using mtx_holder_runs inv(2) by (metis mtx_inv_def option.exhaust)
    have asleep: "mpc s u = Asleep" if "mpc s u \<noteq> Idle" for u
      using blocked_cases [OF that] stuck free by (metis option.exhaust)
    then have "held_parked s \<or> bcast_pending s" using inv(3) t by (auto simp: wake_inv_def)
    moreover have "\<not> bcast_pending s" using asleep by (auto simp: bcast_pending_def) (metis mutex_pc.distinct)+
    ultimately have "holds s (jl_mutex_owner (mowner s))"
      using owner_inv_holds [OF inv(1)] by (auto simp: held_parked_def)
    then obtain u where u: "holds s u" by blast
    have "mpc s u \<noteq> SetCount" "mpc s u \<noteq> Releasing" using asleep [of u] by auto
    then have d: "depth s u > 0" using u by (simp add: holds_def)
    then have "mpc s u = Asleep" using idle asleep by blast
    then show False using owner_inv_not_own [OF inv(1), of u] d by (simp add: may_own_def)
  qed
qed

section \<open>Lock frames\<close>

lemma lock_frame_push_ok:
  assumes "al_inv a" "al_room a" "alloc_total E"
  shows "\<exists>a'. jl_lock_frame_push E a lock = Inr a' \<and> al_inv a' \<and> al_list a' = al_list a @ [lock]"
proof -
  have bnd: "unat (al_len a) + unat (1 :: u64) \<le> 2 ^ 58"
    using assms(2) by (simp add: al_room_def)
  then have nl: "unat (al_len a + 1) = unat (al_len a) + 1" by (simp add: unat_simps)
  have "jl_lock_frame_push E a lock = arraylist_push E a lock"
  proof (cases "al_len a \<ge> al_max a")
    case True
    obtain a1 where "arraylist_grow E a 1 = Inr a1" "al_len a1 = al_len a + 1"
      using arraylist_grow_ok [OF assms(1,3) bnd] by blast
    then show ?thesis using True
      by (simp add: jl_lock_frame_push_def small_arraylist_grow_def arraylist_push_def)
  next
    case False
    then have "\<not> al_len a + 1 > al_max a" using nl by (simp add: word_less_nat_alt word_le_nat_alt)
    then show ?thesis using False by (simp add: jl_lock_frame_push_def arraylist_push_def arraylist_grow_def Let_def)
  qed
  then show ?thesis using arraylist_push_ok [OF assms(1,3,2)] by metis
qed

lemma lock_frame_pop_ok:
  assumes "al_inv a" "al_list a \<noteq> []"
  shows "\<exists>a'. jl_lock_frame_pop a = Inr a' \<and> al_inv a' \<and> al_list a' = butlast (al_list a)"
proof -
  have len: "unat (al_len a) > 0" using assms al_list_len [OF assms(1)] by (cases "al_list a") auto
  then have "al_len a > 0" by (simp add: word_less_nat_alt)
  moreover have "unat (al_len a - 1) = unat (al_len a) - 1" using len by (intro unat_pred) auto
  ultimately show ?thesis
    using assms(1) len unfolding jl_lock_frame_pop_def al_inv_def al_list_def
    by (auto simp: butlast_take word_le_nat_alt word_less_nat_alt al_buf_def split: al_store.splits)
qed

section \<open>Properties\<close>

text \<open>A schedule: which task takes the next step.\<close>

fun run_schedule :: "ptr list \<Rightarrow> mutex \<Rightarrow> mutex option" where
  "run_schedule [] s = Some s"
| "run_schedule (t # ts) s =
     (case mutex_run t s of Some (Inr s') \<Rightarrow> run_schedule ts s' | _ \<Rightarrow> None)"

lemma run_schedule_reachable:
  "run_schedule ts s = Some s' \<Longrightarrow> mutex_reachable s \<Longrightarrow> mutex_reachable s'"
  by (induction ts s rule: run_schedule.induct)
    (auto split: option.splits sum.splits intro: mutex_reachable.step mutex_step.run)

text \<open>Task 16 holds the lock once and task 32 sleeps until it is released.\<close>

definition sample_mutex :: mutex where
  "sample_mutex = \<lparr>mowner = 17, mcount = 1, park_mtx = None,
     mpc = (\<lambda>_. Idle)(32 := Asleep), depth = (\<lambda>_. 0)(16 := 1)\<rparr>"

lemma sample_words: "jl_mutex_owner 16 = 16" "jl_mutex_owner 17 = 16" "jl_mutex_parked 17"
    "\<not> jl_mutex_parked 16" "jl_mutex_with_park 16 = 17"
  by code_simp+

lemmas mutex_eval = mutex_run_def jl_mutex_wait_step_def goto_def set_depth_def sample_words

lemma sample_mutex_reachable: "mutex_reachable sample_mutex"
proof -
  have 1: "mutex_reachable (goto 16 WaitEntry jl_mutex_init)"
    by (rule mutex_reachable.step [OF mutex_reachable.init mutex_step.lock])
      (simp_all add: jl_mutex_init_def task_ptr_def)
  have "run_schedule [16, 16, 16] (goto 16 WaitEntry jl_mutex_init) =
      Some \<lparr>mowner = 16, mcount = 1, park_mtx = None, mpc = (\<lambda>_. Idle), depth = (\<lambda>_. 0)(16 := 1)\<rparr>"
    by (simp add: mutex_eval jl_mutex_init_def fun_upd_idem)
  note 2 = run_schedule_reachable [OF this 1]
  let ?s = "goto 32 WaitEntry \<lparr>mowner = 16, mcount = 1, park_mtx = None, mpc = (\<lambda>_. Idle), depth = (\<lambda>_. 0)(16 := 1)\<rparr>"
  have 3: "mutex_reachable ?s"
    by (rule mutex_reachable.step [OF 2 mutex_step.lock]) (simp_all add: task_ptr_def)
  have "run_schedule [32, 32, 32, 32, 32, 32, 32] ?s = Some sample_mutex"
    by (simp add: mutex_eval sample_mutex_def)
  then show ?thesis using 3 by (rule run_schedule_reachable)
qed

text \<open>
  C28: Mutual exclusion: of all interleavings of \<open>_jl_mutex_wait\<close>, \<open>_jl_mutex_trylock_nogc\<close> and
  \<open>_jl_mutex_unlock_nogc\<close>, none lets two tasks hold the lock; the word names the holder, the
  count is its recursion depth, the assertion of the unlock never fails, and a free lock is
  never flagged parked.
\<close>

theorem mutex_exclusion:
  assumes "mutex_reachable s" "depth s t > 0"
  shows "(depth s u > 0 \<longrightarrow> u = t) \<and> jl_mutex_owner (mowner s) = t \<and> unat (mcount s) = depth s t \<and>
    (mutex_run t s = Some r \<longrightarrow> r \<noteq> Inl AssertFailed)"
proof -
  have inv: "owner_inv s" using mutex_reachable_inv [OF assms(1)] by blast
  have own: "jl_mutex_owner (mowner s) = t" using owner_inv_holds [OF inv, of t] assms(2) by (simp add: holds_def)
  have "mcount s = of_nat (depth s t)" "depth s t < 2 ^ 32" using inv assms(2) by (simp_all add: owner_inv_def)
  then have "unat (mcount s) = depth s t" by (simp add: unat_of_nat)
  moreover have "u = t" if "depth s u > 0" using only_owner [OF inv own, of u] that by fastforce
  ultimately show ?thesis using own mutex_run_owner [OF _ inv] by auto
qed

theorem mutex_exclusion_witness:
  "depth sample_mutex 16 > 0 \<and> jl_mutex_owner (mowner sample_mutex) = 16 \<and>
   unat (mcount sample_mutex) = depth sample_mutex 16"
  using mutex_exclusion [OF sample_mutex_reachable, of 16] by (simp add: sample_mutex_def)

text \<open>
  C29: No wake-up is lost and the tasks never all block: a task asleep in the parking lot faces a
  held lock whose word has the parked bit, or a broadcast that is still to come; and while a
  task is inside a call, some task can take a step without a spurious wake-up or the lock
  is held by a task outside the lock's code.
\<close>

theorem mutex_progress:
  assumes "mutex_reachable s" "mpc s t \<noteq> Idle"
  shows "((\<exists>u r. mutex_run u s = Some r) \<or> (\<exists>u. mpc s u = Idle \<and> depth s u > 0)) \<and>
    (mpc s t = Asleep \<longrightarrow> held_parked s \<or> bcast_pending s) \<and>
    (jl_mutex_owner (mowner s) = NULL \<longrightarrow> \<not> jl_mutex_parked (mowner s))"
proof -
  have inv: "owner_inv s" "mtx_inv s" "wake_inv s" using mutex_reachable_inv [OF assms(1)] by blast+
  have "jl_mutex_owner (mowner s) = NULL \<longrightarrow> mowner s = NULL" using inv(1) by (simp add: owner_inv_def)
  then show ?thesis using someone_runs [OF inv assms(2)] inv(3) by (auto simp: wake_inv_def)
qed

theorem mutex_progress_witness:
  "mpc sample_mutex 32 = Asleep \<and> (held_parked sample_mutex \<or> bcast_pending sample_mutex)"
  using mutex_progress [OF sample_mutex_reachable, of 32] by (simp add: sample_mutex_def)

end
