(* ===== verification/OsFile.thy ===== *)
theory OsFile
  imports Prelude
begin

text \<open>
  The operating-system calls under the streams of \<open>src/support/ios.c\<close> and the wrappers that
  retry them.  A descriptor is an open file with an offset.  How many bytes a \<open>read\<close> or \<open>write\<close>
  moves, and when it fails with which \<open>errno\<close>, is the environment's choice: each call takes
  the next reply of a finite script, and a call after the end of the script succeeds in
  full.  So short transfers, interruptions and errors occur in any order, and a retry loop
  ends when the interruptions do.
\<close>

section \<open>Files and descriptors\<close>

record osfile =
  contents :: "u8 list"
  offset :: nat
  seekable :: bool

datatype os_reply = Xfer nat | Fail int

record os =
  files :: "int \<Rightarrow> osfile option"
  replies :: "os_reply list"

definition EINTR :: int where "EINTR = 4"
definition EBADF :: int where "EBADF = 9"
definition EAGAIN :: int where "EAGAIN = 11"
definition ENOMEM :: int where "ENOMEM = 12"

definition file_write :: "osfile \<Rightarrow> u8 list \<Rightarrow> osfile" where
  "file_write f bs =
     f\<lparr>contents := take (offset f) (contents f) @ replicate (offset f - length (contents f)) 0 @ bs @
         drop (offset f + length bs) (contents f),
       offset := offset f + length bs\<rparr>"

definition file_read :: "osfile \<Rightarrow> nat \<Rightarrow> u8 list \<times> osfile" where
  "file_read f n =
     (let bs = take n (drop (offset f) (contents f)) in (bs, f\<lparr>offset := offset f + length bs\<rparr>))"

text \<open>The next reply: how much of \<open>n\<close> bytes moves, or the error.\<close>

definition next_reply :: "os \<Rightarrow> nat \<Rightarrow> (int + nat) \<times> os" where
  "next_reply W n =
     (case replies W of
        [] \<Rightarrow> (Inr n, W)
      | Xfer k # rs \<Rightarrow> (Inr (min k n), W\<lparr>replies := rs\<rparr>)
      | Fail e # rs \<Rightarrow> (Inl e, W\<lparr>replies := rs\<rparr>))"

definition sys_read :: "os \<Rightarrow> int \<Rightarrow> nat \<Rightarrow> (int + u8 list) \<times> os" where
  "sys_read W fd n =
     (case files W fd of
        None \<Rightarrow> (Inl EBADF, W)
      | Some f \<Rightarrow>
          (case next_reply W n of
             (Inl e, W) \<Rightarrow> (Inl e, W)
           | (Inr k, W) \<Rightarrow>
               (let (bs, f) = file_read f k in (Inr bs, W\<lparr>files := (files W)(fd \<mapsto> f)\<rparr>))))"

definition sys_write :: "os \<Rightarrow> int \<Rightarrow> u8 list \<Rightarrow> (int + nat) \<times> os" where
  "sys_write W fd bs =
     (case files W fd of
        None \<Rightarrow> (Inl EBADF, W)
      | Some f \<Rightarrow>
          (case next_reply W (length bs) of
             (Inl e, W) \<Rightarrow> (Inl e, W)
           | (Inr k, W) \<Rightarrow> (Inr k, W\<lparr>files := (files W)(fd \<mapsto> file_write f (take k bs))\<rparr>)))"

datatype whence = SEEK_SET | SEEK_CUR | SEEK_END

definition sys_lseek :: "os \<Rightarrow> int \<Rightarrow> int \<Rightarrow> whence \<Rightarrow> int \<times> os" where
  "sys_lseek W fd off wh =
     (case files W fd of
        None \<Rightarrow> (- 1, W)
      | Some f \<Rightarrow>
          (let new = off + (case wh of SEEK_SET \<Rightarrow> 0 | SEEK_CUR \<Rightarrow> int (offset f)
                                     | SEEK_END \<Rightarrow> int (length (contents f)))
           in if \<not> seekable f \<or> new < 0 then (- 1, W)
              else (new, W\<lparr>files := (files W)(fd \<mapsto> f\<lparr>offset := nat new\<rparr>)\<rparr>)))"

definition sys_ftruncate :: "os \<Rightarrow> int \<Rightarrow> nat \<Rightarrow> int \<times> os" where
  "sys_ftruncate W fd sz =
     (case files W fd of
        None \<Rightarrow> (- 1, W)
      | Some f \<Rightarrow>
          if \<not> seekable f then (- 1, W)
          else (0, W\<lparr>files := (files W)(fd \<mapsto>
                 f\<lparr>contents := take sz (contents f) @ replicate (sz - length (contents f)) 0\<rparr>)\<rparr>))"

definition sys_close :: "os \<Rightarrow> int \<Rightarrow> int \<times> os" where
  "sys_close W fd =
     (if files W fd = None then (- 1, W) else (0, W\<lparr>files := (files W)(fd := None)\<rparr>))"

section \<open>Retrying wrappers\<close>

definition enonfatal :: "int \<Rightarrow> bool" where
  "enonfatal err \<longleftrightarrow> err = EAGAIN \<or> err = EINTR"

lemma next_reply_shrinks:
  "next_reply W n = (Inl e, W') \<Longrightarrow> length (replies W') < length (replies W) \<and> files W' = files W"
  "next_reply W n = (Inr k, W') \<Longrightarrow> k \<le> n \<and> files W' = files W \<and>
     (k = n \<and> W' = W \<or> length (replies W') < length (replies W))"
  by (auto simp: next_reply_def split: list.splits os_reply.splits)

lemma sys_read_fail:
  "sys_read W fd n = (Inl e, W') \<Longrightarrow> e = EBADF \<or> length (replies W') < length (replies W)"
  by (auto simp: sys_read_def dest: next_reply_shrinks split: option.splits prod.splits sum.splits)

lemma sys_write_fail:
  "sys_write W fd bs = (Inl e, W') \<Longrightarrow> e = EBADF \<or> length (replies W') < length (replies W)"
  by (auto simp: sys_write_def dest: next_reply_shrinks split: option.splits prod.splits sum.splits)

text \<open>\<open>_os_read\<close>: the error code (0 for none), the bytes read.\<close>

function os_read :: "os \<Rightarrow> int \<Rightarrow> nat \<Rightarrow> int \<times> u8 list \<times> os" where
  "os_read W fd n =
     (case sys_read W fd n of
        (Inr bs, W') \<Rightarrow> (0, bs, W')
      | (Inl e, W') \<Rightarrow>
          if e = ENOMEM \<and> n > 80 then os_read W' fd (n div 8)
          else if \<not> enonfatal e then (e, [], W')
          else os_read W' fd n)"
  by pat_completeness auto
termination
  by (relation "measure (\<lambda>(W, fd, n). length (replies W))")
    (auto simp: enonfatal_def EBADF_def EAGAIN_def EINTR_def ENOMEM_def dest!: sys_read_fail [OF sym])

function os_write :: "os \<Rightarrow> int \<Rightarrow> u8 list \<Rightarrow> int \<times> nat \<times> os" where
  "os_write W fd bs =
     (case sys_write W fd bs of
        (Inr k, W') \<Rightarrow> (0, k, W')
      | (Inl e, W') \<Rightarrow> if \<not> enonfatal e then (e, 0, W') else os_write W' fd bs)"
  by pat_completeness auto
termination
  by (relation "measure (\<lambda>(W, fd, bs). length (replies W))")
    (auto simp: enonfatal_def EBADF_def EAGAIN_def EINTR_def dest!: sys_write_fail [OF sym])

declare os_read.simps [simp del] os_write.simps [simp del]

lemma sys_read_length: "sys_read W fd n = (Inr bs, W') \<Longrightarrow> length bs \<le> n"
  using next_reply_shrinks(2) [of W n]
  by (fastforce simp: sys_read_def file_read_def Let_def split: option.splits prod.splits sum.splits)

lemma os_read_length:
  "os_read W fd n = (err, bs, W') \<Longrightarrow> length bs \<le> n"
proof (induction W fd n arbitrary: err bs W' rule: os_read.induct)
  case (1 W fd n)
  obtain r W1 where r: "sys_read W fd n = (r, W1)" by force
  show ?case
  proof (cases r)
    case (Inr bs')
    then have "bs = bs'" using 1(3) r by (subst (asm) os_read.simps) simp
    then show ?thesis using sys_read_length r Inr by metis
  next
    case (Inl e)
    consider "e = ENOMEM \<and> n > 80" | "\<not> (e = ENOMEM \<and> n > 80)" "\<not> enonfatal e"
      | "\<not> (e = ENOMEM \<and> n > 80)" "enonfatal e" by blast
    then show ?thesis
    proof cases
      case 1
      then have "os_read W1 fd (n div 8) = (err, bs, W')"
        using "1.prems" r Inl by (subst (asm) os_read.simps) simp
      then have "length bs \<le> n div 8" using "1.IH"(1) [OF r [symmetric] Inl 1] by blast
      then show ?thesis by linarith
    next
      case 2
      then show ?thesis using "1.prems" r Inl by (subst (asm) os_read.simps) auto
    next
      case 3
      then have "os_read W1 fd n = (err, bs, W')"
        using "1.prems" r Inl by (subst (asm) os_read.simps) auto
      then show ?thesis using "1.IH"(2) [OF r [symmetric] Inl] 3 by blast
    qed
  qed
qed

lemma os_write_amount:
  "os_write W fd bs = (err, k, W') \<Longrightarrow>
     k \<le> length bs \<and> length (replies W') \<le> length (replies W) \<and>
     (k = 0 \<longrightarrow> err = 0 \<longrightarrow> bs \<noteq> [] \<longrightarrow> length (replies W') < length (replies W))"
proof (induction W fd bs arbitrary: err k W' rule: os_write.induct)
  case (1 W fd bs)
  obtain r W1 where r: "sys_write W fd bs = (r, W1)" by force
  show ?case
  proof (cases r)
    case (Inr m)
    then have "m \<le> length bs \<and> length (replies W1) \<le> length (replies W) \<and>
        (m = 0 \<longrightarrow> bs \<noteq> [] \<longrightarrow> length (replies W1) < length (replies W))"
      using r next_reply_shrinks(2) [of W "length bs"]
      by (fastforce simp: sys_write_def split: option.splits prod.splits sum.splits)
    then show ?thesis using 1(2) r Inr by (subst (asm) os_write.simps) auto
  next
    case (Inl e)
    have le: "length (replies W1) \<le> length (replies W)"
      using r Inl by (auto simp: sys_write_def dest: next_reply_shrinks split: option.splits prod.splits sum.splits)
    show ?thesis
    proof (cases "enonfatal e")
      case True
      then have "os_write W1 fd bs = (err, k, W')" using 1(2) r Inl by (subst (asm) os_write.simps) auto
      moreover have "length (replies W1) < length (replies W)"
        using sys_write_fail [of W fd bs e W1] r Inl True
        by (auto simp: enonfatal_def EBADF_def EAGAIN_def EINTR_def)
      ultimately show ?thesis using 1(1) [OF r [symmetric] Inl] True le by fastforce
    next
      case False
      then have "err = e" "k = 0" "W' = W1" using 1(2) r Inl by (subst (asm) os_write.simps, simp)+
      then show ?thesis using le sys_write_fail [of W fd bs e W1] r Inl by (auto simp: EBADF_def)
    qed
  qed
qed

function os_read_all :: "os \<Rightarrow> int \<Rightarrow> nat \<Rightarrow> int \<times> u8 list \<times> os" where
  "os_read_all W fd n =
     (if n > 0 then
        (case os_read W fd n of (err, bs, W') \<Rightarrow>
           if err \<noteq> 0 \<or> bs = [] then (err, bs, W')
           else (case os_read_all W' fd (n - length bs) of (err, bs', W') \<Rightarrow> (err, bs @ bs', W')))
      else (0, [], W))"
  by pat_completeness auto
termination
  by (relation "measure (\<lambda>(W, fd, n). n)") auto

function os_write_all :: "os \<Rightarrow> int \<Rightarrow> u8 list \<Rightarrow> int \<times> nat \<times> os" where
  "os_write_all W fd bs =
     (if length bs > 0 then
        (case os_write W fd bs of (err, k, W') \<Rightarrow>
           if err \<noteq> 0 then (err, k, W')
           else (case os_write_all W' fd (drop k bs) of (err, k', W') \<Rightarrow> (err, k + k', W')))
      else (0, 0, W))"
  by pat_completeness auto
termination
  apply (relation "measure (\<lambda>(W, fd, bs). length bs + length (replies W))")
   apply simp
  subgoal for W fd bs err q k W'
    using os_write_amount [of W fd bs err k W'] by (cases "k = 0") auto
  done

declare os_read_all.simps [simp del] os_write_all.simps [simp del]

section \<open>What arrives in the file\<close>

text \<open>Whatever the script, a complete write without error extends the file by exactly the
  bytes; with an error, by the prefix whose length is reported.\<close>

lemma file_write_append: "file_write (file_write f xs) ys = file_write f (xs @ ys)"
proof (cases "offset f \<le> length (contents f)")
  case True
  then show ?thesis by (simp add: file_write_def) (simp add: add.commute add.left_commute drop_drop)
next
  case False
  then show ?thesis by (simp add: file_write_def)
qed

lemma file_write_nil: "offset f \<le> length (contents f) \<Longrightarrow> file_write f [] = f"
  by (simp add: file_write_def)

text \<open>The other descriptors are left alone, and no call changes whether a file can seek.\<close>

lemma sys_write_ok:
  assumes "sys_write W fd bs = (Inr k, W')" "files W fd = Some f"
  shows "files W' = (files W)(fd \<mapsto> file_write f (take k bs)) \<and> k \<le> length bs"
  using assms next_reply_shrinks(2) [of W "length bs"]
  by (auto simp: sys_write_def split: prod.splits sum.splits)

lemma sys_write_err:
  assumes "sys_write W fd bs = (Inl e, W')"
  shows "files W' = files W"
  using assms next_reply_shrinks(1) [of W "length bs"]
  by (auto simp: sys_write_def split: prod.splits sum.splits option.splits)

text \<open>Only data within the file or at its end is written, so a zero-length write changes
  nothing.\<close>

lemma os_write_file:
  assumes "os_write W fd bs = (err, k, W')" "files W fd = Some f" "offset f \<le> length (contents f)"
  shows "files W' = (files W)(fd \<mapsto> file_write f (take k bs)) \<and> k \<le> length bs"
  using assms
proof (induction W fd bs arbitrary: err k W' rule: os_write.induct)
  case (1 W fd bs)
  obtain r W1 where r: "sys_write W fd bs = (r, W1)" by force
  show ?case
  proof (cases r)
    case (Inr m)
    then show ?thesis using "1.prems" r sys_write_ok [of W fd bs m W1 f] by (subst (asm) os_write.simps) simp
  next
    case (Inl e)
    have same: "files W1 = files W" using sys_write_err r Inl by metis
    show ?thesis
    proof (cases "enonfatal e")
      case True
      then have "os_write W1 fd bs = (err, k, W')" using "1.prems" r Inl by (subst (asm) os_write.simps) simp
      then show ?thesis using "1.IH" [OF r [symmetric] Inl] True "1.prems" same by simp
    next
      case False
      then have "k = 0" "W' = W1" using "1.prems" r Inl by (subst (asm) os_write.simps, simp)+
      then show ?thesis using same "1.prems" by (auto simp: file_write_nil)
    qed
  qed
qed

lemma file_write_within: "offset f \<le> length (contents f) \<Longrightarrow>
    offset (file_write f bs) \<le> length (contents (file_write f bs))"
  by (simp add: file_write_def)

lemma os_write_all_file:
  assumes "os_write_all W fd bs = (err, k, W')" "files W fd = Some f" "offset f \<le> length (contents f)"
  shows "files W' = (files W)(fd \<mapsto> file_write f (take k bs)) \<and> k \<le> length bs \<and> (err = 0 \<longrightarrow> k = length bs)"
  using assms
proof (induction W fd bs arbitrary: err k W' f rule: os_write_all.induct)
  case (1 W fd bs)
  show ?case
  proof (cases "bs = []")
    case True
    then show ?thesis using "1.prems" by (subst (asm) os_write_all.simps) (auto simp: file_write_nil)
  next
    case False
    obtain e1 k1 W1 where w: "os_write W fd bs = (e1, k1, W1)" by (metis prod_cases3)
    have f1: "files W1 = (files W)(fd \<mapsto> file_write f (take k1 bs))" "k1 \<le> length bs"
      using os_write_file [OF w "1.prems"(2,3)] by auto
    show ?thesis
    proof (cases "e1 = 0")
      case True
      obtain e2 k2 W2 where w2: "os_write_all W1 fd (drop k1 bs) = (e2, k2, W2)" by (metis prod_cases3)
      have res: "err = e2" "k = k1 + k2" "W' = W2"
        using "1.prems"(1) False w w2 True by (subst (asm) os_write_all.simps, simp)+
      have pre: "files W1 fd = Some (file_write f (take k1 bs))" by (simp add: f1(1))
      have "files W2 = (files W1)(fd \<mapsto> file_write (file_write f (take k1 bs)) (take k2 (drop k1 bs))) \<and>
          k2 \<le> length (drop k1 bs) \<and> (e2 = 0 \<longrightarrow> k2 = length (drop k1 bs))"
        using "1.IH" [OF _ w [symmetric] refl _ w2 pre file_write_within [OF "1.prems"(3)]] False True by (simp add: fun_upd_def)
      then show ?thesis using res f1 by (auto simp: file_write_append take_add)
    next
      case e: False
      then have "err = e1" "k = k1" "W' = W1"
        using "1.prems"(1) False w by (subst (asm) os_write_all.simps, simp)+
      then show ?thesis using f1 e by simp
    qed
  qed
qed

end
