(* ===== verification/Ios.thy ===== *)
theory Ios
  imports OsFile Utf8
begin

text \<open>
  The buffered byte streams of \<open>src/support/ios.c\<close>: memory streams, whose data stays in the
  buffer, and file streams (unbuffered, line-buffered, block-buffered) over the descriptors
  of the theory of operating-system calls.  Sizes and positions are natural numbers: a
  stream is taken to stay below the \<open>2 ^ 63\<close> bytes of the C fields.  Every copy in or out of
  a buffer is checked against its extent, so a result \<open>Inr\<close> is also a statement of memory
  safety.
\<close>

section \<open>The stream object\<close>

datatype bufmode = Bm_none | Bm_line | Bm_block | Bm_mem
datatype bufstate = Bst_none | Bst_rd | Bst_wr

text \<open>\<open>buf\<close> is \<open>NULL\<close>, the inline array \<open>local\<close>, or a block elsewhere.\<close>

datatype ios_buf = BufNull | BufLocal | BufHeap "u8 list"

record ios =
  io_buf :: ios_buf
  io_bm :: bufmode
  io_state :: bufstate
  io_maxsize :: nat
  io_size :: nat
  io_bpos :: nat
  io_ndirty :: nat
  io_fpos :: int
  io_lineno :: u64
  io_u_colno :: u64
  io_fd :: int
  io_readable :: bool
  io_writable :: bool
  io_ownbuf :: bool
  io_ownfd :: bool
  io_eof :: bool
  io_rereadable :: bool
  io_growable :: bool
  io_local :: "u8 list"

definition IOS_INLSIZE :: nat where "IOS_INLSIZE = 83"
definition IOS_BUFSIZE :: nat where "IOS_BUFSIZE = 32768"
definition IOS_EOF :: int where "IOS_EOF = - 1"
definition LINE_CHUNK_SIZE :: nat where "LINE_CHUNK_SIZE = 160"

definition MOST_OF :: "nat \<Rightarrow> nat" where
  "MOST_OF x = x - x div 16"

text \<open>The allocator: whether a block of so many bytes can be had, and what it holds.\<close>

record mem_env =
  can_alloc :: "nat \<Rightarrow> bool"
  junk_byte :: "nat \<Rightarrow> u8"

definition llt_alloc :: "mem_env \<Rightarrow> nat \<Rightarrow> u8 list option" where
  "llt_alloc M sz = (if can_alloc M sz then Some (map (junk_byte M) [0 ..< sz]) else None)"

definition llt_realloc :: "mem_env \<Rightarrow> u8 list \<Rightarrow> nat \<Rightarrow> u8 list option" where
  "llt_realloc M old sz =
     (if can_alloc M sz then Some (take sz old @ map (junk_byte M) [length old ..< sz]) else None)"

section \<open>Copying\<close>

definition io_bytes :: "ios \<Rightarrow> u8 list" where
  "io_bytes s = (case io_buf s of BufNull \<Rightarrow> [] | BufLocal \<Rightarrow> io_local s | BufHeap b \<Rightarrow> b)"

definition put_bytes :: "ios \<Rightarrow> u8 list \<Rightarrow> ios" where
  "put_bytes s b =
     (case io_buf s of BufNull \<Rightarrow> s | BufLocal \<Rightarrow> s\<lparr>io_local := b\<rparr> | BufHeap _ \<Rightarrow> s\<lparr>io_buf := BufHeap b\<rparr>)"

definition copy_to :: "u8 list \<Rightarrow> nat \<Rightarrow> u8 list \<Rightarrow> u8 list result" where
  "copy_to dst off data =
     (if off + length data \<le> length dst
      then Inr (take off dst @ data @ drop (off + length data) dst) else Inl OutOfBounds)"

definition copy_from :: "u8 list \<Rightarrow> nat \<Rightarrow> nat \<Rightarrow> u8 list result" where
  "copy_from src off n =
     (if off + n \<le> length src then Inr (take n (drop off src)) else Inl OutOfBounds)"

definition peek :: "ios \<Rightarrow> nat \<Rightarrow> nat \<Rightarrow> u8 list result" where
  "peek s off n = copy_from (io_bytes s) off n"

definition poke :: "ios \<Rightarrow> nat \<Rightarrow> u8 list \<Rightarrow> ios result" where
  "poke s off data = rbind (copy_to (io_bytes s) off data) (\<lambda>b. Inr (put_bytes s b))"

section \<open>The buffer\<close>

text \<open>\<open>_buf_realloc\<close>; the boolean is whether a non-null buffer comes back.\<close>

definition buf_realloc :: "mem_env \<Rightarrow> ios \<Rightarrow> nat \<Rightarrow> (bool \<times> ios) result" where
  "buf_realloc M s sz =
     (if (io_buf s = BufNull \<or> io_buf s = BufLocal) \<and> sz \<le> IOS_INLSIZE
      then Inr (True, s\<lparr>io_buf := BufLocal, io_maxsize := IOS_INLSIZE, io_ownbuf := True\<rparr>)
      else if sz \<le> io_maxsize s then Inr (io_buf s \<noteq> BufNull, s)
      else if \<not> io_growable s then Inr (False, s)
      else if io_ownbuf s \<and> io_buf s \<noteq> BufLocal then
        (case llt_realloc M (io_bytes s) sz of
           None \<Rightarrow> Inr (False, s)
         | Some temp \<Rightarrow> Inr (True, s\<lparr>io_buf := BufHeap temp, io_maxsize := sz\<rparr>))
      else
        (case llt_alloc M sz of
           None \<Rightarrow> Inr (False, s)
         | Some temp \<Rightarrow>
             (let s = s\<lparr>io_ownbuf := True\<rparr> in
              rbind (if io_size s > 0 then
                       rbind (assert_that (io_buf s \<noteq> BufNull)) (\<lambda>_.
                       rbind (peek s 0 (io_size s)) (copy_to temp 0))
                     else Inr temp) (\<lambda>temp.
              Inr (True, s\<lparr>io_buf := BufHeap temp, io_maxsize := sz\<rparr>)))))"

text \<open>\<open>while (need > newsize) newsize *= 2;\<close>, \<open>None\<close> when it does not end.\<close>

function double_until :: "nat \<Rightarrow> nat \<Rightarrow> nat option" where
  "double_until need newsize =
     (if need > newsize then (if newsize = 0 then None else double_until need (newsize * 2)) else Some newsize)"
  by pat_completeness auto
termination by (relation "measure (\<lambda>(need, newsize). need - newsize)") auto

declare double_until.simps [simp del]

definition write_grow :: "mem_env \<Rightarrow> ios \<Rightarrow> u8 list \<Rightarrow> (nat \<times> ios) result" where
  "write_grow M s data =
     (let n = length data; fits = (\<lambda>s.
          rbind (poke s (io_bpos s) data) (\<lambda>s. Inr (n, s\<lparr>io_bpos := io_bpos s + n\<rparr>)))
      in if n = 0 then Inr (0, s)
      else if io_bpos s + n > io_size s then
        (if io_bpos s + n > io_maxsize s then
           rbind (returns (double_until (io_bpos s + n) (if io_maxsize s \<noteq> 0 then io_maxsize s * 2 else 8))) (\<lambda>newsize.
           rbind (buf_realloc M s newsize) (\<lambda>(ok, s).
             if \<not> ok then
               (let amt = io_maxsize s - io_bpos s in
                rbind (poke s (io_bpos s) (take amt data)) (\<lambda>s.
                Inr (amt, s\<lparr>io_bpos := io_bpos s + amt, io_size := io_maxsize s\<rparr>)))
             else fits (s\<lparr>io_size := io_bpos s + n\<rparr>)))
         else fits (s\<lparr>io_size := io_bpos s + n\<rparr>))
      else fits s)"

section \<open>Flushing and seeking\<close>

definition ios_flush :: "os \<Rightarrow> ios \<Rightarrow> (int \<times> os \<times> ios) result" where
  "ios_flush W s =
     (if io_ndirty s = 0 \<or> io_bm s = Bm_mem \<or> io_buf s = BufNull then Inr (0, W, s)
      else if io_fd s = - 1 then Inr (- 1, W, s)
      else
        (let W = (if io_state s = Bst_rd then snd (sys_lseek W (io_fd s) (- int (io_size s)) SEEK_CUR) else W);
             ntowrite = io_ndirty s; s = s\<lparr>io_fpos := - 1\<rparr>
         in rbind (peek s 0 ntowrite) (\<lambda>data.
            case os_write_all W (io_fd s) data of (err, nw, W) \<Rightarrow>
              rbind (if io_state s = Bst_rd then
                       Inr (snd (sys_lseek W (io_fd s) (int (io_size s) - int nw) SEEK_CUR), s)
                     else if io_state s = Bst_wr then
                       (let W = (if io_bpos s \<noteq> nw
                                 then snd (sys_lseek W (io_fd s) (int (io_bpos s) - int nw) SEEK_CUR) else W)
                        in rbind (if io_size s > io_ndirty s
                                  then rbind (peek s (io_ndirty s) (io_size s - io_ndirty s)) (poke s 0)
                                  else Inr s) (\<lambda>s.
                           Inr (W, s\<lparr>io_size := io_size s - io_ndirty s, io_bpos := 0\<rparr>)))
                     else Inr (W, s)) (\<lambda>(W, s).
              Inr (if err \<noteq> 0 then err else if nw < ntowrite then - 1 else 0, W, s\<lparr>io_ndirty := 0\<rparr>)))))"

definition ios_pos :: "os \<Rightarrow> ios \<Rightarrow> int \<times> os \<times> ios" where
  "ios_pos W s =
     (if io_bm s = Bm_mem then (int (io_bpos s), W, s)
      else
        (case (if io_fpos s = - 1 then sys_lseek W (io_fd s) 0 SEEK_CUR else (io_fpos s, W)) of (fdpos, W) \<Rightarrow>
           if fdpos = - 1 then (- 1, W, s)
           else
             (let s = s\<lparr>io_fpos := fdpos\<rparr> in
              (case io_state s of
                 Bst_wr \<Rightarrow> fdpos + int (io_bpos s)
               | Bst_rd \<Rightarrow> fdpos - (int (io_size s) - int (io_bpos s))
               | Bst_none \<Rightarrow> fdpos, W, s))))"

definition ios_seek :: "os \<Rightarrow> ios \<Rightarrow> int \<Rightarrow> (int \<times> os \<times> ios) result" where
  "ios_seek W s pos =
     (let s = s\<lparr>io_eof := False\<rparr> in
      if io_bm s = Bm_mem then
        (if pos < 0 \<or> pos > int (io_size s) then Inr (- 2, W, s)
         else Inr (0, W, s\<lparr>io_bpos := nat pos\<rparr>))
      else
        rbind (ios_flush W s) (\<lambda>(_, W, s).
          case sys_lseek W (io_fd s) pos SEEK_SET of (fdpos, W) \<Rightarrow>
            if fdpos = - 1 then Inr (- 1, W, s)
            else Inr (0, W, s\<lparr>io_fpos := fdpos, io_bpos := 0, io_size := 0\<rparr>)))"

definition ios_seek_end :: "os \<Rightarrow> ios \<Rightarrow> (int \<times> os \<times> ios) result" where
  "ios_seek_end W s =
     (let s = s\<lparr>io_eof := True\<rparr> in
      if io_bm s = Bm_mem then Inr (0, W, s\<lparr>io_bpos := io_size s\<rparr>)
      else
        rbind (ios_flush W s) (\<lambda>(_, W, s).
          case sys_lseek W (io_fd s) 0 SEEK_END of (fdpos, W) \<Rightarrow>
            if fdpos = - 1 then Inr (- 1, W, s)
            else Inr (0, W, s\<lparr>io_fpos := fdpos, io_bpos := 0, io_size := 0\<rparr>)))"

definition ios_skip :: "os \<Rightarrow> ios \<Rightarrow> int \<Rightarrow> (int \<times> os \<times> ios) result" where
  "ios_skip W s offs =
     (if offs = 0 then Inr (0, W, s)
      else if offs > 0 \<and> offs \<le> int (io_size s) - int (io_bpos s) then
        Inr (0, W, s\<lparr>io_bpos := io_bpos s + nat offs\<rparr>)
      else if offs < 0 \<and> - offs \<le> int (io_bpos s) then
        Inr (0, W, s\<lparr>io_bpos := io_bpos s - nat (- offs), io_eof := False\<rparr>)
      else if io_bm s = Bm_mem then Inr (- 2, W, s)
      else
        rbind (ios_flush W s) (\<lambda>(_, W, s).
          let offs = (case io_state s of
                        Bst_wr \<Rightarrow> offs + int (io_bpos s)
                      | Bst_rd \<Rightarrow> offs - (int (io_size s) - int (io_bpos s))
                      | Bst_none \<Rightarrow> offs)
          in case sys_lseek W (io_fd s) offs SEEK_CUR of (fdpos, W) \<Rightarrow>
            if fdpos = - 1 then Inr (- 1, W, s)
            else Inr (0, W, s\<lparr>io_fpos := fdpos, io_bpos := 0, io_size := 0, io_eof := False\<rparr>)))"

definition ios_filesize :: "os \<Rightarrow> ios \<Rightarrow> int \<times> os \<times> ios" where
  "ios_filesize W s =
     (case (if io_fpos s = - 1 then sys_lseek W (io_fd s) 0 SEEK_CUR else (io_fpos s, W)) of (fdpos, W) \<Rightarrow>
        if fdpos = - 1 then (- 1, W, s)
        else
          (case sys_lseek W (io_fd s) 0 SEEK_END of (sz, W) \<Rightarrow>
             (sz, snd (sys_lseek W (io_fd s) fdpos SEEK_SET), s\<lparr>io_fpos := fdpos\<rparr>)))"

definition ios_trunc :: "mem_env \<Rightarrow> os \<Rightarrow> ios \<Rightarrow> nat \<Rightarrow> (int \<times> os \<times> ios) result" where
  "ios_trunc M W s sz =
     (if io_bm s = Bm_mem then
        (if sz = io_size s then Inr (0, W, s)
         else if sz < io_size s then
           Inr (0, W, s\<lparr>io_bpos := (if io_bpos s > sz then sz else io_bpos s), io_size := sz\<rparr>)
         else rbind (buf_realloc M s sz) (\<lambda>(ok, s).
                if \<not> ok then Inr (0, W, s) else Inr (0, W, s\<lparr>io_size := sz\<rparr>)))
      else
        rbind (ios_flush W s) (\<lambda>(_, W, s).
          case (if io_state s = Bst_rd then
                  (case ios_pos W s of (p, W, s) \<Rightarrow>
                     if int sz < p + (int (io_size s) - int (io_bpos s))
                     then (W, s\<lparr>io_size := nat (int (io_size s) - (p + (int (io_size s) - int (io_bpos s)) - int sz))\<rparr>)
                     else (W, s))
                else (W, s)) of (W, s) \<Rightarrow>
            case sys_ftruncate W (io_fd s) sz of (r, W) \<Rightarrow> Inr (if r = 0 then 0 else 1, W, s)))"

section \<open>Reading\<close>

definition ios_readprep :: "mem_env \<Rightarrow> os \<Rightarrow> ios \<Rightarrow> nat \<Rightarrow> (nat \<times> os \<times> ios) result" where
  "ios_readprep M W s n =
     rbind (if io_state s = Bst_wr \<and> io_bm s \<noteq> Bm_mem
            then rbind (ios_flush W s) (\<lambda>(_, W, s). Inr (W, s\<lparr>io_bpos := 0, io_size := 0\<rparr>))
            else Inr (W, s)) (\<lambda>(W, s).
       let space = io_size s - io_bpos s; s = s\<lparr>io_state := Bst_rd\<rparr> in
       if space \<ge> n \<or> io_bm s = Bm_mem \<or> io_fd s = - 1 then Inr (space, W, s)
       else
         rbind (if io_maxsize s < io_bpos s + n then
                  (if n \<le> io_maxsize s \<and> space \<le> io_maxsize s div 4 then
                     rbind (if space > 0 then rbind (peek s (io_bpos s) space) (poke s 0) else Inr s) (\<lambda>s.
                     Inr (True, s\<lparr>io_size := io_size s - io_bpos s, io_bpos := 0\<rparr>))
                   else buf_realloc M s (io_bpos s + n))
                else Inr (True, s)) (\<lambda>(ok, s).
           if \<not> ok then Inr (space, W, s)
           else
             (let s = s\<lparr>io_fpos := - 1\<rparr> in
              case os_read W (io_fd s) (io_maxsize s - io_size s) of (result, bs, W) \<Rightarrow>
                if result \<noteq> 0 then Inr (space, W, s)
                else rbind (poke s (io_size s) bs) (\<lambda>s.
                  let s = s\<lparr>io_size := io_size s + length bs\<rparr> in
                  Inr (io_size s - io_bpos s, W, s)))))"

definition ios_fillbuf :: "mem_env \<Rightarrow> os \<Rightarrow> ios \<Rightarrow> (int \<times> os \<times> ios) result" where
  "ios_fillbuf M W s =
     (let nb = io_maxsize s - io_bpos s in
      rbind (ios_readprep M W s nb) (\<lambda>(got, W, s). Inr (if got < nb then int got else - 1, W, s)))"

text \<open>The loop of \<open>_ios_read\<close>.  Each turn but the first starts with bytes in the buffer and so
  lowers \<open>n\<close>; \<open>n + 2\<close> turns are enough.\<close>

fun ios_read_loop :: "nat \<Rightarrow> os \<Rightarrow> ios \<Rightarrow> nat \<Rightarrow> bool \<Rightarrow> bool \<Rightarrow> u8 list \<Rightarrow> (u8 list \<times> os \<times> ios) result" where
  "ios_read_loop 0 W s n all didread dest = Inl Diverges"
| "ios_read_loop (Suc fuel) W s n all didread dest =
     (if n = 0 then Inr (dest, W, s)
      else
        (let avail = io_size s - io_bpos s; ncopy = (if avail \<ge> n then n else avail) in
         rbind (peek s (io_bpos s) ncopy) (\<lambda>bs.
           let s = s\<lparr>io_bpos := io_bpos s + ncopy\<rparr>; dest = dest @ bs in
           if avail > 0 \<and> ncopy \<ge> n then Inr (dest, W, s)
           else if io_bm s = Bm_mem \<or> io_fd s = - 1 then
             Inr (dest, W, if avail = 0 then s\<lparr>io_eof := True\<rparr> else s)
           else
             (let n = n - avail in
              if didread \<and> \<not> all then Inr (dest, W, s)
              else
                rbind (ios_flush W s) (\<lambda>(_, W, s).
                  let s = s\<lparr>io_bpos := 0, io_size := 0, io_fpos := - 1\<rparr> in
                  if n > MOST_OF (io_maxsize s) then
                    (case (if all then os_read_all W (io_fd s) n else os_read W (io_fd s) n) of (_, got, W) \<Rightarrow>
                       Inr (dest @ got, W, if got = [] then s\<lparr>io_eof := True\<rparr> else s))
                  else
                    (case os_read W (io_fd s) (io_maxsize s) of (err, got, W) \<Rightarrow>
                       if err \<noteq> 0 \<or> got = [] then Inr (dest, W, s\<lparr>io_eof := True\<rparr>)
                       else rbind (poke s 0 got) (\<lambda>s.
                         ios_read_loop fuel W (s\<lparr>io_size := length got\<rparr>) n all True dest)))))))"

declare ios_read_loop.simps [simp del]

definition ios_read_impl :: "os \<Rightarrow> ios \<Rightarrow> nat \<Rightarrow> bool \<Rightarrow> (u8 list \<times> os \<times> ios) result" where
  "ios_read_impl W s n all =
     rbind (if io_state s = Bst_wr
            then (case ios_pos W s of (p, W, s) \<Rightarrow> rbind (ios_seek W s p) (\<lambda>(_, W, s). Inr (W, s)))
            else Inr (W, s)) (\<lambda>(W, s).
     ios_read_loop (n + 2) W (s\<lparr>io_state := Bst_rd\<rparr>) n all False [])"

definition ios_read :: "os \<Rightarrow> ios \<Rightarrow> nat \<Rightarrow> (u8 list \<times> os \<times> ios) result" where
  "ios_read W s n = ios_read_impl W s n False"

definition ios_readall :: "os \<Rightarrow> ios \<Rightarrow> nat \<Rightarrow> (u8 list \<times> os \<times> ios) result" where
  "ios_readall W s n = ios_read_impl W s n True"

section \<open>Writing\<close>

definition write_update_pos :: "ios \<Rightarrow> ios" where
  "write_update_pos s =
     (let s = (if io_bpos s > io_ndirty s then s\<lparr>io_ndirty := io_bpos s\<rparr> else s)
      in if io_bpos s > io_size s then s\<lparr>io_size := io_bpos s\<rparr> else s)"

definition ios_write_direct :: "os \<Rightarrow> ios \<Rightarrow> ios \<Rightarrow> (nat \<times> os \<times> ios) result" where
  "ios_write_direct W dest src =
     rbind (peek src 0 (io_size src)) (\<lambda>data.
       case os_write_all W (io_fd dest) data of (_, nwr, W) \<Rightarrow> Inr (nwr, W, dest\<lparr>io_fpos := - 1\<rparr>))"

text \<open>\<open>memrchr\<close>: the last occurrence of a byte.\<close>

definition memrchr :: "u8 list \<Rightarrow> u8 \<Rightarrow> nat option" where
  "memrchr data c =
     (if c \<in> set data then Some (length data - 1 - length (takeWhile (\<lambda>b. b \<noteq> c) (rev data))) else None)"

definition newline :: u8 where
  "newline = 10"

text \<open>\<open>ios_write\<close> calls itself for the lines of a line-buffered stream and again after a flush:
  three levels at most.\<close>

fun ios_write_rec :: "nat \<Rightarrow> mem_env \<Rightarrow> os \<Rightarrow> ios \<Rightarrow> u8 list \<Rightarrow> (nat \<times> os \<times> ios) result" where
  "ios_write_rec 0 M W s data = Inl Diverges"
| "ios_write_rec (Suc fuel) M W s data =
     (let n = length data in
      if \<not> io_writable s then Inr (0, W, s)
      else if n = 0 then Inr (0, W, s)
      else
        rbind (if io_state s = Bst_rd
               then (case ios_pos W s of (p, W, s) \<Rightarrow> rbind (ios_seek W s p) (\<lambda>(_, W, s). Inr (W, s)))
               else Inr (W, s)) (\<lambda>(W, s).
          let s = s\<lparr>io_state := Bst_wr\<rparr>; space = io_maxsize s - io_bpos s in
          if io_bm s = Bm_mem then
            rbind (write_grow M s data) (\<lambda>(wrote, s). Inr (wrote, W, write_update_pos s))
          else if io_bm s = Bm_none then
            (case os_write_all W (io_fd s) data of (_, wrote, W) \<Rightarrow> Inr (wrote, W, s\<lparr>io_fpos := - 1\<rparr>))
          else if n \<le> space then
            rbind (if io_bm s = Bm_line then
                     (case memrchr data newline of
                        None \<Rightarrow> Inr (0, data, W, s)
                      | Some nl \<Rightarrow>
                          (let linesz = nl + 1 in
                           rbind (ios_write_rec fuel M W (s\<lparr>io_bm := Bm_block\<rparr>) (take linesz data)) (\<lambda>(wrote, W, s).
                           rbind (ios_flush W s) (\<lambda>(_, W, s).
                           Inr (wrote, drop linesz data, W, s\<lparr>io_bm := Bm_line\<rparr>)))))
                   else Inr (0, data, W, s)) (\<lambda>(wrote, data, W, s).
              rbind (poke s (io_bpos s) data) (\<lambda>s.
              Inr (wrote + length data, W, write_update_pos (s\<lparr>io_bpos := io_bpos s + length data\<rparr>))))
          else
            rbind (ios_flush W s) (\<lambda>(_, W, s).
              if n > MOST_OF (io_maxsize s) then
                (case os_write_all W (io_fd s) data of (_, wrote, W) \<Rightarrow> Inr (wrote, W, s\<lparr>io_fpos := - 1\<rparr>))
              else ios_write_rec fuel M W s data)))"

definition ios_write :: "mem_env \<Rightarrow> os \<Rightarrow> ios \<Rightarrow> u8 list \<Rightarrow> (nat \<times> os \<times> ios) result" where
  "ios_write M W s data = ios_write_rec 3 M W s data"

section \<open>State of a stream\<close>

definition ios_eof :: "ios \<Rightarrow> bool" where
  "ios_eof s =
     (if io_state s = Bst_rd \<and> io_bpos s < io_size s then False
      else if io_eof s then True
      else if io_bm s = Bm_mem then False
      else io_fd s = - 1)"

definition ios_reseteof :: "ios \<Rightarrow> ios" where
  "ios_reseteof s = (if io_bm s \<noteq> Bm_mem \<and> io_fd s \<noteq> - 1 then s\<lparr>io_eof := False\<rparr> else s)"

definition ios_eof_blocking :: "mem_env \<Rightarrow> os \<Rightarrow> ios \<Rightarrow> (bool \<times> os \<times> ios) result" where
  "ios_eof_blocking M W s =
     (if io_state s = Bst_rd \<and> io_bpos s < io_size s then Inr (False, W, s)
      else if io_bm s = Bm_mem then Inr (io_eof s, W, s)
      else if io_fd s = - 1 then Inr (True, W, s)
      else rbind (ios_readprep M W s 1) (\<lambda>(n, W, s). Inr (n < 1, W, s)))"

definition ios_close :: "os \<Rightarrow> ios \<Rightarrow> (int \<times> os \<times> ios) result" where
  "ios_close W s =
     rbind (ios_flush W s) (\<lambda>(err, W, s).
       case (if io_fd s \<noteq> - 1 \<and> io_ownfd s
             then (case sys_close W (io_fd s) of (err2, W) \<Rightarrow> (if err2 \<noteq> 0 then err2 else err, W))
             else (err, W)) of (err, W) \<Rightarrow>
         Inr (err, W, s\<lparr>io_fd := - 1, io_buf := BufNull, io_size := 0, io_maxsize := 0, io_bpos := 0\<rparr>))"

definition ios_isopen :: "ios \<Rightarrow> bool" where
  "ios_isopen s \<longleftrightarrow> io_fd s \<noteq> - 1"

definition buf_init :: "mem_env \<Rightarrow> ios \<Rightarrow> bufmode \<Rightarrow> ios result" where
  "buf_init M s bm =
     (let s = s\<lparr>io_bm := bm\<rparr> in
      rbind (if bm = Bm_mem \<or> bm = Bm_none
             then Inr (s\<lparr>io_buf := BufLocal, io_maxsize := IOS_INLSIZE\<rparr>)
             else rbind (buf_realloc M (s\<lparr>io_buf := BufNull, io_maxsize := 0\<rparr>) IOS_BUFSIZE) (\<lambda>(_, s). Inr s)) (\<lambda>s.
      Inr (s\<lparr>io_size := 0, io_bpos := 0\<rparr>)))"

text \<open>The buffer handed to the caller, with its terminating zero; \<open>None\<close> when memory is short.\<close>

definition ios_take_buffer :: "mem_env \<Rightarrow> os \<Rightarrow> ios \<Rightarrow> (u8 list option \<times> os \<times> ios) result" where
  "ios_take_buffer M W s =
     rbind (ios_flush W s) (\<lambda>(_, W, s).
     rbind (if io_buf s = BufLocal \<or> io_buf s = BufNull \<or> (\<not> io_ownbuf s \<and> io_size s = io_maxsize s) then
              (case llt_alloc M (io_size s + 1) of
                 None \<Rightarrow> Inr None
               | Some buf \<Rightarrow>
                   if io_size s > 0 then
                     rbind (assert_that (io_buf s \<noteq> BufNull)) (\<lambda>_.
                     rbind (peek s 0 (io_size s)) (\<lambda>bs. rbind (copy_to buf 0 bs) (\<lambda>b. Inr (Some b))))
                   else Inr (Some buf))
            else if io_size s = io_maxsize s then Inr (llt_realloc M (io_bytes s) (io_size s + 1))
            else Inr (Some (io_bytes s))) (\<lambda>r.
       case r of
         None \<Rightarrow> Inr (None, W, s)
       | Some buf \<Rightarrow>
           rbind (copy_to buf (io_size s) [0]) (\<lambda>buf.
           rbind (buf_init M s (io_bm s)) (\<lambda>s'.
           Inr (Some (take (io_size s + 1) buf), W, s')))))"

definition ios_setbuf :: "os \<Rightarrow> ios \<Rightarrow> u8 list \<Rightarrow> bool \<Rightarrow> (int \<times> os \<times> ios) result" where
  "ios_setbuf W s buf own =
     rbind (ios_flush W s) (\<lambda>(_, W, s).
       let sz = length buf; nvalid = (if sz < io_size s then sz else io_size s) in
       rbind (if nvalid > 0 then rbind (peek s 0 nvalid) (copy_to buf 0) else Inr buf) (\<lambda>buf.
       Inr (0, W, s\<lparr>io_bpos := (if io_bpos s > nvalid then nvalid else io_bpos s), io_size := nvalid,
                    io_buf := BufHeap buf, io_maxsize := sz, io_ownbuf := own\<rparr>)))"

definition ios_bufmode :: "ios \<Rightarrow> bufmode \<Rightarrow> int \<times> ios" where
  "ios_bufmode s mode =
     (if io_fd s = - 1 \<and> mode \<noteq> Bm_mem then (- 1, s) else (0, s\<lparr>io_bm := mode\<rparr>))"

definition ios_set_readonly :: "os \<Rightarrow> ios \<Rightarrow> (os \<times> ios) result" where
  "ios_set_readonly W s =
     (if \<not> io_writable s then Inr (W, s)
      else rbind (ios_flush W s) (\<lambda>(_, W, s). Inr (W, s\<lparr>io_state := Bst_none, io_writable := False\<rparr>)))"

section \<open>Copying between streams\<close>

text \<open>The two loops may run as long as data arrives: \<open>None\<close> when they do not end.\<close>

partial_function (option) ios_copy_loop ::
  "mem_env \<Rightarrow> os \<Rightarrow> ios \<Rightarrow> ios \<Rightarrow> nat \<Rightarrow> bool \<Rightarrow> nat \<Rightarrow> (nat \<times> os \<times> ios \<times> ios) result option" where
  "ios_copy_loop M W to from nbytes all tot =
     (case ios_readprep M W from (IOS_BUFSIZE div 2) of
        Inl e \<Rightarrow> Some (Inl e)
      | Inr (avail, W, from) \<Rightarrow>
          if avail = 0 then Some (Inr (tot, W, to, from\<lparr>io_eof := True\<rparr>))
          else
            (let ntowrite = (if avail \<le> nbytes \<or> all then avail else nbytes) in
             case rbind (peek from (io_bpos from) ntowrite) (ios_write M W to) of
               Inl e \<Rightarrow> Some (Inl e)
             | Inr (written, W, to) \<Rightarrow>
                 (let from = from\<lparr>io_bpos := io_bpos from + ntowrite\<rparr>; tot = tot + written;
                      nbytes = (if all then nbytes else nbytes - written)
                  in if (\<not> all \<and> nbytes = 0) \<or> written < ntowrite \<or> ios_eof from
                     then Some (Inr (tot, W, to, from))
                     else ios_copy_loop M W to from nbytes all tot)))"

definition ios_copy_impl ::
  "mem_env \<Rightarrow> os \<Rightarrow> ios \<Rightarrow> ios \<Rightarrow> nat \<Rightarrow> bool \<Rightarrow> (nat \<times> os \<times> ios \<times> ios) result" where
  "ios_copy_impl M W to from nbytes all =
     (if ios_eof from then Inr (0, W, to, from)
      else rbind (returns (ios_copy_loop M W to from nbytes all 0)) (\<lambda>r. r))"

definition ios_copy :: "mem_env \<Rightarrow> os \<Rightarrow> ios \<Rightarrow> ios \<Rightarrow> nat \<Rightarrow> (nat \<times> os \<times> ios \<times> ios) result" where
  "ios_copy M W to from nbytes = ios_copy_impl M W to from nbytes False"

definition ios_copyall :: "mem_env \<Rightarrow> os \<Rightarrow> ios \<Rightarrow> ios \<Rightarrow> (nat \<times> os \<times> ios \<times> ios) result" where
  "ios_copyall M W to from = ios_copy_impl M W to from 0 True"

definition memchr :: "u8 list \<Rightarrow> u8 \<Rightarrow> nat option" where
  "memchr data c = (if c \<in> set data then Some (length (takeWhile (\<lambda>b. b \<noteq> c) data)) else None)"

partial_function (option) ios_copyuntil_loop ::
  "mem_env \<Rightarrow> os \<Rightarrow> ios \<Rightarrow> ios \<Rightarrow> u8 \<Rightarrow> bool \<Rightarrow> nat \<Rightarrow> nat \<Rightarrow> (nat \<times> os \<times> ios \<times> ios) result option" where
  "ios_copyuntil_loop M W to from delim keep avail tot =
     (if ios_eof from then Some (Inr (tot, W, to, from\<lparr>io_eof := True\<rparr>))
      else
        (case (if avail = 0 then ios_readprep M W from LINE_CHUNK_SIZE else Inr (avail, W, from)) of
           Inl e \<Rightarrow> Some (Inl e)
         | Inr (avail, W, from) \<Rightarrow>
             if avail = 0 then Some (Inr (tot, W, to, from\<lparr>io_eof := True\<rparr>))
             else
               (case peek from (io_bpos from) avail of
                  Inl e \<Rightarrow> Some (Inl e)
                | Inr bs \<Rightarrow>
                    (case memchr bs delim of
                       None \<Rightarrow>
                         (case ios_write M W to bs of
                            Inl e \<Rightarrow> Some (Inl e)
                          | Inr (written, W, to) \<Rightarrow>
                              ios_copyuntil_loop M W to (from\<lparr>io_bpos := io_bpos from + avail\<rparr>)
                                delim keep 0 (tot + written))
                     | Some pd \<Rightarrow>
                         (let ntowrite = pd + of_bool keep in
                          case ios_write M W to (take ntowrite bs) of
                            Inl e \<Rightarrow> Some (Inl e)
                          | Inr (written, W, to) \<Rightarrow>
                              Some (Inr (tot + written, W, to,
                                from\<lparr>io_bpos := io_bpos from + (ntowrite + of_bool (\<not> keep))\<rparr>)))))))"

definition ios_copyuntil ::
  "mem_env \<Rightarrow> os \<Rightarrow> ios \<Rightarrow> ios \<Rightarrow> u8 \<Rightarrow> bool \<Rightarrow> (nat \<times> os \<times> ios \<times> ios) result" where
  "ios_copyuntil M W to from delim keep =
     rbind (returns (ios_copyuntil_loop M W to from delim keep (io_size from - io_bpos from) 0)) (\<lambda>r. r)"

definition ios_nchomp :: "ios \<Rightarrow> nat \<Rightarrow> nat result" where
  "ios_nchomp from ntowrite =
     rbind (assert_that (ntowrite > 0)) (\<lambda>_.
       if ntowrite > 1 then
         rbind (rget (io_bytes from) (io_bpos from + ntowrite - 2)) (\<lambda>c. Inr (if c = 13 then 2 else 1))
       else Inr 1)"

section \<open>Creating streams\<close>

text \<open>\<open>local\<close> is what the fresh object holds in its inline array.\<close>

definition ios_init :: "u8 list \<Rightarrow> ios" where
  "ios_init local =
     \<lparr>io_buf = BufNull, io_bm = Bm_block, io_state = Bst_none, io_maxsize = 0, io_size = 0, io_bpos = 0,
      io_ndirty = 0, io_fpos = - 1, io_lineno = 1, io_u_colno = 0, io_fd = - 1, io_readable = True,
      io_writable = True, io_ownbuf = True, io_ownfd = False, io_eof = False, io_rereadable = False,
      io_growable = True, io_local = local\<rparr>"

definition ios_mem :: "mem_env \<Rightarrow> u8 list \<Rightarrow> nat \<Rightarrow> ios result" where
  "ios_mem M local initsize =
     rbind (buf_realloc M ((ios_init local)\<lparr>io_bm := Bm_mem, io_rereadable := True\<rparr>) initsize) (\<lambda>(_, s). Inr s)"

definition ios_str :: "mem_env \<Rightarrow> os \<Rightarrow> u8 list \<Rightarrow> u8 list \<Rightarrow> (os \<times> ios) result" where
  "ios_str M W local str =
     rbind (ios_mem M local (length str + 1)) (\<lambda>s.
     rbind (ios_write M W s (str @ [0])) (\<lambda>(_, W, s).
     rbind (ios_seek W s 0) (\<lambda>(_, W, s). Inr (W, s))))"

definition ios_static_buffer :: "mem_env \<Rightarrow> os \<Rightarrow> u8 list \<Rightarrow> u8 list \<Rightarrow> (os \<times> ios) result" where
  "ios_static_buffer M W local buf =
     rbind (ios_mem M local 0) (\<lambda>s.
     rbind (ios_setbuf W s buf False) (\<lambda>(_, W, s).
     ios_set_readonly W (s\<lparr>io_size := length buf\<rparr>)))"

definition ios_fd :: "mem_env \<Rightarrow> u8 list \<Rightarrow> int \<Rightarrow> bool \<Rightarrow> bool \<Rightarrow> ios result" where
  "ios_fd M local fd isfile own =
     rbind (buf_init M ((ios_init local)\<lparr>io_fd := fd, io_rereadable := isfile\<rparr>) Bm_block) (\<lambda>s.
       let s = s\<lparr>io_ownfd := own\<rparr>;
           s = (if fd = 2 then s\<lparr>io_bm := Bm_none\<rparr> else s)
       in Inr (if fd = 1 then s\<lparr>io_bm := Bm_line\<rparr> else s))"

section \<open>Characters\<close>

definition ios_putc :: "mem_env \<Rightarrow> os \<Rightarrow> ios \<Rightarrow> u8 \<Rightarrow> (nat \<times> os \<times> ios) result" where
  "ios_putc M W s ch =
     (if io_state s = Bst_wr \<and> io_bpos s < io_maxsize s \<and> io_bm s \<noteq> Bm_none then
        rbind (poke s (io_bpos s) [ch]) (\<lambda>s.
          let s = write_update_pos (s\<lparr>io_bpos := io_bpos s + 1\<rparr>) in
          if io_bm s = Bm_line \<and> ch = newline
          then rbind (ios_flush W s) (\<lambda>(_, W, s). Inr (1, W, s)) else Inr (1, W, s))
      else ios_write M W s [ch])"

definition count_line :: "u8 \<Rightarrow> ios \<Rightarrow> ios" where
  "count_line ch s = (if ch = newline then s\<lparr>io_lineno := io_lineno s + 1\<rparr> else s)"

definition ios_getc :: "os \<Rightarrow> ios \<Rightarrow> (int \<times> os \<times> ios) result" where
  "ios_getc W s =
     (if io_state s = Bst_rd \<and> io_bpos s < io_size s then
        rbind (rget (io_bytes s) (io_bpos s)) (\<lambda>ch.
        Inr (uint ch, W, count_line ch (s\<lparr>io_bpos := io_bpos s + 1\<rparr>)))
      else if io_eof s then Inr (IOS_EOF, W, s)
      else
        rbind (ios_read W s 1) (\<lambda>(bs, W, s).
          case bs of [] \<Rightarrow> Inr (IOS_EOF, W, s) | ch # _ \<Rightarrow> Inr (uint ch, W, count_line ch s)))"

definition ios_peekc :: "mem_env \<Rightarrow> os \<Rightarrow> ios \<Rightarrow> (int \<times> os \<times> ios) result" where
  "ios_peekc M W s =
     (if io_bpos s < io_size s then
        rbind (rget (io_bytes s) (io_bpos s)) (\<lambda>ch. Inr (uint ch, W, s))
      else if io_eof s then Inr (IOS_EOF, W, s)
      else
        rbind (ios_readprep M W s 1) (\<lambda>(n, W, s).
          if n = 0 then Inr (IOS_EOF, W, s)
          else rbind (rget (io_bytes s) (io_bpos s)) (\<lambda>ch. Inr (uint ch, W, s))))"

definition ios_ungetc :: "mem_env \<Rightarrow> u8 \<Rightarrow> ios \<Rightarrow> (int \<times> ios) result" where
  "ios_ungetc M c s =
     (if io_state s = Bst_wr then Inr (IOS_EOF, s)
      else
        (let s = (if c = newline then s\<lparr>io_lineno := io_lineno s - 1\<rparr> else s);
             s = (if io_u_colno s > 0 then s\<lparr>io_u_colno := io_u_colno s - 1\<rparr> else s)
         in if io_bpos s > 0 then
              rbind (poke s (io_bpos s - 1) [c]) (\<lambda>s.
              Inr (uint c, s\<lparr>io_bpos := io_bpos s - 1, io_eof := False\<rparr>))
            else
              rbind (if io_size s = io_maxsize s then buf_realloc M s (io_maxsize s * 2) else Inr (True, s)) (\<lambda>(ok, s).
                if \<not> ok then Inr (IOS_EOF, s)
                else
                  rbind (peek s 0 (io_size s)) (\<lambda>bs.
                  rbind (poke s 0 (c # bs)) (\<lambda>s.
                  Inr (uint c, s\<lparr>io_size := io_size s + 1, io_eof := False\<rparr>))))))"

text \<open>\<open>utf8proc_charwidth\<close> is a parameter, as in the theory of strings; the character is \<open>None\<close>
  when the call does not deliver one.\<close>

definition ios_getutf8 ::
  "mem_env \<Rightarrow> (u32 \<Rightarrow> nat) \<Rightarrow> os \<Rightarrow> ios \<Rightarrow> (int \<times> u32 option \<times> os \<times> ios) result" where
  "ios_getutf8 M charwidth W s =
     rbind (ios_peekc M W s) (\<lambda>(c, W, s).
       if c = IOS_EOF then Inr (IOS_EOF, None, W, s\<lparr>io_eof := True\<rparr>)
       else
         (let c0 = word_of_int c :: u8 in
          if c0 < 0x80 then
            rbind (ios_getc W s) (\<lambda>(_, W, s).
            Inr (1, Some (ucast c0), W,
                 if c0 = newline then s\<lparr>io_u_colno := 0\<rparr>
                 else s\<lparr>io_u_colno := io_u_colno s + of_nat (charwidth (ucast c0))\<rparr>))
          else
            (let sz = u8_seqlen c0 in
             if \<not> isutf c0 \<or> sz > 4 then Inr (0, None, W, s)
             else
               rbind (ios_readprep M W s sz) (\<lambda>(n, W, s).
                 if n < sz then Inr (IOS_EOF, None, W, s)
                 else
                   rbind (peek s (io_bpos s) sz) (\<lambda>bs.
                     let valid = u8_isvalid bs in
                     if valid \<noteq> 0 then
                       rbind (u8_nextchar (io_bytes s) (io_bpos s)) (\<lambda>(wc, _).
                       rbind (ios_read W (s\<lparr>io_u_colno := io_u_colno s + of_nat (charwidth wc)\<rparr>) sz) (\<lambda>(_, W, s).
                       Inr (int valid, Some wc, W, s)))
                     else Inr (0, None, W, s))))))"

definition ios_peekutf8 ::
  "mem_env \<Rightarrow> os \<Rightarrow> ios \<Rightarrow> (int \<times> u32 option \<times> os \<times> ios) result" where
  "ios_peekutf8 M W s =
     rbind (ios_peekc M W s) (\<lambda>(c, W, s).
       if c = IOS_EOF then Inr (IOS_EOF, None, W, s)
       else
         (let c0 = word_of_int c :: u8 in
          if c0 < 0x80 then Inr (1, Some (ucast c0), W, s)
          else
            (let sz = u8_seqlen c0 in
             if \<not> isutf c0 \<or> sz > 4 then Inr (0, None, W, s)
             else
               rbind (ios_readprep M W s sz) (\<lambda>(n, W, s).
                 if n < sz then Inr (IOS_EOF, None, W, s)
                 else
                   rbind (peek s (io_bpos s) sz) (\<lambda>bs.
                     let valid = u8_isvalid bs in
                     if valid \<noteq> 0 then
                       rbind (u8_nextchar (io_bytes s) (io_bpos s)) (\<lambda>(wc, _).
                       Inr (int valid, Some wc, W, s))
                     else Inr (0, None, W, s))))))"

definition ios_pututf8 :: "mem_env \<Rightarrow> os \<Rightarrow> ios \<Rightarrow> u32 \<Rightarrow> (nat \<times> os \<times> ios) result" where
  "ios_pututf8 M W s wc =
     (if wc < 0x80 then ios_putc M W s (ucast wc) else ios_write M W s (u8_toutf8 8 [wc]))"

definition ios_purge :: "ios \<Rightarrow> ios" where
  "ios_purge s = (if io_state s = Bst_rd then s\<lparr>io_bpos := io_size s\<rparr> else s)"

definition ios_readline :: "mem_env \<Rightarrow> os \<Rightarrow> u8 list \<Rightarrow> ios \<Rightarrow> (u8 list option \<times> os \<times> ios) result" where
  "ios_readline M W local s =
     rbind (ios_mem M local 0) (\<lambda>dest.
     rbind (ios_copyuntil M W dest s newline True) (\<lambda>(_, W, dest, s).
     rbind (ios_take_buffer M W dest) (\<lambda>(ret, W, dest).
     rbind (ios_close W dest) (\<lambda>(_, W, dest).
     Inr (ret, W, s)))))"

end
