(* ===== verification/IosMem.thy ===== *)
theory IosMem
  imports Ios
begin

text \<open>
  Memory streams.  The comment of \<open>ios.h\<close> says that mixed reads and writes on them are
  ``equivalent to performing sequences of *p++''; here that is a byte list with a cursor, and
  the stream operations refine it under every sequence of calls.
\<close>

section \<open>Well-formed memory streams\<close>

definition mem_wf :: "ios \<Rightarrow> bool" where
  "mem_wf s \<longleftrightarrow> io_bm s = Bm_mem \<and> io_bpos s \<le> io_size s \<and> io_size s \<le> io_maxsize s \<and>
     io_maxsize s \<le> length (io_bytes s) \<and> length (io_local s) = IOS_INLSIZE \<and> io_growable s"

definition mem_data :: "ios \<Rightarrow> u8 list" where
  "mem_data s = take (io_size s) (io_bytes s)"

definition overwrite :: "u8 list \<Rightarrow> nat \<Rightarrow> u8 list \<Rightarrow> u8 list" where
  "overwrite xs p data = take p xs @ data @ drop (p + length data) xs"

definition roomy_mem :: "mem_env \<Rightarrow> bool" where
  "roomy_mem M \<longleftrightarrow> (\<forall>n. can_alloc M n)"

lemma mem_data_length: "mem_wf s \<Longrightarrow> length (mem_data s) = io_size s"
  by (simp add: mem_wf_def mem_data_def)

section \<open>The buffer\<close>

lemma io_bytes_upd [simp]:
  "io_bytes (s\<lparr>io_bm := a\<rparr>) = io_bytes s"
  "io_bytes (s\<lparr>io_state := b\<rparr>) = io_bytes s"
  "io_bytes (s\<lparr>io_maxsize := c\<rparr>) = io_bytes s"
  "io_bytes (s\<lparr>io_size := d\<rparr>) = io_bytes s"
  "io_bytes (s\<lparr>io_bpos := e\<rparr>) = io_bytes s"
  "io_bytes (s\<lparr>io_ndirty := f\<rparr>) = io_bytes s"
  "io_bytes (s\<lparr>io_fpos := g\<rparr>) = io_bytes s"
  "io_bytes (s\<lparr>io_lineno := h\<rparr>) = io_bytes s"
  "io_bytes (s\<lparr>io_u_colno := i\<rparr>) = io_bytes s"
  "io_bytes (s\<lparr>io_eof := j\<rparr>) = io_bytes s"
  "io_bytes (s\<lparr>io_ownbuf := k\<rparr>) = io_bytes s"
  "io_bytes (s\<lparr>io_ownfd := l\<rparr>) = io_bytes s"
  "io_bytes (s\<lparr>io_buf := BufHeap bs\<rparr>) = bs"
  "io_bytes (s\<lparr>io_buf := BufLocal\<rparr>) = io_local s"
  by (simp_all add: io_bytes_def split: ios_buf.split)

lemma put_bytes_io:
  assumes "io_bytes s \<noteq> []"
  shows "io_bytes (put_bytes s b) = b" "length b = length (io_bytes s) \<Longrightarrow> length (io_local (put_bytes s b)) = length (io_local s)"
  using assms by (auto simp: put_bytes_def io_bytes_def split: ios_buf.splits)

lemma put_bytes_fields [simp]:
  "io_bm (put_bytes s b) = io_bm s" "io_state (put_bytes s b) = io_state s"
  "io_maxsize (put_bytes s b) = io_maxsize s" "io_size (put_bytes s b) = io_size s"
  "io_bpos (put_bytes s b) = io_bpos s" "io_ndirty (put_bytes s b) = io_ndirty s"
  "io_fpos (put_bytes s b) = io_fpos s" "io_fd (put_bytes s b) = io_fd s"
  "io_writable (put_bytes s b) = io_writable s" "io_growable (put_bytes s b) = io_growable s"
  "io_eof (put_bytes s b) = io_eof s"
  by (simp_all add: put_bytes_def split: ios_buf.splits)

lemma put_bytes_buf: "io_buf (put_bytes s b) = BufNull \<longleftrightarrow> io_buf s = BufNull"
  by (simp add: put_bytes_def split: ios_buf.splits)

text \<open>Poking within the extent succeeds; it changes the bytes and nothing else.\<close>

lemma poke_ok:
  assumes "off + length data \<le> length (io_bytes s)" "data \<noteq> []"
  obtains s' where "poke s off data = Inr s'" "io_bytes s' = overwrite (io_bytes s) off data"
    "s' = put_bytes s (io_bytes s')" "length (io_local s') = length (io_local s)"
proof -
  let ?b = "overwrite (io_bytes s) off data"
  have ne: "io_bytes s \<noteq> []" using assms by auto
  have len: "length ?b = length (io_bytes s)" using assms by (simp add: overwrite_def)
  show ?thesis
    using that [of "put_bytes s ?b"] put_bytes_io [OF ne] len assms(1)
    by (simp add: poke_def copy_to_def overwrite_def)
qed

lemma length_overwrite: "p + length data \<le> length xs \<Longrightarrow> length (overwrite xs p data) = length xs"
  by (simp add: overwrite_def)

lemma take_overwrite:
  assumes "p + length data \<le> n" "n \<le> length xs"
  shows "take n (overwrite xs p data) = overwrite (take n xs) p data"
proof -
  have "min n p = p" "min (length xs) p = p" "min p n = p" "length data \<le> n - p" using assms by auto
  then show ?thesis by (simp add: overwrite_def drop_take)
qed

lemma overwrite_beyond:
  "p \<le> m \<Longrightarrow> m \<le> p + length data \<Longrightarrow> p + length data \<le> length xs \<Longrightarrow>
   take (p + length data) (overwrite xs p data) = overwrite (take m xs) p data"
  by (cases data) (auto simp: overwrite_def min_def)

lemma double_until_ge:
  "n > 0 \<Longrightarrow> \<exists>r. double_until need n = Some r \<and> need \<le> r \<and> n \<le> r"
proof (induction need n rule: double_until.induct)
  case (1 need n)
  show ?case
  proof (cases "need > n")
    case True
    then obtain r where "double_until need (n * 2) = Some r" "need \<le> r" "n * 2 \<le> r"
      using 1 by fastforce
    then show ?thesis using True 1(2) by (subst double_until.simps) auto
  next
    case False
    then show ?thesis by (subst double_until.simps) auto
  qed
qed

lemma buf_realloc_mem:
  assumes wf: "mem_wf s" and M: "roomy_mem M" and sz: "sz > io_maxsize s"
  obtains s' where "buf_realloc M s sz = Inr (True, s')" "mem_wf s'" "sz \<le> io_maxsize s'"
    "mem_data s' = mem_data s" "io_bpos s' = io_bpos s" "io_size s' = io_size s" "io_state s' = io_state s"
    "io_writable s' = io_writable s" "io_eof s' = io_eof s" "io_fd s' = io_fd s"
proof (cases "(io_buf s = BufNull \<or> io_buf s = BufLocal) \<and> sz \<le> IOS_INLSIZE")
  case True
  have "mem_data (s\<lparr>io_buf := BufLocal, io_maxsize := IOS_INLSIZE, io_ownbuf := True\<rparr>) = mem_data s"
    using True wf by (auto simp: mem_data_def mem_wf_def io_bytes_def)
  then show ?thesis
    using that [of "s\<lparr>io_buf := BufLocal, io_maxsize := IOS_INLSIZE, io_ownbuf := True\<rparr>"] True wf sz
    by (simp add: buf_realloc_def mem_wf_def)
next
  case False
  show ?thesis
  proof (cases "io_ownbuf s \<and> io_buf s \<noteq> BufLocal")
    case own: True
    define temp where "temp = take sz (io_bytes s) @ map (junk_byte M) [length (io_bytes s) ..< sz]"
    have len: "length temp = sz" by (simp add: temp_def)
    have "take (io_size s) temp = take (io_size s) (io_bytes s)"
      using wf sz by (simp add: temp_def mem_wf_def min_def)
    moreover have "llt_realloc M (io_bytes s) sz = Some temp"
      using M by (simp add: llt_realloc_def roomy_mem_def temp_def)
    then have "buf_realloc M s sz = Inr (True, s\<lparr>io_buf := BufHeap temp, io_maxsize := sz\<rparr>)"
      using False own wf sz by (auto simp: buf_realloc_def mem_wf_def)
    ultimately show ?thesis
      using that [of "s\<lparr>io_buf := BufHeap temp, io_maxsize := sz\<rparr>"] wf sz len
      by (auto simp: mem_wf_def mem_data_def)
  next
    case notown: False
    define temp where "temp = overwrite (map (junk_byte M) [0 ..< sz]) 0 (mem_data s)"
    have lt: "io_size s \<le> sz" using wf sz by (simp add: mem_wf_def)
    have len: "length temp = sz" using lt mem_data_length [OF wf] by (simp add: temp_def overwrite_def)
    have tk: "take (io_size s) temp = mem_data s"
      using mem_data_length [OF wf] by (simp add: temp_def overwrite_def)
    have nn: "io_buf s \<noteq> BufNull" if "io_size s > 0"
      using that wf by (auto simp: mem_wf_def io_bytes_def)
    have pk: "peek (s\<lparr>io_ownbuf := True\<rparr>) 0 (io_size s) = Inr (mem_data s)"
      using wf by (simp add: peek_def copy_from_def mem_wf_def mem_data_def)
    have cp: "copy_to (map (junk_byte M) [0 ..< sz]) 0 (mem_data s) = Inr temp"
      using lt mem_data_length [OF wf] by (simp add: copy_to_def temp_def overwrite_def)
    have z: "temp = map (junk_byte M) [0 ..< sz]" if "io_size s = 0"
      using that by (simp add: temp_def overwrite_def mem_data_def)
    have "buf_realloc M s sz = Inr (True, s\<lparr>io_ownbuf := True, io_buf := BufHeap temp, io_maxsize := sz\<rparr>)"
      using False notown wf M sz pk cp nn z
      by (cases "io_size s = 0") (auto simp: buf_realloc_def mem_wf_def llt_alloc_def roomy_mem_def)
    then show ?thesis
      using that [of "s\<lparr>io_ownbuf := True, io_buf := BufHeap temp, io_maxsize := sz\<rparr>"] wf len tk lt
      by (auto simp: mem_wf_def mem_data_def)
  qed
qed

lemma mem_wf_update:
  assumes "mem_wf s" "io_size s \<le> n" "n \<le> io_maxsize s" "p \<le> n"
  shows "mem_wf (s\<lparr>io_size := n, io_bpos := p\<rparr>)"
  using assms by (simp add: mem_wf_def)

text \<open>Storing within the allocated extent: the data become the overwritten ones.\<close>

lemma store_mem:
  assumes wf: "mem_wf s" and fits: "io_bpos s + length data \<le> io_maxsize s" and ne: "data \<noteq> []"
  obtains s' where
    "poke (s\<lparr>io_size := max (io_size s) (io_bpos s + length data)\<rparr>) (io_bpos s) data = Inr s'"
    "mem_wf (s'\<lparr>io_bpos := io_bpos s' + length data\<rparr>)"
    "mem_data s' = overwrite (mem_data s) (io_bpos s) data"
    "io_bpos s' = io_bpos s" "io_size s' = max (io_size s) (io_bpos s + length data)"
    "io_state s' = io_state s" "io_writable s' = io_writable s" "io_eof s' = io_eof s" "io_fd s' = io_fd s"
proof -
  let ?n = "max (io_size s) (io_bpos s + length data)"
  let ?s = "s\<lparr>io_size := ?n\<rparr>"
  have ext: "io_bpos s + length data \<le> length (io_bytes ?s)" using wf fits by (simp add: mem_wf_def)
  obtain s' where s': "poke ?s (io_bpos s) data = Inr s'"
      "io_bytes s' = overwrite (io_bytes ?s) (io_bpos s) data" "s' = put_bytes ?s (io_bytes s')"
      "length (io_local s') = length (io_local ?s)"
    using poke_ok [OF ext ne] by blast
  have f: "io_bm s' = io_bm s" "io_bpos s' = io_bpos s" "io_size s' = ?n" "io_maxsize s' = io_maxsize s"
      "io_growable s' = io_growable s" "io_state s' = io_state s" "io_writable s' = io_writable s" "io_eof s' = io_eof s"
      "io_fd s' = io_fd s"
    by (subst s'(3), simp)+
  have "mem_data s' = overwrite (mem_data s) (io_bpos s) data"
  proof (cases "io_bpos s + length data \<le> io_size s")
    case True
    then show ?thesis using wf f(3) s'(2)
      by (simp add: mem_data_def mem_wf_def take_overwrite max_def)
  next
    case False
    then show ?thesis using wf f(3) s'(2) ext
      by (simp add: mem_data_def mem_wf_def max_def overwrite_beyond)
  qed
  moreover have "mem_wf (s'\<lparr>io_bpos := io_bpos s' + length data\<rparr>)"
    using wf fits f s'(2,4) ext by (simp add: mem_wf_def length_overwrite)
  ultimately show ?thesis using that s'(1) f by auto
qed

section \<open>The operations on a memory stream\<close>

lemma mem_wf_state [simp]:
  "mem_wf (s\<lparr>io_state := st\<rparr>) = mem_wf s" "mem_wf (s\<lparr>io_eof := b\<rparr>) = mem_wf s"
  "mem_wf (s\<lparr>io_ndirty := k\<rparr>) = mem_wf s" "mem_wf (s\<lparr>io_lineno := l\<rparr>) = mem_wf s"
  "mem_wf (s\<lparr>io_u_colno := l\<rparr>) = mem_wf s"
  by (simp_all add: mem_wf_def)

lemma mem_data_state [simp]:
  "mem_data (s\<lparr>io_state := st\<rparr>) = mem_data s" "mem_data (s\<lparr>io_eof := b\<rparr>) = mem_data s"
  "mem_data (s\<lparr>io_ndirty := k\<rparr>) = mem_data s" "mem_data (s\<lparr>io_bpos := q\<rparr>) = mem_data s"
  "mem_data (s\<lparr>io_lineno := l\<rparr>) = mem_data s" "mem_data (s\<lparr>io_u_colno := l\<rparr>) = mem_data s"
  by (simp_all add: mem_data_def)

lemma flush_mem: "io_bm s = Bm_mem \<Longrightarrow> ios_flush W s = Inr (0, W, s)"
  by (simp add: ios_flush_def)

text \<open>The abstract stream: bytes and a cursor.\<close>

definition mem_view :: "ios \<Rightarrow> u8 list \<times> nat" where
  "mem_view s = (mem_data s, io_bpos s)"

lemma write_grow_mem:
  assumes wf: "mem_wf s" and M: "roomy_mem M" and ne: "data \<noteq> []"
  obtains s' where "write_grow M s data = Inr (length data, s')" "mem_wf s'"
    "mem_view s' = (overwrite (mem_data s) (io_bpos s) data, io_bpos s + length data)"
    "io_state s' = io_state s" "io_writable s' = io_writable s" "io_eof s' = io_eof s" "io_fd s' = io_fd s"
proof -
  have fits: "\<exists>s'. rbind (poke (s1\<lparr>io_size := max (io_size s1) (io_bpos s1 + length data)\<rparr>) (io_bpos s1) data)
        (\<lambda>s. Inr (length data, s\<lparr>io_bpos := io_bpos s + length data\<rparr>)) = Inr (length data, s') \<and> mem_wf s' \<and>
      mem_view s' = (overwrite (mem_data s1) (io_bpos s1) data, io_bpos s1 + length data) \<and>
      io_state s' = io_state s1 \<and> io_writable s' = io_writable s1 \<and> io_eof s' = io_eof s1 \<and> io_fd s' = io_fd s1"
    if "mem_wf s1" "io_bpos s1 + length data \<le> io_maxsize s1" for s1
    using store_mem [OF that ne] by (force simp: mem_view_def)
  show ?thesis
  proof (cases "io_bpos s + length data > io_maxsize s")
    case True
    define n0 where "n0 = (if io_maxsize s \<noteq> 0 then io_maxsize s * 2 else 8)"
    have pos: "n0 > 0" by (simp add: n0_def)
    obtain r where r: "double_until (io_bpos s + length data) n0 = Some r" "io_bpos s + length data \<le> r" "n0 \<le> r"
      using double_until_ge [OF pos] by blast
    have gt: "r > io_maxsize s" using True r(2) by simp
    obtain s1 where s1: "buf_realloc M s r = Inr (True, s1)" "mem_wf s1" "r \<le> io_maxsize s1"
        "mem_data s1 = mem_data s" "io_bpos s1 = io_bpos s" "io_size s1 = io_size s" "io_state s1 = io_state s"
        "io_writable s1 = io_writable s" "io_eof s1 = io_eof s" "io_fd s1 = io_fd s"
      using buf_realloc_mem [OF wf M gt] by blast
    have "io_bpos s + length data > io_size s" using True wf by (simp add: mem_wf_def)
    then have "write_grow M s data = rbind (poke (s1\<lparr>io_size := io_bpos s1 + length data\<rparr>) (io_bpos s1) data)
        (\<lambda>s. Inr (length data, s\<lparr>io_bpos := io_bpos s + length data\<rparr>))"
      using True ne s1(1) r(1) [unfolded n0_def] by (simp add: write_grow_def Let_def)
    moreover have "max (io_size s1) (io_bpos s1 + length data) = io_bpos s1 + length data"
      using True wf s1(5,6) by (simp add: mem_wf_def)
    ultimately show ?thesis
      using fits [OF s1(2)] that s1 r by auto
  next
    case False
    have mx: "s\<lparr>io_size := max (io_size s) (io_bpos s + length data)\<rparr> =
       (if io_bpos s + length data > io_size s then s\<lparr>io_size := io_bpos s + length data\<rparr> else s)"
      by (simp add: max_def)
    show ?thesis
      using fits [OF wf] that False ne unfolding mx by (auto simp: write_grow_def Let_def split: if_splits)
  qed
qed

lemma update_pos_mem:
  assumes "mem_wf s"
  shows "mem_wf (write_update_pos s)" "mem_view (write_update_pos s) = mem_view s"
    "io_state (write_update_pos s) = io_state s" "io_writable (write_update_pos s) = io_writable s"
    "io_eof (write_update_pos s) = io_eof s" "io_fd (write_update_pos s) = io_fd s"
  using assms by (auto simp: write_update_pos_def mem_view_def Let_def mem_wf_def)

lemma ios_seek_mem:
  assumes "mem_wf s"
  shows "ios_seek W s pos =
    (if pos < 0 \<or> pos > int (io_size s) then Inr (- 2, W, s\<lparr>io_eof := False\<rparr>)
     else Inr (0, W, s\<lparr>io_eof := False, io_bpos := nat pos\<rparr>))"
  using assms by (simp add: ios_seek_def mem_wf_def Let_def)

lemma reseek_mem:
  assumes "mem_wf s"
  shows "(case ios_pos W s of (p, W, s) \<Rightarrow> rbind (ios_seek W s p) (\<lambda>(_, W, s). Inr (W, s))) =
    Inr (W, s\<lparr>io_eof := False\<rparr>)"
proof -
  have "ios_pos W s = (int (io_bpos s), W, s)" using assms by (simp add: ios_pos_def mem_wf_def)
  moreover have "s\<lparr>io_eof := False, io_bpos := io_bpos s\<rparr> = s\<lparr>io_eof := False\<rparr>" by simp
  ultimately show ?thesis using assms by (simp add: ios_seek_mem mem_wf_def)
qed

lemma ios_write_mem:
  assumes wf: "mem_wf s" and M: "roomy_mem M" and wr: "io_writable s" and ne: "data \<noteq> []"
  obtains s' where "ios_write M W s data = Inr (length data, W, s')" "mem_wf s'"
    "mem_view s' = (overwrite (mem_data s) (io_bpos s) data, io_bpos s + length data)"
    "io_state s' = Bst_wr" "io_writable s'" "io_eof s' = (io_eof s \<and> io_state s \<noteq> Bst_rd)" "io_fd s' = io_fd s"
proof -
  define s1 where "s1 = (if io_state s = Bst_rd then s\<lparr>io_eof := False\<rparr> else s)\<lparr>io_state := Bst_wr\<rparr>"
  have s1: "mem_wf s1" "mem_data s1 = mem_data s" "io_bpos s1 = io_bpos s" "io_state s1 = Bst_wr" "io_writable s1"
      "io_eof s1 = (io_eof s \<and> io_state s \<noteq> Bst_rd)" "io_fd s1 = io_fd s"
    using wf wr by (auto simp: s1_def)
  obtain s2 where s2: "write_grow M s1 data = Inr (length data, s2)" "mem_wf s2"
      "mem_view s2 = (overwrite (mem_data s1) (io_bpos s1) data, io_bpos s1 + length data)"
      "io_state s2 = io_state s1" "io_writable s2 = io_writable s1" "io_eof s2 = io_eof s1" "io_fd s2 = io_fd s1"
    using write_grow_mem [OF s1(1) M ne] by blast
  have bm: "io_bm s = Bm_mem" using wf by (simp add: mem_wf_def)
  have "ios_write M W s data = Inr (length data, W, write_update_pos s2)"
    using wr ne bm s2(1) reseek_mem [OF wf]
    by (cases "io_state s = Bst_rd") (simp_all add: ios_write_def numeral_3_eq_3 s1_def)
  then show ?thesis using that update_pos_mem [OF s2(2)] s2 s1 by simp
qed

lemma read_loop_mem:
  assumes "io_bm s = Bm_mem" "n \<noteq> 0"
  shows "ios_read_loop (Suc k) W s n all False [] =
    (let avail = io_size s - io_bpos s; m = (if avail \<ge> n then n else avail); s' = s\<lparr>io_bpos := io_bpos s + m\<rparr> in
     rbind (peek s (io_bpos s) m) (\<lambda>bs.
       Inr (bs, W, if avail = 0 then s'\<lparr>io_eof := True\<rparr> else s')))"
  using assms by (simp add: ios_read_loop.simps Let_def)

lemma ios_read_mem:
  assumes wf: "mem_wf s"
  obtains s' where "ios_read_impl W s n all = Inr (take n (drop (io_bpos s) (mem_data s)), W, s')" "mem_wf s'"
    "mem_view s' = (mem_data s, min (io_bpos s + n) (io_size s))" "io_state s' = Bst_rd" "io_writable s' = io_writable s"
proof -
  define s1 where "s1 = (if io_state s = Bst_wr then s\<lparr>io_eof := False\<rparr> else s)\<lparr>io_state := Bst_rd\<rparr>"
  have s1: "mem_wf s1" "mem_data s1 = mem_data s" "io_bpos s1 = io_bpos s" "io_state s1 = Bst_rd"
      "io_writable s1 = io_writable s" "io_size s1 = io_size s" "io_bytes s1 = io_bytes s" "io_bm s1 = Bm_mem"
    using wf by (auto simp: s1_def mem_wf_def)
  have run: "ios_read_impl W s n all = ios_read_loop (n + 2) W s1 n all False []"
    using reseek_mem [OF wf] by (simp add: ios_read_impl_def s1_def)
  let ?m = "if io_size s - io_bpos s \<ge> n then n else io_size s - io_bpos s"
  have pk: "peek s1 (io_bpos s) ?m = Inr (take n (drop (io_bpos s) (mem_data s)))"
    using wf s1 by (auto simp: peek_def copy_from_def mem_wf_def mem_data_def drop_take)
  have le: "io_bpos s + ?m \<le> io_size s" "io_bpos s + ?m = min (io_bpos s + n) (io_size s)"
    using wf by (auto simp: mem_wf_def)
  define s2 where "s2 = s1\<lparr>io_bpos := io_bpos s + ?m\<rparr>"
  have s2: "mem_wf s2" "mem_view s2 = (mem_data s, min (io_bpos s + n) (io_size s))"
      "io_state s2 = Bst_rd" "io_writable s2 = io_writable s"
    using s1 le by (auto simp: s2_def mem_wf_def mem_view_def)
  show ?thesis
  proof (cases "n = 0")
    case True
    then show ?thesis using that [of s1] run s1 wf
      by (simp add: mem_view_def mem_wf_def ios_read_loop.simps)
  next
    case False
    have "ios_read_loop (n + 2) W s1 n all False [] =
        Inr (take n (drop (io_bpos s) (mem_data s)), W, s2) \<or>
      ios_read_loop (n + 2) W s1 n all False [] =
        Inr (take n (drop (io_bpos s) (mem_data s)), W, s2\<lparr>io_eof := True\<rparr>)"
      using read_loop_mem [OF s1(8) False, of "Suc n" W all] pk s1 by (simp add: s2_def Let_def split: if_splits)
    then show ?thesis
    proof
      assume r: "ios_read_loop (n + 2) W s1 n all False [] =
          Inr (take n (drop (io_bpos s) (mem_data s)), W, s2)"
      show ?thesis by (rule that [OF run [unfolded r] s2])
    next
      assume r: "ios_read_loop (n + 2) W s1 n all False [] =
          Inr (take n (drop (io_bpos s) (mem_data s)), W, s2\<lparr>io_eof := True\<rparr>)"
      show ?thesis by (rule that [OF run [unfolded r]]) (use s2 in \<open>simp_all add: mem_view_def\<close>)
    qed
  qed
qed

lemma overwrite_nil: "p \<le> length xs \<Longrightarrow> overwrite xs p [] = xs"
  by (simp add: overwrite_def)

lemma ios_putc_mem:
  assumes wf: "mem_wf s" and M: "roomy_mem M" and wr: "io_writable s"
  obtains s' where "ios_putc M W s c = Inr (1, W, s')" "mem_wf s'"
    "mem_view s' = (overwrite (mem_data s) (io_bpos s) [c], io_bpos s + 1)" "io_writable s'" "io_state s' = Bst_wr"
proof (cases "io_state s = Bst_wr \<and> io_bpos s < io_maxsize s")
  case True
  have ext: "io_bpos s + length [c] \<le> length (io_bytes s)" using wf True by (simp add: mem_wf_def)
  obtain s1 where s1: "poke s (io_bpos s) [c] = Inr s1" "io_bytes s1 = overwrite (io_bytes s) (io_bpos s) [c]"
      "s1 = put_bytes s (io_bytes s1)" "length (io_local s1) = length (io_local s)"
    using poke_ok [OF ext] by blast
  have f: "io_bm s1 = io_bm s" "io_bpos s1 = io_bpos s" "io_size s1 = io_size s" "io_maxsize s1 = io_maxsize s"
      "io_growable s1 = io_growable s" "io_state s1 = io_state s" "io_writable s1 = io_writable s"
    by (subst s1(3), simp)+
  define s2 where "s2 = write_update_pos (s1\<lparr>io_bpos := io_bpos s1 + 1\<rparr>)"
  have sz: "io_size s2 = max (io_size s) (io_bpos s + 1)" "io_bpos s2 = io_bpos s + 1"
      "io_bytes s2 = io_bytes s1" "io_bm s2 = io_bm s" "io_maxsize s2 = io_maxsize s"
      "io_growable s2 = io_growable s" "io_state s2 = io_state s" "io_writable s2 = io_writable s"
      "io_local s2 = io_local s1"
    using f by (auto simp: s2_def write_update_pos_def Let_def)
  have "mem_data s2 = overwrite (mem_data s) (io_bpos s) [c]"
  proof (cases "io_bpos s + 1 \<le> io_size s")
    case True
    then show ?thesis using wf s1(2) take_overwrite [of "io_bpos s" "[c]" "io_size s" "io_bytes s"]
      by (simp add: mem_data_def sz mem_wf_def max_def)
  next
    case False
    then show ?thesis
      using wf s1(2) ext overwrite_beyond [of "io_bpos s" "io_size s" "[c]" "io_bytes s"]
      by (simp add: mem_data_def sz mem_wf_def max_def)
  qed
  moreover have "mem_wf s2"
    using wf True ext s1(2,4) by (auto simp: mem_wf_def sz length_overwrite)
  moreover have "ios_putc M W s c = Inr (1, W, s2)"
    using True wf s1(1) sz(4) by (simp add: ios_putc_def mem_wf_def Let_def s2_def)
  ultimately show ?thesis using that [of s2] wr True by (simp add: mem_view_def sz)
next
  case False
  obtain s' where "ios_write M W s [c] = Inr (length [c], W, s')" "mem_wf s'"
    "mem_view s' = (overwrite (mem_data s) (io_bpos s) [c], io_bpos s + length [c])" "io_state s' = Bst_wr" "io_writable s'"
    using ios_write_mem [OF wf M wr, of "[c]" W] by blast
  then show ?thesis using that False by (auto simp: ios_putc_def)
qed

lemma ios_trunc_mem:
  assumes "mem_wf s" "n \<le> io_size s"
  shows "\<exists>s'. ios_trunc M W s n = Inr (0, W, s') \<and> mem_wf s' \<and>
     mem_view s' = (take n (mem_data s), min (io_bpos s) n) \<and> io_writable s' = io_writable s"
proof (cases "n = io_size s")
  case True
  then show ?thesis using assms mem_data_length [OF assms(1)]
    by (auto simp: ios_trunc_def mem_wf_def mem_view_def)
next
  case False
  then show ?thesis using assms
    by (auto simp: ios_trunc_def mem_wf_def mem_view_def mem_data_def min_def)
qed

lemma ios_skip_mem:
  assumes "mem_wf s"
  shows "\<exists>s'. ios_skip W s d = Inr (if 0 \<le> int (io_bpos s) + d \<and> int (io_bpos s) + d \<le> int (io_size s) then 0 else - 2, W, s') \<and>
     mem_wf s' \<and> io_writable s' = io_writable s \<and> mem_view s' =
     (mem_data s, if 0 \<le> int (io_bpos s) + d \<and> int (io_bpos s) + d \<le> int (io_size s) then nat (int (io_bpos s) + d) else io_bpos s)"
proof -
  consider "d = 0" | "d > 0" "d \<le> int (io_size s) - int (io_bpos s)" | "d > 0" "\<not> d \<le> int (io_size s) - int (io_bpos s)"
    | "d < 0" "- d \<le> int (io_bpos s)" | "d < 0" "\<not> - d \<le> int (io_bpos s)" by linarith
  then show ?thesis
    by cases (use assms in \<open>auto simp: ios_skip_def mem_wf_def mem_view_def nat_add_distrib nat_diff_distrib'\<close>)
qed

lemma ios_mem_new:
  assumes M: "roomy_mem M" and l: "length local = IOS_INLSIZE"
  obtains s where "ios_mem M local n = Inr s" "mem_wf s" "mem_view s = ([], 0)" "io_writable s" "io_state s = Bst_none"
    "\<not> io_eof s" "io_ndirty s = 0" "io_fd s = - 1"
proof -
  let ?s = "(ios_init local)\<lparr>io_bm := Bm_mem, io_rereadable := True\<rparr>"
  show ?thesis
  proof (cases "n \<le> IOS_INLSIZE")
    case True
    then show ?thesis
      using that [of "?s\<lparr>io_buf := BufLocal, io_maxsize := IOS_INLSIZE, io_ownbuf := True\<rparr>"] l
      by (simp add: ios_mem_def buf_realloc_def ios_init_def mem_wf_def mem_view_def mem_data_def io_bytes_def)
  next
    case False
    then show ?thesis
      using that [of "?s\<lparr>io_buf := BufHeap (map (junk_byte M) [0 ..< n]), io_maxsize := n\<rparr>"] l M
      by (simp add: ios_mem_def buf_realloc_def ios_init_def mem_wf_def mem_view_def mem_data_def io_bytes_def
          llt_realloc_def roomy_mem_def)
  qed
qed

section \<open>Refinement of a byte list with a cursor\<close>

datatype stream_cmd =
    CWrite "u8 list" | CPutc u8 | CRead nat | CSeek int | CSeekEnd | CSkip int | CTrunc nat

datatype stream_out = Status int | Got "u8 list"

fun stream_step :: "mem_env \<Rightarrow> os \<Rightarrow> stream_cmd \<Rightarrow> ios \<Rightarrow> (stream_out \<times> ios) result" where
  "stream_step M W (CWrite data) s = rbind (ios_write M W s data) (\<lambda>(n, _, s). Inr (Status (int n), s))"
| "stream_step M W (CPutc c) s = rbind (ios_putc M W s c) (\<lambda>(n, _, s). Inr (Status (int n), s))"
| "stream_step M W (CRead n) s = rbind (ios_read W s n) (\<lambda>(bs, _, s). Inr (Got bs, s))"
| "stream_step M W (CSeek p) s = rbind (ios_seek W s p) (\<lambda>(r, _, s). Inr (Status r, s))"
| "stream_step M W CSeekEnd s = rbind (ios_seek_end W s) (\<lambda>(r, _, s). Inr (Status r, s))"
| "stream_step M W (CSkip d) s = rbind (ios_skip W s d) (\<lambda>(r, _, s). Inr (Status r, s))"
| "stream_step M W (CTrunc n) s = rbind (ios_trunc M W s n) (\<lambda>(r, _, s). Inr (Status r, s))"

fun cursor_step :: "stream_cmd \<Rightarrow> u8 list \<times> nat \<Rightarrow> stream_out \<times> u8 list \<times> nat" where
  "cursor_step (CWrite data) (xs, p) = (Status (int (length data)), overwrite xs p data, p + length data)"
| "cursor_step (CPutc c) (xs, p) = (Status 1, overwrite xs p [c], p + 1)"
| "cursor_step (CRead n) (xs, p) = (Got (take n (drop p xs)), xs, min (p + n) (length xs))"
| "cursor_step (CSeek q) (xs, p) =
     (if 0 \<le> q \<and> q \<le> int (length xs) then (Status 0, xs, nat q) else (Status (- 2), xs, p))"
| "cursor_step CSeekEnd (xs, p) = (Status 0, xs, length xs)"
| "cursor_step (CSkip d) (xs, p) =
     (if 0 \<le> int p + d \<and> int p + d \<le> int (length xs) then (Status 0, xs, nat (int p + d))
      else (Status (- 2), xs, p))"
| "cursor_step (CTrunc n) (xs, p) = (Status 0, take n xs, min p n)"

text \<open>Growing a stream by truncation exposes bytes that were never written; the abstract stream
  does not say which.\<close>

fun cmd_ok :: "stream_cmd \<Rightarrow> u8 list \<times> nat \<Rightarrow> bool" where
  "cmd_ok (CTrunc n) (xs, p) \<longleftrightarrow> n \<le> length xs"
| "cmd_ok _ v \<longleftrightarrow> True"

fun run_cursor :: "stream_cmd list \<Rightarrow> u8 list \<times> nat \<Rightarrow> (stream_out list \<times> u8 list \<times> nat) option" where
  "run_cursor [] v = Some ([], v)"
| "run_cursor (c # cs) v =
     (if cmd_ok c v then
        (case cursor_step c v of (out, v) \<Rightarrow> map_option (\<lambda>(outs, v). (out # outs, v)) (run_cursor cs v))
      else None)"

fun run_stream :: "('c \<Rightarrow> 's \<Rightarrow> ('o \<times> 's) result) \<Rightarrow> 'c list \<Rightarrow> 's \<Rightarrow> ('o list \<times> 's) result" where
  "run_stream step [] s = Inr ([], s)"
| "run_stream step (c # cs) s =
     rbind (step c s) (\<lambda>(out, s). rbind (run_stream step cs s) (\<lambda>(outs, s). Inr (out # outs, s)))"

text \<open>The contract of a seekable byte stream: each command acts on a view of it as on a byte
  list with a cursor.\<close>

locale byte_stream =
  fixes step :: "stream_cmd \<Rightarrow> 's \<Rightarrow> (stream_out \<times> 's) result"
    and view :: "'s \<Rightarrow> u8 list \<times> nat"
    and invar :: "'s \<Rightarrow> bool"
  assumes step_law: "invar s \<Longrightarrow> cmd_ok c (view s) \<Longrightarrow>
      \<exists>s'. step c s = Inr (fst (cursor_step c (view s)), s') \<and> invar s' \<and> view s' = snd (cursor_step c (view s))"
begin

lemma run_refines:
  assumes "invar s" "run_cursor cs (view s) = Some (outs, v)"
  shows "\<exists>s'. run_stream step cs s = Inr (outs, s') \<and> invar s' \<and> view s' = v"
  using assms
proof (induction cs arbitrary: s outs v)
  case (Cons c cs)
  obtain out v1 where c: "cursor_step c (view s) = (out, v1)" by (metis prod.exhaust_sel)
  have ok: "cmd_ok c (view s)" using Cons.prems(2) by (auto split: if_splits)
  obtain outs' where r: "run_cursor cs v1 = Some (outs', v)" "outs = out # outs'"
    using Cons.prems(2) ok c by auto
  obtain s1 where s1: "step c s = Inr (out, s1)" "invar s1" "view s1 = v1"
    using step_law [OF Cons.prems(1) ok] c by auto
  then show ?case using Cons.IH [of s1 outs' v] r by auto
qed auto

end

lemma stream_step_mem:
  assumes wf: "mem_wf s" "io_writable s" and M: "roomy_mem M" and ok: "cmd_ok c (mem_view s)"
  shows "\<exists>s'. stream_step M W c s = Inr (fst (cursor_step c (mem_view s)), s') \<and>
    (mem_wf s' \<and> io_writable s') \<and> mem_view s' = snd (cursor_step c (mem_view s))"
proof (cases c)
  case (CWrite data)
  show ?thesis
  proof (cases "data = []")
    case True
    then have "ios_write M W s data = Inr (0, W, s)" using wf by (simp add: ios_write_def numeral_3_eq_3)
    moreover have "overwrite (mem_data s) (io_bpos s) [] = mem_data s"
      using wf mem_data_length [OF wf(1)] by (simp add: overwrite_nil mem_wf_def)
    ultimately show ?thesis using CWrite True wf by (simp add: mem_view_def)
  next
    case False
    obtain s' where "ios_write M W s data = Inr (length data, W, s')" "mem_wf s'"
      "mem_view s' = (overwrite (mem_data s) (io_bpos s) data, io_bpos s + length data)" "io_writable s'"
      using ios_write_mem [OF wf(1) M wf(2) False] by metis
    then show ?thesis using CWrite by (simp add: mem_view_def)
  qed
next
  case (CPutc ch)
  obtain s' where "ios_putc M W s ch = Inr (1, W, s')" "mem_wf s'"
    "mem_view s' = (overwrite (mem_data s) (io_bpos s) [ch], io_bpos s + 1)" "io_writable s'"
    using ios_putc_mem [OF wf(1) M wf(2)] by metis
  then show ?thesis using CPutc by (simp add: mem_view_def)
next
  case (CRead n)
  obtain s' where "ios_read_impl W s n False = Inr (take n (drop (io_bpos s) (mem_data s)), W, s')" "mem_wf s'"
    "mem_view s' = (mem_data s, min (io_bpos s + n) (io_size s))" "io_writable s' = io_writable s"
    using ios_read_mem [OF wf(1)] by metis
  then show ?thesis using CRead wf mem_data_length [OF wf(1)] by (simp add: mem_view_def ios_read_def)
next
  case (CSeek q)
  then show ?thesis using wf mem_data_length [OF wf(1)]
    by (auto simp: ios_seek_mem mem_view_def) (auto simp: mem_wf_def)
next
  case CSeekEnd
  then show ?thesis using wf mem_data_length [OF wf(1)]
    by (auto simp: ios_seek_end_def mem_view_def mem_wf_def)
next
  case (CSkip d)
  then show ?thesis using ios_skip_mem [OF wf(1), of W d] wf mem_data_length [OF wf(1)]
    by (auto simp: mem_view_def split: if_splits)
next
  case (CTrunc n)
  then have "n \<le> io_size s" using ok mem_data_length [OF wf(1)] by (simp add: mem_view_def)
  then show ?thesis using ios_trunc_mem [OF wf(1), of n M W] wf CTrunc by (auto simp: mem_view_def)
qed

definition sample_mem :: mem_env where
  "sample_mem = \<lparr>can_alloc = (\<lambda>_. True), junk_byte = (\<lambda>_. 0)\<rparr>"

definition sample_os :: os where
  "sample_os = \<lparr>files = (\<lambda>_. None), replies = []\<rparr>"

lemma roomy_sample: "roomy_mem sample_mem"
  by (simp add: roomy_mem_def sample_mem_def)

text \<open>The contract for the allocator that always succeeds.\<close>

definition roomy_step :: "(nat \<Rightarrow> u8) \<Rightarrow> os \<Rightarrow> stream_cmd \<Rightarrow> ios \<Rightarrow> (stream_out \<times> ios) result" where
  "roomy_step jb W = stream_step \<lparr>can_alloc = (\<lambda>_. True), junk_byte = jb\<rparr> W"

interpretation mem_stream: byte_stream "roomy_step jb W" mem_view "\<lambda>s. mem_wf s \<and> io_writable s"
  by unfold_locales (unfold roomy_step_def, rule stream_step_mem, auto simp: roomy_mem_def)

section \<open>Lines\<close>

definition up_to :: "u8 \<Rightarrow> bool \<Rightarrow> u8 list \<Rightarrow> u8 list" where
  "up_to d keep xs = takeWhile (\<lambda>b. b \<noteq> d) xs @ (if d \<in> set xs \<and> keep then [d] else [])"

definition consumed :: "u8 \<Rightarrow> u8 list \<Rightarrow> nat" where
  "consumed d xs = (if d \<in> set xs then length (takeWhile (\<lambda>b. b \<noteq> d) xs) + 1 else length xs)"

lemma takeWhile_hit: "d \<in> set xs \<Longrightarrow> takeWhile (\<lambda>b. b \<noteq> d) xs @ [d] = take (Suc (length (takeWhile (\<lambda>b. b \<noteq> d) xs))) xs"
  by (induction xs) auto

lemma up_to_take:
  "d \<in> set xs \<Longrightarrow> take (length (takeWhile (\<lambda>b. b \<noteq> d) xs) + of_bool keep) xs = up_to d keep xs"
  using takeWhile_hit [of d xs] by (auto simp: up_to_def takeWhile_eq_take [symmetric])

lemma consumed_le: "consumed d xs \<le> length xs"
proof (cases "d \<in> set xs")
  case True
  then have "length (takeWhile (\<lambda>b. b \<noteq> d) xs @ [d]) = length (take (Suc (length (takeWhile (\<lambda>b. b \<noteq> d) xs))) xs)"
    by (simp only: takeWhile_hit)
  then show ?thesis using True by (simp add: consumed_def)
qed (simp add: consumed_def)

lemma up_to_miss: "d \<notin> set xs \<Longrightarrow> up_to d keep xs = xs"
  by (auto simp: up_to_def takeWhile_eq_all_conv)

lemma readprep_mem:
  "mem_wf s \<Longrightarrow> ios_readprep M W s n = Inr (io_size s - io_bpos s, W, s\<lparr>io_state := Bst_rd\<rparr>)"
  by (simp add: ios_readprep_def mem_wf_def)

lemma write_any_mem:
  assumes wf: "mem_wf s" and M: "roomy_mem M" and wr: "io_writable s"
  obtains s' where "ios_write M W s data = Inr (length data, W, s')" "mem_wf s'"
    "mem_view s' = (overwrite (mem_data s) (io_bpos s) data, io_bpos s + length data)" "io_writable s'" "io_fd s' = io_fd s"
proof (cases "data = []")
  case True
  then show ?thesis using that [of s] wf wr mem_data_length [OF wf]
    by (simp add: ios_write_def numeral_3_eq_3 mem_view_def overwrite_nil mem_wf_def)
next
  case False
  then show ?thesis using that ios_write_mem [OF wf M wr False] by metis
qed

text \<open>At the end of its data a memory stream only gets its end-of-file flag.\<close>

lemma copyuntil_end:
  assumes "mem_wf from" "io_bpos from = io_size from"
  shows "\<exists>from'. ios_copyuntil_loop M W to from d keep 0 tot = Some (Inr (tot, W, to, from')) \<and>
    mem_wf from' \<and> mem_view from' = mem_view from \<and> io_writable from' = io_writable from"
  using assms readprep_mem [OF assms(1), of M W LINE_CHUNK_SIZE]
  by (subst ios_copyuntil_loop.simps) (auto simp: mem_view_def)

lemma ios_copyuntil_mem:
  fixes d :: u8 and keep :: bool
  assumes wf: "mem_wf from" "\<not> io_eof from" and to: "mem_wf to" "io_writable to" and M: "roomy_mem M"
  defines "rest \<equiv> drop (io_bpos from) (mem_data from)"
  defines "line \<equiv> up_to d keep rest"
  obtains to' from' where
    "ios_copyuntil M W to from d keep = Inr (length line, W, to', from')"
    "mem_wf to'" "mem_view to' = (overwrite (mem_data to) (io_bpos to) line, io_bpos to + length line)"
    "io_writable to'" "io_fd to' = io_fd to"
    "mem_wf from'" "mem_view from' = (mem_data from, io_bpos from + consumed d rest)" "io_writable from' = io_writable from"
proof -
  have len: "length rest = io_size from - io_bpos from" using mem_data_length [OF wf(1)] by (simp add: rest_def)
  have le: "io_bpos from \<le> io_size from" "io_bm from = Bm_mem" using wf by (simp_all add: mem_wf_def)
  have eof: "\<not> ios_eof from" using wf le by (simp add: ios_eof_def)
  obtain to' where to': "ios_write M W to line = Inr (length line, W, to')" "mem_wf to'"
      "mem_view to' = (overwrite (mem_data to) (io_bpos to) line, io_bpos to + length line)" "io_writable to'" "io_fd to' = io_fd to"
    using write_any_mem [OF to(1) M to(2)] by blast
  show ?thesis
  proof (cases "rest = []")
    case True
    then have "line = []" "consumed d rest = 0" "io_bpos from = io_size from"
      using len le by (auto simp: line_def up_to_def consumed_def)
    then show ?thesis
      using copyuntil_end [OF wf(1), of M W to d keep 0] that [of to] to mem_data_length [OF to(1)]
      by (auto simp: ios_copyuntil_def mem_view_def overwrite_nil mem_wf_def)
  next
    case False
    have pk: "peek from (io_bpos from) (io_size from - io_bpos from) = Inr rest"
      using wf by (simp add: peek_def copy_from_def mem_wf_def rest_def mem_data_def drop_take)
    have pos: "io_size from - io_bpos from \<noteq> 0" using False len by auto
    show ?thesis
    proof (cases "d \<in> set rest")
      case True
      have "ios_copyuntil M W to from d keep =
          Inr (length line, W, to', from\<lparr>io_bpos := io_bpos from + consumed d rest\<rparr>)"
        using eof pos pk True to'(1) up_to_take [OF True, of keep, folded line_def]
        unfolding ios_copyuntil_def
        by (subst ios_copyuntil_loop.simps) (auto simp: memchr_def consumed_def Let_def)
      then show ?thesis
        using that to' wf consumed_le [of d rest] len le by (auto simp: mem_wf_def mem_view_def)
    next
      case miss: False
      have line: "line = rest" using miss by (simp add: line_def up_to_miss)
      let ?from = "from\<lparr>io_bpos := io_bpos from + (io_size from - io_bpos from)\<rparr>"
      have "mem_wf ?from" "io_bpos ?from = io_size ?from" using wf le by (auto simp: mem_wf_def)
      then obtain from' where f: "ios_copyuntil_loop M W to' ?from d keep 0 (length line) =
            Some (Inr (length line, W, to', from'))" "mem_wf from'" "mem_view from' = mem_view ?from"
            "io_writable from' = io_writable ?from"
        using copyuntil_end by blast
      have "ios_copyuntil M W to from d keep = Inr (length line, W, to', from')"
        using eof pos pk miss to'(1) f(1) line unfolding ios_copyuntil_def
        by (subst ios_copyuntil_loop.simps) (auto simp: memchr_def)
      then show ?thesis
        using that to' f(2-4) miss len le by (auto simp: mem_view_def consumed_def)
    qed
  qed
qed

lemma ios_take_buffer_mem:
  assumes wf: "mem_wf s" and M: "roomy_mem M"
  obtains s' where "ios_take_buffer M W s = Inr (Some (mem_data s @ [0]), W, s')"
    "mem_wf s'" "mem_view s' = ([], 0)" "io_fd s' = io_fd s"
proof -
  have b: "io_bm s = Bm_mem" "io_size s \<le> io_maxsize s" "io_maxsize s \<le> length (io_bytes s)"
      "length (io_local s) = IOS_INLSIZE" "io_growable s"
    using wf by (simp_all add: mem_wf_def)
  have fin: "\<exists>buf'. copy_to buf (io_size s) [0] = Inr buf' \<and> take (io_size s + 1) buf' = mem_data s @ [0]"
    if "io_size s < length buf" "take (io_size s) buf = mem_data s" for buf
    using that mem_data_length [OF wf] by (simp add: copy_to_def)
  define alloc where "alloc = map (junk_byte M) [0 ..< io_size s + 1]"
  have pk: "peek s 0 (io_size s) = Inr (mem_data s)" "io_size s > 0 \<longrightarrow> io_buf s \<noteq> BufNull"
    using b by (auto simp: peek_def copy_from_def mem_data_def io_bytes_def)
  have cp: "copy_to alloc 0 (mem_data s) = Inr (mem_data s @ drop (io_size s) alloc)"
    using mem_data_length [OF wf] by (simp add: copy_to_def alloc_def)
  define s1 where "s1 = s\<lparr>io_bm := Bm_mem, io_buf := BufLocal, io_maxsize := IOS_INLSIZE, io_size := 0, io_bpos := 0\<rparr>"
  have s1: "buf_init M s Bm_mem = Inr s1" "mem_wf s1" "mem_view s1 = ([], 0)" "io_fd s1 = io_fd s"
    using b by (simp_all add: buf_init_def s1_def mem_wf_def mem_view_def mem_data_def)
  let ?copy = "io_buf s = BufLocal \<or> io_buf s = BufNull \<or> (\<not> io_ownbuf s \<and> io_size s = io_maxsize s)"
  obtain buf where buf: "(if ?copy then
              (case llt_alloc M (io_size s + 1) of
                 None \<Rightarrow> Inr None
               | Some buf \<Rightarrow>
                   if io_size s > 0 then
                     rbind (assert_that (io_buf s \<noteq> BufNull)) (\<lambda>_.
                     rbind (peek s 0 (io_size s)) (\<lambda>bs. rbind (copy_to buf 0 bs) (\<lambda>b. Inr (Some b))))
                   else Inr (Some buf))
            else if io_size s = io_maxsize s then Inr (llt_realloc M (io_bytes s) (io_size s + 1))
            else Inr (Some (io_bytes s))) = Inr (Some buf)"
      "io_size s < length buf" "take (io_size s) buf = mem_data s"
  proof (cases ?copy)
    case True
    have al: "llt_alloc M (io_size s + 1) = Some alloc" using M by (simp add: llt_alloc_def roomy_mem_def alloc_def)
    show ?thesis
    proof (cases "io_size s = 0")
      case z: True
      then show ?thesis using that [of alloc] al True by (simp add: alloc_def mem_data_def)
    next
      case nz: False
      then show ?thesis
        using that [of "mem_data s @ drop (io_size s) alloc"] al True pk cp mem_data_length [OF wf]
        by (simp add: alloc_def)
    qed
  next
    case False
    show ?thesis
    proof (cases "io_size s = io_maxsize s")
      case True
      define buf where "buf = take (io_size s + 1) (io_bytes s) @ map (junk_byte M) [length (io_bytes s) ..< io_size s + 1]"
      have "llt_realloc M (io_bytes s) (io_size s + 1) = Some buf"
        using M by (simp add: llt_realloc_def roomy_mem_def buf_def)
      moreover have "io_size s < length buf" "take (io_size s) buf = mem_data s"
        using b by (auto simp: buf_def mem_data_def min_def)
      ultimately show ?thesis using that [of buf] False True by simp
    next
      case lt: False
      then show ?thesis using that [of "io_bytes s"] False b by (simp add: mem_data_def)
    qed
  qed
  obtain buf' where "copy_to buf (io_size s) [0] = Inr buf'" "take (io_size s + 1) buf' = mem_data s @ [0]"
    using fin [OF buf(2,3)] by blast
  then have "ios_take_buffer M W s = Inr (Some (mem_data s @ [0]), W, s1)"
    unfolding ios_take_buffer_def flush_mem [OF b(1)] using buf(1) s1(1) b(1) by simp
  then show ?thesis using that s1 by blast
qed

section \<open>Properties\<close>




definition sample_text :: ios where
  "sample_text = \<lparr>io_buf = BufHeap [97, 98, 10, 99], io_bm = Bm_mem, io_state = Bst_rd, io_maxsize = 4, io_size = 4,
     io_bpos = 1, io_ndirty = 0, io_fpos = - 1, io_lineno = 1, io_u_colno = 0, io_fd = - 1, io_readable = True,
     io_writable = True, io_ownbuf = True, io_ownfd = False, io_eof = False, io_rereadable = True,
     io_growable = True, io_local = replicate 83 0\<rparr>"


end
