(* ===== verification/IosFile.thy ===== *)
theory IosFile
  imports IosMem
begin

text \<open>
  File streams that are written to.  Whatever the sizes of the writes, the buffering mode and
  the short transfers and interruptions of the system, the bytes reach the file in order:
  the file holds what was written, less what is still in the buffer, and nothing is left
  there after a flush.  A line-buffered stream never holds a complete line back.
\<close>

section \<open>Interruptions only\<close>

definition benign :: "os \<Rightarrow> bool" where
  "benign W \<longleftrightarrow> (\<forall>e. Fail e \<in> set (replies W) \<longrightarrow> enonfatal e)"

lemma next_reply_benign:
  "next_reply W n = (Inl e, W') \<Longrightarrow> benign W \<Longrightarrow> enonfatal e \<and> benign W'"
  "next_reply W n = (Inr k, W') \<Longrightarrow> benign W \<Longrightarrow> benign W'"
  by (auto simp: next_reply_def benign_def split: list.splits os_reply.splits)

lemma benign_files [simp]: "benign (W\<lparr>files := x\<rparr>) = benign W"
  by (simp add: benign_def)

lemma sys_write_benign:
  assumes "sys_write W fd bs = (r, W')" "benign W" "files W fd \<noteq> None"
  shows "benign W' \<and> (\<forall>e. r = Inl e \<longrightarrow> enonfatal e)"
  using assms next_reply_benign
  by (fastforce simp: sys_write_def split: option.splits prod.splits sum.splits)

lemma os_write_benign:
  assumes "os_write W fd bs = (err, k, W')" "benign W" "files W fd \<noteq> None"
  shows "err = 0 \<and> benign W'"
  using assms
proof (induction W fd bs arbitrary: err k W' rule: os_write.induct)
  case (1 W fd bs)
  obtain r W1 where r: "sys_write W fd bs = (r, W1)" by force
  note b = sys_write_benign [OF r "1.prems"(2,3)]
  show ?case
  proof (cases r)
    case (Inr m)
    then show ?thesis using "1.prems"(1) r b by (subst (asm) os_write.simps) simp
  next
    case (Inl e)
    then have e: "enonfatal e" using b by blast
    then have "os_write W1 fd bs = (err, k, W')" using "1.prems"(1) r Inl by (subst (asm) os_write.simps) simp
    moreover have "files W1 fd \<noteq> None" using sys_write_err r Inl "1.prems"(3) by metis
    ultimately show ?thesis using "1.IH" [OF r [symmetric] Inl] e b by blast
  qed
qed

lemma os_write_all_benign:
  assumes "os_write_all W fd bs = (err, k, W')" "benign W" "files W fd = Some f" "offset f \<le> length (contents f)"
  shows "err = 0 \<and> benign W'"
  using assms
proof (induction W fd bs arbitrary: err k W' f rule: os_write_all.induct)
  case (1 W fd bs)
  show ?case
  proof (cases "bs = []")
    case True
    then show ?thesis using "1.prems" by (subst (asm) os_write_all.simps) simp
  next
    case False
    obtain e1 k1 W1 where w: "os_write W fd bs = (e1, k1, W1)" by (metis prod_cases3)
    have b: "e1 = 0" "benign W1" using os_write_benign [OF w "1.prems"(2)] "1.prems"(3) by auto
    have f1: "files W1 fd = Some (file_write f (take k1 bs))" using os_write_file [OF w "1.prems"(3,4)] by simp
    obtain e2 k2 W2 where w2: "os_write_all W1 fd (drop k1 bs) = (e2, k2, W2)" by (metis prod_cases3)
    have res: "err = e2" "W' = W2"
      using "1.prems"(1) False w w2 b by (subst (asm) os_write_all.simps, simp)+
    show ?thesis
      using "1.IH" [OF _ w [symmetric] refl _ w2 b(2) f1 file_write_within [OF "1.prems"(4)]] False b(1) res by simp
  qed
qed

lemma write_all_ok:
  assumes "benign W" "files W fd = Some f" "offset f \<le> length (contents f)"
  obtains W' where "os_write_all W fd bs = (0, length bs, W')" "benign W'"
    "files W' = (files W)(fd \<mapsto> file_write f bs)"
proof -
  obtain err k W' where w: "os_write_all W fd bs = (err, k, W')" by (metis prod_cases3)
  have "err = 0" "benign W'" using os_write_all_benign [OF w assms] by auto
  moreover have "files W' = (files W)(fd \<mapsto> file_write f (take k bs))" "err = 0 \<longrightarrow> k = length bs"
    using os_write_all_file [OF w assms(2,3)] by auto
  ultimately show ?thesis using that w by simp
qed

section \<open>A stream that is being written\<close>

text \<open>\<open>sent\<close> is everything written so far: a part of it has gone to the file \<open>f\<close>, the rest is in
  the buffer.\<close>

definition pending :: "ios \<Rightarrow> u8 list" where
  "pending s = take (io_bpos s) (io_bytes s)"

definition writing_wf :: "ios \<Rightarrow> bool" where
  "writing_wf s \<longleftrightarrow> io_bm s \<noteq> Bm_mem \<and> io_fd s \<noteq> - 1 \<and> io_writable s \<and> io_state s \<noteq> Bst_rd \<and>
     io_size s = io_bpos s \<and> io_ndirty s = io_bpos s \<and> io_bpos s \<le> io_maxsize s \<and>
     io_maxsize s \<le> length (io_bytes s) \<and> (io_state s = Bst_none \<longrightarrow> io_bpos s = 0) \<and>
     (io_bm s = Bm_none \<longrightarrow> io_bpos s = 0) \<and> (io_bm s = Bm_line \<longrightarrow> newline \<notin> set (pending s))"

definition reached :: "os \<Rightarrow> os \<Rightarrow> ios \<Rightarrow> osfile \<Rightarrow> u8 list \<Rightarrow> bool" where
  "reached W0 W s f sent \<longleftrightarrow> benign W \<and> offset f \<le> length (contents f) \<and>
     (\<exists>w. files W = (files W0)(io_fd s \<mapsto> file_write f w) \<and> sent = w @ pending s)"

lemma writing_buf: "writing_wf s \<Longrightarrow> io_bpos s > 0 \<Longrightarrow> io_buf s \<noteq> BufNull"
  by (auto simp: writing_wf_def io_bytes_def)

lemma flush_writing:
  assumes wf: "writing_wf s" and re: "reached W0 W s f sent"
  obtains W' s' where "ios_flush W s = Inr (0, W', s')" "writing_wf s'" "reached W0 W' s' f sent"
    "io_bpos s' = 0" "io_maxsize s' = io_maxsize s" "io_bm s' = io_bm s" "io_fd s' = io_fd s" "io_state s' = io_state s"
    "files W' = (files W0)(io_fd s \<mapsto> file_write f sent)"
proof (cases "io_bpos s = 0")
  case True
  then have "ios_flush W s = Inr (0, W, s)" using wf by (simp add: ios_flush_def writing_wf_def)
  moreover have "pending s = []" using True by (simp add: pending_def)
  ultimately show ?thesis using that [of W s] True wf re by (auto simp: reached_def)
next
  case False
  obtain w where w: "benign W" "offset f \<le> length (contents f)"
      "files W = (files W0)(io_fd s \<mapsto> file_write f w)" "sent = w @ pending s"
    using re by (auto simp: reached_def)
  have wr: "io_state s = Bst_wr" using False wf by (cases "io_state s") (auto simp: writing_wf_def)
  have pk: "peek (s\<lparr>io_fpos := - 1\<rparr>) 0 (io_bpos s) = Inr (pending s)"
    using wf by (simp add: peek_def copy_from_def writing_wf_def pending_def)
  have lp: "length (pending s) = io_bpos s" using wf by (simp add: pending_def writing_wf_def)
  have fw: "files W (io_fd s) = Some (file_write f w)" using w by simp
  obtain W' where W': "os_write_all W (io_fd s) (pending s) = (0, length (pending s), W')" "benign W'"
      "files W' = (files W)(io_fd s \<mapsto> file_write (file_write f w) (pending s))"
    using write_all_ok [OF w(1) fw file_write_within [OF w(2)]] by blast
  have files': "files W' = (files W0)(io_fd s \<mapsto> file_write f sent)"
    using W'(3) w by (simp add: file_write_append)
  define s' where "s' = s\<lparr>io_fpos := - 1, io_size := 0, io_bpos := 0, io_ndirty := 0\<rparr>"
  have "ios_flush W s = Inr (0, W', s')"
    using wf wr False pk W'(1) lp writing_buf [OF wf]
    by (simp add: ios_flush_def writing_wf_def s'_def)
  moreover have "writing_wf s'" using wf by (simp add: writing_wf_def s'_def pending_def)
  moreover have "reached W0 W' s' f sent"
    using W'(2) files' w(2) by (auto simp: reached_def s'_def pending_def)
  ultimately show ?thesis using that [of W' s'] files' by (simp add: s'_def)
qed

text \<open>Storing bytes that fit behind the pending ones.\<close>

lemma store_writing:
  assumes wf: "writing_wf s" and re: "reached W0 W s f sent" and wr: "io_state s = Bst_wr"
    and fits: "length data \<le> io_maxsize s - io_bpos s" and bm: "io_bm s \<noteq> Bm_none"
    and nl: "io_bm s = Bm_line \<longrightarrow> newline \<notin> set data"
  obtains s1 s' where "poke s (io_bpos s) data = Inr s1"
    "s' = write_update_pos (s1\<lparr>io_bpos := io_bpos s1 + length data\<rparr>)"
    "writing_wf s'" "reached W0 W s' f (sent @ data)" "io_bm s' = io_bm s" "io_fd s' = io_fd s" "io_state s' = Bst_wr"
    "io_maxsize s' = io_maxsize s"
proof (cases "data = []")
  case True
  have "poke s (io_bpos s) data = Inr (put_bytes s (io_bytes s))"
    using True wf by (simp add: poke_def copy_to_def writing_wf_def)
  moreover have "put_bytes s (io_bytes s) = s" by (simp add: put_bytes_def io_bytes_def split: ios_buf.splits)
  moreover have "write_update_pos s = s" using wf by (simp add: write_update_pos_def writing_wf_def)
  ultimately show ?thesis using that [of s s] True wf re wr by simp
next
  case False
  have ext: "io_bpos s + length data \<le> length (io_bytes s)" using fits wf by (auto simp: writing_wf_def)
  obtain s1 where s1: "poke s (io_bpos s) data = Inr s1" "io_bytes s1 = overwrite (io_bytes s) (io_bpos s) data"
      "s1 = put_bytes s (io_bytes s1)"
    using poke_ok [OF ext False] by metis
  have f: "io_bm s1 = io_bm s" "io_bpos s1 = io_bpos s" "io_size s1 = io_size s" "io_maxsize s1 = io_maxsize s"
      "io_fd s1 = io_fd s" "io_state s1 = io_state s" "io_writable s1 = io_writable s" "io_ndirty s1 = io_ndirty s"
    by (subst s1(3), simp)+
  define s' where "s' = write_update_pos (s1\<lparr>io_bpos := io_bpos s1 + length data\<rparr>)"
  have g: "io_bm s' = io_bm s" "io_bpos s' = io_bpos s + length data" "io_size s' = io_bpos s'" "io_maxsize s' = io_maxsize s"
      "io_fd s' = io_fd s" "io_state s' = Bst_wr" "io_writable s' = io_writable s" "io_ndirty s' = io_bpos s'" "io_bytes s' = io_bytes s1"
    using f wf wr False by (auto simp: s'_def write_update_pos_def Let_def writing_wf_def)
  have p: "pending s' = pending s @ data"
    using s1(2) ext by (simp add: pending_def g overwrite_def)
  have "writing_wf s'"
    using wf fits g p bm nl s1(2) ext by (auto simp: writing_wf_def length_overwrite)
  moreover have "reached W0 W s' f (sent @ data)" using re p g by (auto simp: reached_def)
  ultimately show ?thesis using that [OF s1(1) s'_def] g by blast
qed

lemma writing_state: "writing_wf s \<Longrightarrow> writing_wf (s\<lparr>io_state := Bst_wr\<rparr>)"
  by (simp add: writing_wf_def pending_def)

lemma reached_state [simp]: "reached W0 W (s\<lparr>io_state := x\<rparr>) f sent = reached W0 W s f sent"
  "reached W0 W (s\<lparr>io_bm := y\<rparr>) f sent = reached W0 W s f sent"
  "reached W0 W (s\<lparr>io_fpos := z\<rparr>) f sent = reached W0 W s f sent"
  by (simp_all add: reached_def pending_def)

section \<open>Writing\<close>

declare ios_write_rec.simps [simp del]

lemma direct_writing:
  assumes wf: "writing_wf s" and re: "reached W0 W s f sent" and z: "io_bpos s = 0"
  obtains W' where "os_write_all W (io_fd s) data = (0, length data, W')"
    "writing_wf (s\<lparr>io_fpos := - 1\<rparr>)" "reached W0 W' (s\<lparr>io_fpos := - 1\<rparr>) f (sent @ data)"
proof -
  obtain w where w: "benign W" "offset f \<le> length (contents f)"
      "files W = (files W0)(io_fd s \<mapsto> file_write f w)" "sent = w"
    using re z by (auto simp: reached_def pending_def)
  have fw: "files W (io_fd s) = Some (file_write f w)" using w by simp
  obtain W' where W': "os_write_all W (io_fd s) data = (0, length data, W')" "benign W'"
      "files W' = (files W)(io_fd s \<mapsto> file_write (file_write f w) data)"
    using write_all_ok [OF w(1) fw file_write_within [OF w(2)]] by blast
  have "reached W0 W' s f (sent @ data)"
    using W' w z by (auto simp: reached_def pending_def file_write_append)
  moreover have "writing_wf (s\<lparr>io_fpos := - 1\<rparr>)" using wf by (simp add: writing_wf_def pending_def)
  ultimately show ?thesis using that W'(1) by simp
qed

text \<open>The outcome of a write: everything is accepted and the stream stays consistent.\<close>

definition wrote_all :: "os \<Rightarrow> ios \<Rightarrow> osfile \<Rightarrow> u8 list \<Rightarrow> u8 list \<Rightarrow> (nat \<times> os \<times> ios) result \<Rightarrow> bool" where
  "wrote_all W0 s f sent data r \<longleftrightarrow>
     (\<exists>W' s'. r = Inr (length data, W', s') \<and> writing_wf s' \<and> reached W0 W' s' f (sent @ data) \<and>
        io_bm s' = io_bm s \<and> io_fd s' = io_fd s \<and> io_maxsize s' = io_maxsize s \<and> io_state s' = Bst_wr)"

lemma write_block_fits:
  assumes wf: "writing_wf s" and re: "reached W0 W s f sent" and bm: "io_bm s = Bm_block"
    and fits: "length data \<le> io_maxsize s - io_bpos s" and ne: "data \<noteq> []"
  shows "wrote_all W0 s f sent data (ios_write_rec (Suc k) M W s data)"
proof -
  let ?s = "s\<lparr>io_state := Bst_wr\<rparr>"
  have wr: "io_writable s" "io_state s \<noteq> Bst_rd" using wf by (simp_all add: writing_wf_def)
  have re': "reached W0 W ?s f sent" using re by simp
  obtain s1 s' where s': "poke ?s (io_bpos ?s) data = Inr s1"
      "s' = write_update_pos (s1\<lparr>io_bpos := io_bpos s1 + length data\<rparr>)" "writing_wf s'"
      "reached W0 W s' f (sent @ data)" "io_bm s' = io_bm ?s" "io_fd s' = io_fd ?s" "io_maxsize s' = io_maxsize ?s"
      "io_state s' = Bst_wr"
    by (rule store_writing [OF writing_state [OF wf] re', of data]) (use fits bm in \<open>simp_all\<close>)
  have "ios_write_rec (Suc k) M W s data = Inr (length data, W, s')"
    using wr ne bm fits s'(1,2) by (simp add: ios_write_rec.simps Let_def)
  then show ?thesis using s' bm by (auto simp: wrote_all_def)
qed

lemma memrchr_split:
  assumes "memrchr data c = Some i"
  shows "i < length data" "c \<notin> set (drop (i + 1) data)"
proof -
  let ?t = "takeWhile (\<lambda>b. b \<noteq> c) (rev data)"
  have c: "c \<in> set data" and i: "i = length data - 1 - length ?t" using assms by (auto simp: memrchr_def split: if_splits)
  have lt: "length ?t < length data"
  proof -
    have "?t \<noteq> rev data" using c by (metis (mono_tags, lifting) set_rev set_takeWhileD)
    then show ?thesis using takeWhile_eq_all_conv length_takeWhile_le [of "\<lambda>b. b \<noteq> c" "rev data"]
      by (metis (no_types, lifting) le_neq_implies_less length_rev takeWhile_eq_take take_all_iff le_refl)
  qed
  then show il: "i < length data" using i by simp
  have "i + 1 = length data - length ?t" using i lt by simp
  then have "drop (i + 1) data = drop (length data - length ?t) data" by simp
  also have "\<dots> = rev (take (length ?t) (rev data))" by (simp add: take_rev)
  also have "\<dots> = rev ?t" by (simp add: takeWhile_eq_take [symmetric])
  finally show "c \<notin> set (drop (i + 1) data)" by (auto dest: set_takeWhileD)
qed

lemma memrchr_none: "memrchr data c = None \<longleftrightarrow> c \<notin> set data"
  by (simp add: memrchr_def)

lemma write_line_fits:
  assumes wf: "writing_wf s" and re: "reached W0 W s f sent" and bm: "io_bm s = Bm_line"
    and fits: "length data \<le> io_maxsize s - io_bpos s" and ne: "data \<noteq> []"
  shows "wrote_all W0 s f sent data (ios_write_rec (Suc (Suc k)) M W s data)"
proof -
  let ?s = "s\<lparr>io_state := Bst_wr\<rparr>"
  have wr: "io_writable s" "io_state s \<noteq> Bst_rd" using wf by (simp_all add: writing_wf_def)
  show ?thesis
  proof (cases "memrchr data newline")
    case None
    have re': "reached W0 W ?s f sent" using re by simp
    obtain s1 s' where s': "poke ?s (io_bpos ?s) data = Inr s1"
        "s' = write_update_pos (s1\<lparr>io_bpos := io_bpos s1 + length data\<rparr>)" "writing_wf s'"
        "reached W0 W s' f (sent @ data)" "io_bm s' = io_bm ?s" "io_fd s' = io_fd ?s" "io_maxsize s' = io_maxsize ?s"
      "io_state s' = Bst_wr"
      by (rule store_writing [OF writing_state [OF wf] re', of data]) (use fits bm None memrchr_none in \<open>simp_all\<close>)
    have "ios_write_rec (Suc (Suc k)) M W s data = Inr (length data, W, s')"
      using wr ne bm fits s'(1,2) None by (subst ios_write_rec.simps) (simp add: Let_def)
    then show ?thesis using s' bm by (auto simp: wrote_all_def)
  next
    case (Some nl)
    note nl = memrchr_split [OF Some]
    let ?b = "?s\<lparr>io_bm := Bm_block\<rparr>"
    let ?line = "take (nl + 1) data" and ?tail = "drop (nl + 1) data"
    have wb: "writing_wf ?b" using wf by (simp add: writing_wf_def pending_def)
    have rb: "reached W0 W ?b f sent" using re by simp
    have lb: "length ?line \<le> io_maxsize ?b - io_bpos ?b" using fits nl(1) by simp
    obtain W1 s1 where 1: "ios_write_rec (Suc k) M W ?b ?line = Inr (length ?line, W1, s1)" "writing_wf s1"
        "reached W0 W1 s1 f (sent @ ?line)" "io_bm s1 = Bm_block" "io_fd s1 = io_fd s" "io_maxsize s1 = io_maxsize s"
        "io_state s1 = Bst_wr"
      using write_block_fits [OF wb rb _ lb, of k M] nl(1) ne by (auto simp: wrote_all_def)
    obtain W2 s2 where 2: "ios_flush W1 s1 = Inr (0, W2, s2)" "writing_wf s2" "reached W0 W2 s2 f (sent @ ?line)"
        "io_bpos s2 = 0" "io_maxsize s2 = io_maxsize s1" "io_bm s2 = io_bm s1" "io_fd s2 = io_fd s1" "io_state s2 = io_state s1"
      using flush_writing [OF 1(2,3)] by metis
    let ?l = "s2\<lparr>io_bm := Bm_line\<rparr>"
    have wl: "writing_wf ?l" using 2(2,4) by (simp add: writing_wf_def pending_def)
    have rl: "reached W0 W2 ?l f (sent @ ?line)" using 2(3) by simp
    have tl: "length ?tail \<le> io_maxsize ?l - io_bpos ?l" using fits 2(4,5) 1(6) by simp
    obtain s3 s' where s': "poke ?l (io_bpos ?l) ?tail = Inr s3"
        "s' = write_update_pos (s3\<lparr>io_bpos := io_bpos s3 + length ?tail\<rparr>)" "writing_wf s'"
        "reached W0 W2 s' f ((sent @ ?line) @ ?tail)" "io_bm s' = io_bm ?l" "io_fd s' = io_fd ?l"
        "io_state s' = Bst_wr" "io_maxsize s' = io_maxsize ?l"
      by (rule store_writing [OF wl rl _ tl]) (use nl(2) 2(8) 1(7) in \<open>simp_all\<close>)
    have "length ?line + length ?tail = length data" using nl(1) by simp
    then have "ios_write_rec (Suc (Suc k)) M W s data = Inr (length data, W2, s')"
      using wr ne bm fits Some 1(1) 2(1) s'(1,2) by (subst ios_write_rec.simps) (simp add: Let_def)
    moreover have "reached W0 W2 s' f (sent @ data)" using s'(4) by simp
    moreover have "io_bm s' = io_bm s" "io_fd s' = io_fd s" "io_maxsize s' = io_maxsize s"
      using s'(5,6,8) 1(5,6) 2(5,7) bm by simp_all
    ultimately show ?thesis using s'(3,7) unfolding wrote_all_def by blast
  qed
qed

lemma ios_write_writing:
  assumes wf: "writing_wf s" and re: "reached W0 W s f sent" and ne: "data \<noteq> []"
  shows "wrote_all W0 s f sent data (ios_write M W s data)"
proof -
  let ?s = "s\<lparr>io_state := Bst_wr\<rparr>"
  have wr: "io_writable s" "io_state s \<noteq> Bst_rd" "io_bm s \<noteq> Bm_mem" using wf by (simp_all add: writing_wf_def)
  have wf': "writing_wf ?s" using writing_state [OF wf] .
  have re': "reached W0 W ?s f sent" using re by simp
  have fitting: "wrote_all W0 t f sent' data (ios_write_rec (Suc (Suc k)) M V t data)"
    if "writing_wf t" "reached W0 V t f sent'" "length data \<le> io_maxsize t - io_bpos t" "io_bm t = Bm_line \<or> io_bm t = Bm_block"
    for t V sent' k
    using that write_line_fits [of t W0 V f sent' data k M] write_block_fits [of t W0 V f sent' data "Suc k" M] ne by blast
  consider "io_bm s = Bm_none"
    | "io_bm s = Bm_line \<or> io_bm s = Bm_block" "length data \<le> io_maxsize s - io_bpos s"
    | "io_bm s = Bm_line \<or> io_bm s = Bm_block" "\<not> length data \<le> io_maxsize s - io_bpos s"
    using wr(3) by (cases "io_bm s") auto
  then show ?thesis
  proof cases
    case 1
    have z: "io_bpos ?s = 0" using wf 1 by (simp add: writing_wf_def)
    obtain W' where "os_write_all W (io_fd ?s) data = (0, length data, W')"
        "writing_wf (?s\<lparr>io_fpos := - 1\<rparr>)" "reached W0 W' (?s\<lparr>io_fpos := - 1\<rparr>) f (sent @ data)"
      using direct_writing [OF wf' re' z] by blast
    then show ?thesis using wr ne 1 unfolding ios_write_def numeral_3_eq_3
      by (subst ios_write_rec.simps) (simp add: Let_def wrote_all_def)
  next
    case 2
    then show ?thesis using fitting [OF wf re] by (simp add: ios_write_def numeral_3_eq_3)
  next
    case 3
    obtain W1 s1 where 1: "ios_flush W ?s = Inr (0, W1, s1)" "writing_wf s1" "reached W0 W1 s1 f sent"
        "io_bpos s1 = 0" "io_maxsize s1 = io_maxsize ?s" "io_bm s1 = io_bm ?s" "io_fd s1 = io_fd ?s" "io_state s1 = io_state ?s"
      using flush_writing [OF wf' re'] by metis
    have run: "ios_write M W s data =
        (if length data > MOST_OF (io_maxsize s)
         then (case os_write_all W1 (io_fd s1) data of (_, wrote, W) \<Rightarrow> Inr (wrote, W, s1\<lparr>io_fpos := - 1\<rparr>))
         else ios_write_rec (Suc (Suc 0)) M W1 s1 data)"
      using wr ne 3 1(1,5) unfolding ios_write_def numeral_3_eq_3
      by (subst ios_write_rec.simps) (auto simp: Let_def)
    show ?thesis
    proof (cases "length data > MOST_OF (io_maxsize s)")
      case True
      obtain W' where "os_write_all W1 (io_fd s1) data = (0, length data, W')"
          "writing_wf (s1\<lparr>io_fpos := - 1\<rparr>)" "reached W0 W' (s1\<lparr>io_fpos := - 1\<rparr>) f (sent @ data)"
        using direct_writing [OF 1(2,3,4)] by blast
      then show ?thesis using run True 1(5-8) by (simp add: wrote_all_def)
    next
      case False
      then have "length data \<le> io_maxsize s1 - io_bpos s1" using 1(4,5) by (simp add: MOST_OF_def)
      then have "wrote_all W0 s1 f sent data (ios_write_rec (Suc (Suc 0)) M W1 s1 data)"
        using fitting [OF 1(2,3)] 1(6) 3(1) by simp
      then show ?thesis using run False 1(5-7) by (simp add: wrote_all_def)
    qed
  qed
qed

fun write_each :: "mem_env \<Rightarrow> os \<Rightarrow> ios \<Rightarrow> u8 list list \<Rightarrow> (os \<times> ios) result" where
  "write_each M W s [] = Inr (W, s)"
| "write_each M W s (d # ds) = rbind (ios_write M W s d) (\<lambda>(n, W, s).
     rbind (assert_that (n = length d)) (\<lambda>_. write_each M W s ds))"

lemma write_each_writing:
  assumes "writing_wf s" "reached W0 W s f sent"
  shows "\<exists>W' s'. write_each M W s ds = Inr (W', s') \<and> writing_wf s' \<and> reached W0 W' s' f (sent @ concat ds) \<and>
    io_fd s' = io_fd s \<and> io_bm s' = io_bm s"
  using assms
proof (induction ds arbitrary: W s sent)
  case (Cons d ds)
  show ?case
  proof (cases "d = []")
    case True
    have "ios_write M W s [] = Inr (0, W, s)"
      unfolding ios_write_def numeral_3_eq_3 by (subst ios_write_rec.simps) simp
    then show ?thesis using Cons True by simp
  next
    case False
    obtain W1 s1 where 1: "ios_write M W s d = Inr (length d, W1, s1)" "writing_wf s1"
        "reached W0 W1 s1 f (sent @ d)" "io_bm s1 = io_bm s" "io_fd s1 = io_fd s"
      using ios_write_writing [OF Cons.prems False, of M] by (auto simp: wrote_all_def)
    then show ?thesis using Cons.IH [OF 1(2,3)] by auto
  qed
qed auto

lemma ios_fd_writing:
  assumes "roomy_mem M" "fd \<noteq> - 1" "benign W" "files W fd = Some f" "offset f \<le> length (contents f)"
  obtains s where "ios_fd M local fd isfile own = Inr s" "writing_wf s" "reached W W s f []" "io_fd s = fd"
    "io_bm s = (if fd = 1 then Bm_line else if fd = 2 then Bm_none else Bm_block)"
proof -
  define b where "b = \<lparr>io_buf = BufHeap (map (junk_byte M) [0 ..< IOS_BUFSIZE]), io_bm = Bm_block, io_state = Bst_none,
      io_maxsize = IOS_BUFSIZE, io_size = 0, io_bpos = 0,
      io_ndirty = 0, io_fpos = - 1, io_lineno = 1, io_u_colno = 0, io_fd = fd, io_readable = True,
      io_writable = True, io_ownbuf = True, io_ownfd = own, io_eof = False, io_rereadable = isfile,
      io_growable = True, io_local = local\<rparr>"
  define s where "s = b\<lparr>io_bm := (if fd = 1 then Bm_line else if fd = 2 then Bm_none else Bm_block)\<rparr>"
  have "ios_fd M local fd isfile own = Inr s"
    using assms(1) by (simp add: ios_fd_def buf_init_def ios_init_def buf_realloc_def llt_realloc_def roomy_mem_def
        io_bytes_def IOS_BUFSIZE_def IOS_INLSIZE_def s_def b_def)
  moreover have "writing_wf s"
    using assms(2) by (simp add: s_def b_def writing_wf_def pending_def io_bytes_def)
  moreover have "reached W W s f []"
    using assms(3-5) by (auto simp: reached_def s_def b_def pending_def file_write_nil fun_upd_idem)
  ultimately show ?thesis using that by (simp add: s_def b_def)
qed

section \<open>Properties\<close>

text \<open>
  C31: Buffered writes reach the file in order.  On a stream opened by \<open>ios_fd\<close> (block-buffered,
  line-buffered on descriptor 1, unbuffered on descriptor 2), any sequence of \<open>ios_write\<close> calls
  is accepted in full; at any moment the file holds the data written less a suffix still in
  the buffer, which on a line-buffered stream contains no newline; and \<open>ios_flush\<close> leaves the
  file with exactly the data, written at the offset the descriptor had.  System calls may
  transfer any part of a request and be interrupted any number of times.
\<close>

theorem ios_file_write_correct:
  assumes "roomy_mem M" "fd \<noteq> - 1" "benign W" "files W fd = Some f" "offset f \<le> length (contents f)"
  shows "\<exists>s W1 s1 W2 s2 w p. ios_fd M local fd isfile own = Inr s \<and> write_each M W s datas = Inr (W1, s1) \<and>
    files W1 = (files W)(fd \<mapsto> file_write f w) \<and> concat datas = w @ p \<and> (fd = 1 \<longrightarrow> newline \<notin> set p) \<and>
    ios_flush W1 s1 = Inr (0, W2, s2) \<and> files W2 = (files W)(fd \<mapsto> file_write f (concat datas))"
proof -
  obtain s where s: "ios_fd M local fd isfile own = Inr s" "writing_wf s" "reached W W s f []" "io_fd s = fd"
      "io_bm s = (if fd = 1 then Bm_line else if fd = 2 then Bm_none else Bm_block)"
    using ios_fd_writing [OF assms] by blast
  obtain W1 s1 where 1: "write_each M W s datas = Inr (W1, s1)" "writing_wf s1" "reached W W1 s1 f (concat datas)"
      "io_fd s1 = fd" "io_bm s1 = io_bm s"
    using write_each_writing [OF s(2,3)] s(4) by fastforce
  obtain w where w: "files W1 = (files W)(fd \<mapsto> file_write f w)" "concat datas = w @ pending s1"
    using 1(3,4) by (auto simp: reached_def)
  have nl: "fd = 1 \<longrightarrow> newline \<notin> set (pending s1)" using 1(2,5) s(5) by (simp add: writing_wf_def)
  obtain W2 s2 where "ios_flush W1 s1 = Inr (0, W2, s2)" "files W2 = (files W)(io_fd s1 \<mapsto> file_write f (concat datas))"
    using flush_writing [OF 1(2,3)] by blast
  then show ?thesis using s(1) 1(1,4) w nl by blast
qed

definition sample_file :: osfile where
  "sample_file = \<lparr>contents = [65, 66], offset = 1, seekable = True\<rparr>"

definition sample_world :: os where
  "sample_world = \<lparr>files = (\<lambda>_. None)(1 \<mapsto> sample_file), replies = [Fail EINTR, Xfer 1, Fail EAGAIN]\<rparr>"

theorem ios_file_write_correct_witness:
  "(\<exists>s W1 s1 W2 s2 w p. ios_fd sample_mem (replicate 83 0) 1 False False = Inr s \<and>
    write_each sample_mem sample_world s [[67], [68, 10, 69]] = Inr (W1, s1) \<and>
    files W1 = (files sample_world)(1 \<mapsto> file_write sample_file w) \<and>
    concat [[67], [68, 10, 69]] = w @ p \<and> (1 = (1 :: int) \<longrightarrow> newline \<notin> set p) \<and>
    ios_flush W1 s1 = Inr (0, W2, s2) \<and>
    files W2 = (files sample_world)(1 \<mapsto> file_write sample_file (concat [[67], [68, 10, 69]]))) \<and>
   contents (file_write sample_file (concat [[67], [68, 10, 69]])) = [65, 67, 68, 10, 69]"
proof
  show "contents (file_write sample_file (concat [[67], [68, 10, 69]])) = [65, 67, 68, 10, 69]"
    by (simp add: file_write_def sample_file_def)
qed (rule ios_file_write_correct,
    simp_all add: roomy_sample sample_world_def sample_file_def benign_def enonfatal_def)

end
