(* ===== verification/Hashing.thy ===== *)
theory Hashing
  imports Prelude
begin

text \<open>
  The hash functions of \<open>src/support/hashing.c\<close> and \<open>src/support/MurmurHash3.c\<close>.  The integer hashes
  are chains of invertible steps, so no two integers collide; the string hashes are built
  from the same kind of steps, so that changing a single aligned block of a string always
  changes its (full-width) hash.
\<close>

section \<open>Definitions\<close>

definition int32hash :: "u32 \<Rightarrow> u32" where
  "int32hash a =
     (let a = (a + 0x7ed55d16) + push_bit 12 a;
          a = (a XOR 0xc761c23c) XOR drop_bit 19 a;
          a = (a + 0x165667b1) + push_bit 5 a;
          a = (a + 0xd3a2646c) XOR push_bit 9 a;
          a = (a + 0xfd7046c5) + push_bit 3 a;
          a = (a XOR 0xb55a4f09) XOR drop_bit 16 a
      in a)"

definition int64hash :: "u64 \<Rightarrow> u64" where
  "int64hash key =
     (let key = NOT key + push_bit 21 key;
          key = key XOR drop_bit 24 key;
          key = (key + push_bit 3 key) + push_bit 8 key;
          key = key XOR drop_bit 14 key;
          key = (key + push_bit 2 key) + push_bit 4 key;
          key = key XOR drop_bit 28 key;
          key = key + push_bit 31 key
      in key)"

definition int64to32hash :: "u64 \<Rightarrow> u32" where
  "int64to32hash key =
     (let key = NOT key + push_bit 18 key;
          key = key XOR drop_bit 31 key;
          key = key * 21;
          key = key XOR drop_bit 11 key;
          key = key + push_bit 6 key;
          key = key XOR drop_bit 22 key
      in ucast key)"

definition rotl32 :: "u32 \<Rightarrow> nat \<Rightarrow> u32" where
  "rotl32 x r = push_bit r x OR drop_bit (32 - r) x"

definition rotl64 :: "u64 \<Rightarrow> nat \<Rightarrow> u64" where
  "rotl64 x r = push_bit r x OR drop_bit (64 - r) x"

definition fmix32 :: "u32 \<Rightarrow> u32" where
  "fmix32 h =
     (let h = h XOR drop_bit 16 h; h = h * 0x85ebca6b; h = h XOR drop_bit 13 h;
          h = h * 0xc2b2ae35; h = h XOR drop_bit 16 h in h)"

definition fmix64 :: "u64 \<Rightarrow> u64" where
  "fmix64 k =
     (let k = k XOR drop_bit 33 k; k = k * 0xff51afd7ed558ccd; k = k XOR drop_bit 33 k;
          k = k * 0xc4ceb9fe1a85ec53; k = k XOR drop_bit 33 k in k)"

text \<open>Unaligned little-endian loads of the first bytes of a list.\<close>

fun load_le :: "u8 list \<Rightarrow> 'a::len word" where
  "load_le [] = 0"
| "load_le (b # bs) = ucast b OR push_bit 8 (load_le bs)"

definition c1_32 :: u32 where "c1_32 = 0xcc9e2d51"
definition c2_32 :: u32 where "c2_32 = 0x1b873593"

definition mix_k32 :: "u32 \<Rightarrow> u32" where
  "mix_k32 k1 = (let k1 = k1 * c1_32; k1 = rotl32 k1 15 in k1 * c2_32)"

definition block32 :: "u32 \<Rightarrow> u32 \<Rightarrow> u32" where
  "block32 h1 k1 = (let h1 = h1 XOR mix_k32 k1; h1 = rotl32 h1 13 in h1 * 5 + 0xe6546b64)"

text \<open>The loop over the whole blocks; what remains is the tail.\<close>

function body32 :: "u32 \<Rightarrow> u8 list \<Rightarrow> u32 \<times> u8 list" where
  "body32 h1 data =
     (if length data \<ge> 4 then body32 (block32 h1 (load_le (take 4 data))) (drop 4 data) else (h1, data))"
  by pat_completeness auto
termination by (relation "measure (\<lambda>(h1, data). length data)") auto

declare body32.simps [simp del]

definition tail32 :: "u32 \<Rightarrow> u8 list \<Rightarrow> u32" where
  "tail32 h1 tail = (if tail = [] then h1 else h1 XOR mix_k32 (load_le tail))"

definition MurmurHash3_x86_32 :: "u8 list \<Rightarrow> u32 \<Rightarrow> u32" where
  "MurmurHash3_x86_32 data seed =
     (case body32 seed data of (h1, tail) \<Rightarrow> fmix32 (tail32 h1 tail XOR of_nat (length data)))"

definition c1_64 :: u64 where "c1_64 = 0x87c37b91114253d5"
definition c2_64 :: u64 where "c2_64 = 0x4cf5ad432745937f"

definition mix_k1 :: "u64 \<Rightarrow> u64" where
  "mix_k1 k1 = (let k1 = k1 * c1_64; k1 = rotl64 k1 31 in k1 * c2_64)"

definition mix_k2 :: "u64 \<Rightarrow> u64" where
  "mix_k2 k2 = (let k2 = k2 * c2_64; k2 = rotl64 k2 33 in k2 * c1_64)"

definition block64 :: "u64 \<times> u64 \<Rightarrow> u64 \<Rightarrow> u64 \<Rightarrow> u64 \<times> u64" where
  "block64 hs k1 k2 =
     (case hs of (h1, h2) \<Rightarrow>
       let h1 = h1 XOR mix_k1 k1; h1 = rotl64 h1 27; h1 = h1 + h2; h1 = h1 * 5 + 0x52dce729;
           h2 = h2 XOR mix_k2 k2; h2 = rotl64 h2 31; h2 = h2 + h1; h2 = h2 * 5 + 0x38495ab5
       in (h1, h2))"

function body64 :: "u64 \<times> u64 \<Rightarrow> u8 list \<Rightarrow> (u64 \<times> u64) \<times> u8 list" where
  "body64 hs data =
     (if length data \<ge> 16
      then body64 (block64 hs (load_le (take 8 data)) (load_le (take 8 (drop 8 data)))) (drop 16 data)
      else (hs, data))"
  by pat_completeness auto
termination by (relation "measure (\<lambda>(hs, data). length data)") auto

declare body64.simps [simp del]

definition tail64 :: "u64 \<times> u64 \<Rightarrow> u8 list \<Rightarrow> u64 \<times> u64" where
  "tail64 hs tail =
     (case hs of (h1, h2) \<Rightarrow>
       let h2 = (if length tail > 8 then h2 XOR mix_k2 (load_le (drop 8 tail)) else h2);
           h1 = (if tail \<noteq> [] then h1 XOR mix_k1 (load_le (take 8 tail)) else h1)
       in (h1, h2))"

definition final64 :: "u64 \<times> u64 \<Rightarrow> nat \<Rightarrow> u64 \<times> u64" where
  "final64 hs len =
     (case hs of (h1, h2) \<Rightarrow>
       let h1 = h1 XOR of_nat len; h2 = h2 XOR of_nat len;
           h1 = h1 + h2; h2 = h2 + h1;
           h1 = fmix64 h1; h2 = fmix64 h2;
           h1 = h1 + h2; h2 = h2 + h1
       in (h1, h2))"

definition MurmurHash3_x64_128 :: "u8 list \<Rightarrow> u32 \<Rightarrow> u64 \<times> u64" where
  "MurmurHash3_x64_128 data seed =
     (case body64 (ucast seed, ucast seed) data of (hs, tail) \<Rightarrow> final64 (tail64 hs tail) (length data))"

definition MHASH_SEED :: u32 where "MHASH_SEED = 0xcafe8881"

definition memhash :: "u8 list \<Rightarrow> u64" where
  "memhash buf = snd (MurmurHash3_x64_128 buf MHASH_SEED)"

definition memhash_seed :: "u8 list \<Rightarrow> u32 \<Rightarrow> u64" where
  "memhash_seed buf seed = snd (MurmurHash3_x64_128 buf seed)"

definition memhash32 :: "u8 list \<Rightarrow> u32" where
  "memhash32 buf = MurmurHash3_x86_32 buf MHASH_SEED"

definition memhash32_seed :: "u8 list \<Rightarrow> u32 \<Rightarrow> u32" where
  "memhash32_seed buf seed = MurmurHash3_x86_32 buf seed"

section \<open>Invertible steps\<close>

named_theorems inj_steps \<open>word operations that lose nothing\<close>

lemma inj_mult_odd [inj_steps]:
  fixes c :: "'a::len word"
  assumes "odd c"
  shows "inj (\<lambda>x. x * c)"
proof (rule injI)
  fix x y :: "'a word"
  assume "x * c = y * c"
  then have "(uint x * uint c) mod 2 ^ LENGTH('a) = (uint y * uint c) mod 2 ^ LENGTH('a)"
    by (metis uint_word_ariths(3))
  then have "2 ^ LENGTH('a) dvd (uint x - uint y) * uint c"
    by (simp add: mod_eq_dvd_iff left_diff_distrib)
  moreover have odd: "odd (uint c)" using assms bit_uint_iff [of c 0] by (simp add: bit_0)
  have "coprime (2 ^ LENGTH('a)) (uint c)"
    using odd by (simp add: coprime_power_left_iff coprime_left_2_iff_odd)
  ultimately have "2 ^ LENGTH('a) dvd uint x - uint y"
    by (simp add: coprime_dvd_mult_left_iff)
  then have "uint x mod 2 ^ LENGTH('a) = uint y mod 2 ^ LENGTH('a)"
    by (simp only: mod_eq_dvd_iff)
  then show "x = y" by (simp add: word_uint_eq_iff)
qed

lemma inj_add_const [inj_steps]: "inj (\<lambda>x :: 'a::len word. x + c)"
  by (simp add: inj_def)

lemma inj_xor_const [inj_steps]: "inj (\<lambda>x :: 'a::len word. x XOR c)"
  by (rule injI) (metis xor.assoc xor.right_neutral xor_self_eq)

lemma inj_xor_shr [inj_steps]:
  assumes "k > 0"
  shows "inj (\<lambda>x :: 'a::len word. x XOR drop_bit k x)"
proof (rule injI)
  fix x y :: "'a word"
  assume eq: "x XOR drop_bit k x = y XOR drop_bit k y"
  have "bit x i = bit y i" if "i < LENGTH('a)" for i
    using that
  proof (induction "LENGTH('a) - i" arbitrary: i rule: less_induct)
    case less
    have "bit (x XOR drop_bit k x) i = bit (y XOR drop_bit k y) i" using eq by simp
    then have "(bit x i \<noteq> bit x (k + i)) = (bit y i \<noteq> bit y (k + i))" by (simp add: bit_simps)
    moreover have "bit x (k + i) = bit y (k + i)"
    proof (cases "k + i < LENGTH('a)")
      case True
      then show ?thesis using less.hyps [of "k + i"] assms less.prems by simp
    next
      case False
      then show ?thesis by (metis bit_imp_le_length not_less)
    qed
    ultimately show ?case by blast
  qed
  then show "x = y" by (rule bit_word_eqI)
qed

lemma inj_compose: "inj f \<Longrightarrow> inj g \<Longrightarrow> inj (\<lambda>x. g (f x))"
  using inj_compose [of g f] by (simp add: comp_def)

lemma push_bit_mult: "push_bit k x = x * 2 ^ k" for x :: "'a::len word"
  by (simp add: push_bit_eq_mult)

lemma inj_rotl32 [inj_steps]: "0 < r \<Longrightarrow> r < 32 \<Longrightarrow> inj (\<lambda>x. rotl32 x r)"
proof (rule injI)
  fix x y :: u32
  assume r: "0 < r" "r < 32" and eq: "rotl32 x r = rotl32 y r"
  show "x = y"
  proof (rule bit_word_eqI)
    fix n assume "n < LENGTH(32)"
    then have n: "n < 32" by simp
    have b: "bit (rotl32 z r) m = (if m < r then bit z (32 - r + m) else m < 32 \<and> bit z (m - r))" if "m < 32" for z :: u32 and m
      using that r by (auto simp: rotl32_def bit_simps not_less dest: bit_imp_le_length)
    show "bit x n = bit y n"
    proof (cases "n + r < 32")
      case True
      then show ?thesis using b [of "n + r" x] b [of "n + r" y] eq by simp
    next
      case False
      then have m: "n + r - 32 < 32" "n + r - 32 < r" "32 - r + (n + r - 32) = n" using n r by auto
      show ?thesis using b [OF m(1), of x] b [OF m(1), of y] eq m(2,3) by simp
    qed
  qed
qed

lemma inj_rotl64 [inj_steps]: "0 < r \<Longrightarrow> r < 64 \<Longrightarrow> inj (\<lambda>x. rotl64 x r)"
proof (rule injI)
  fix x y :: u64
  assume r: "0 < r" "r < 64" and eq: "rotl64 x r = rotl64 y r"
  show "x = y"
  proof (rule bit_word_eqI)
    fix n assume "n < LENGTH(64)"
    then have n: "n < 64" by simp
    have b: "bit (rotl64 z r) m = (if m < r then bit z (64 - r + m) else m < 64 \<and> bit z (m - r))" if "m < 64" for z :: u64 and m
      using that r by (auto simp: rotl64_def bit_simps not_less dest: bit_imp_le_length)
    show "bit x n = bit y n"
    proof (cases "n + r < 64")
      case True
      then show ?thesis using b [of "n + r" x] b [of "n + r" y] eq by simp
    next
      case False
      then have m: "n + r - 64 < 64" "n + r - 64 < r" "64 - r + (n + r - 64) = n" using n r by auto
      show ?thesis using b [OF m(1), of x] b [OF m(1), of y] eq m(2,3) by simp
    qed
  qed
qed

text \<open>\<open>(a + c) ^ (a << k)\<close>: the low bits of the result determine the low bits of \<open>a\<close>, \<open>k\<close> at a time.\<close>

lemma take_bit_add_cancel:
  fixes x y c :: "'a::len word"
  assumes "take_bit n (x + c) = take_bit n (y + c)" "n \<le> LENGTH('a)"
  shows "take_bit n x = take_bit n y"
proof -
  have t: "uint (take_bit n z) = uint z mod 2 ^ n" for z :: "'a word"
    using take_bit_eq_mod [of n "uint z"] by (simp only: unsigned_take_bit_eq)
  have u: "uint (take_bit n (z + c)) = (uint z + uint c) mod 2 ^ n" for z :: "'a word"
    unfolding t uint_word_ariths using assms(2) by (simp add: mod_mod_cancel le_imp_power_dvd)
  have "(uint x + uint c) mod 2 ^ n = (uint y + uint c) mod 2 ^ n" using assms(1) u by metis
  then have "uint x mod 2 ^ n = uint y mod 2 ^ n" by (simp add: mod_eq_dvd_iff)
  then have "uint (take_bit n x) = uint (take_bit n y)" by (simp only: t)
  then show ?thesis by (simp add: word_uint_eq_iff)
qed

lemma inj_add_xor_shl [inj_steps]:
  assumes "k > 0"
  shows "inj (\<lambda>x :: 'a::len word. (x + c) XOR push_bit k x)"
proof (rule injI)
  fix x y :: "'a word"
  assume eq: "(x + c) XOR push_bit k x = (y + c) XOR push_bit k y"
  have "take_bit n x = take_bit n y" if "n \<le> LENGTH('a)" for n
    using that
  proof (induction n)
    case (Suc n)
    have sh: "take_bit (Suc n) (push_bit k x) = take_bit (Suc n) (push_bit k y)"
    proof -
      have "Suc n - k \<le> n" using assms by simp
      then have "take_bit (Suc n - k) x = take_bit (Suc n - k) y"
        using Suc.IH Suc.prems by (metis Suc_leD min.absorb1 take_bit_take_bit)
      then show ?thesis by (simp add: take_bit_push_bit)
    qed
    have "take_bit (Suc n) (x + c) = take_bit (Suc n) (y + c)"
    proof -
      have "take_bit (Suc n) ((x + c) XOR push_bit k x) = take_bit (Suc n) ((y + c) XOR push_bit k y)" using eq by simp
      then have "take_bit (Suc n) (x + c) XOR take_bit (Suc n) (push_bit k x) =
          take_bit (Suc n) (y + c) XOR take_bit (Suc n) (push_bit k x)" using sh by simp
      then show ?thesis by (metis xor.assoc xor.right_neutral xor_self_eq)
    qed
    then show ?case using Suc.prems by (rule take_bit_add_cancel)
  qed simp
  from this [OF order_refl] show "x = y" by simp
qed

section \<open>The integer hashes\<close>

lemma inj_int64hash: "inj int64hash"
proof -
  have 1: "NOT x + push_bit 21 x = x * (2 ^ 21 - 1) + (- 1)" for x :: u64
    by (simp add: push_bit_mult not_eq_complement algebra_simps)
  have 2: "(x + push_bit 3 x) + push_bit 8 x = x * 265" for x :: u64
    by (simp add: push_bit_mult algebra_simps)
  have 3: "(x + push_bit 2 x) + push_bit 4 x = x * 21" for x :: u64
    by (simp add: push_bit_mult algebra_simps)
  have 4: "x + push_bit 31 x = x * (2 ^ 31 + 1)" for x :: u64
    by (simp add: push_bit_mult algebra_simps)
  have "inj (\<lambda>x :: u64. x * (2 ^ 21 - 1) + (- 1))"
    by (rule inj_compose [OF inj_mult_odd inj_add_const]) simp
  from inj_compose [OF this inj_xor_shr [of 24]]
    have a: "inj (\<lambda>x :: u64. (x * (2 ^ 21 - 1) + - 1) XOR drop_bit 24 (x * (2 ^ 21 - 1) + - 1))" by simp
  note b = inj_compose [OF a inj_mult_odd [of "265 :: u64"]]
  note c = inj_compose [OF b inj_xor_shr [of 14]]
  note d = inj_compose [OF c inj_mult_odd [of "21 :: u64"]]
  note e = inj_compose [OF d inj_xor_shr [of 28]]
  note f = inj_compose [OF e inj_mult_odd [of "2 ^ 31 + 1 :: u64"]]
  have "int64hash = (\<lambda>x. int64hash x)" by simp
  then show ?thesis
    using f by (simp add: int64hash_def [abs_def] Let_def 1 2 3 4)
qed

lemma inj_int32hash: "inj int32hash"
proof -
  have 1: "(x + c) + push_bit 12 x = x * (2 ^ 12 + 1) + c" for x c :: u32
    by (simp add: push_bit_mult algebra_simps)
  have 2: "(x + c) + push_bit 5 x = x * (2 ^ 5 + 1) + c" for x c :: u32
    by (simp add: push_bit_mult algebra_simps)
  have 3: "(x + c) + push_bit 3 x = x * (2 ^ 3 + 1) + c" for x c :: u32
    by (simp add: push_bit_mult algebra_simps)
  have x: "inj (\<lambda>x :: u32. (x XOR c) XOR drop_bit k x)" if "k > 0" for c k
  proof -
    have "(\<lambda>x :: u32. (x XOR c) XOR drop_bit k x) = (\<lambda>x. (x XOR drop_bit k x) XOR c)"
      by (simp add: fun_eq_iff xor.assoc xor.commute xor.left_commute)
    then show ?thesis using inj_compose [OF inj_xor_shr [OF that] inj_xor_const, of c] by simp
  qed
  have m: "inj (\<lambda>x :: u32. x * m + c)" if "odd m" for m c
    by (rule inj_compose [OF inj_mult_odd [OF that] inj_add_const])
  note a = m [of "2 ^ 12 + 1" "0x7ed55d16"]
  note b = inj_compose [OF a x [of 19 "0xc761c23c"]]
  note c = inj_compose [OF b m [of "2 ^ 5 + 1" "0x165667b1"]]
  note d = inj_compose [OF c inj_add_xor_shl [of 9 "0xd3a2646c"]]
  note e = inj_compose [OF d m [of "2 ^ 3 + 1" "0xfd7046c5"]]
  note f = inj_compose [OF e x [of 16 "0xb55a4f09"]]
  show ?thesis
    using f by (simp add: int32hash_def [abs_def] Let_def 1 2 3)
qed

section \<open>The string hashes\<close>

lemma inj_fmix32: "inj fmix32"
proof -
  note a = inj_compose [OF inj_xor_shr [of 16] inj_mult_odd [of "0x85ebca6b :: u32"]]
  note b = inj_compose [OF a inj_xor_shr [of 13]]
  note c = inj_compose [OF b inj_mult_odd [of "0xc2b2ae35 :: u32"]]
  note d = inj_compose [OF c inj_xor_shr [of 16]]
  show ?thesis using d by (simp add: fmix32_def [abs_def] Let_def)
qed

lemma inj_fmix64: "inj fmix64"
proof -
  note a = inj_compose [OF inj_xor_shr [of 33] inj_mult_odd [of "0xff51afd7ed558ccd :: u64"]]
  note b = inj_compose [OF a inj_xor_shr [of 33]]
  note c = inj_compose [OF b inj_mult_odd [of "0xc4ceb9fe1a85ec53 :: u64"]]
  note d = inj_compose [OF c inj_xor_shr [of 33]]
  show ?thesis using d by (simp add: fmix64_def [abs_def] Let_def)
qed

lemma inj_mix_k32: "inj mix_k32"
proof -
  note a = inj_compose [OF inj_mult_odd [of c1_32] inj_rotl32 [of 15]]
  note b = inj_compose [OF a inj_mult_odd [of c2_32]]
  show ?thesis using b by (simp add: mix_k32_def [abs_def] Let_def c1_32_def c2_32_def)
qed

lemma inj_mix_k1: "inj mix_k1"
proof -
  note a = inj_compose [OF inj_mult_odd [of c1_64] inj_rotl64 [of 31]]
  note b = inj_compose [OF a inj_mult_odd [of c2_64]]
  show ?thesis using b by (simp add: mix_k1_def [abs_def] Let_def c1_64_def c2_64_def)
qed

lemma inj_mix_k2: "inj mix_k2"
proof -
  note a = inj_compose [OF inj_mult_odd [of c2_64] inj_rotl64 [of 33]]
  note b = inj_compose [OF a inj_mult_odd [of c1_64]]
  show ?thesis using b by (simp add: mix_k2_def [abs_def] Let_def c1_64_def c2_64_def)
qed

lemma xor_cancel [simp]:
  fixes x y z :: "'a::len word"
  shows "x XOR z = y XOR z \<longleftrightarrow> x = y" "z XOR x = z XOR y \<longleftrightarrow> x = y"
  by (metis xor.assoc xor.commute xor.right_neutral xor_self_eq)+

lemma block32_eq:
  "block32 h k = block32 h' k' \<longleftrightarrow> h XOR mix_k32 k = h' XOR mix_k32 k'"
proof -
  have "inj (\<lambda>x :: u32. rotl32 x 13 * 5 + 0xe6546b64)"
    by (rule inj_compose [OF inj_compose [OF inj_rotl32 [of 13] inj_mult_odd [of 5]] inj_add_const]) simp_all
  then show ?thesis by (auto simp: block32_def Let_def inj_def)
qed

lemma block32_inj:
  "block32 h k = block32 h' k \<longleftrightarrow> h = h'" "block32 h k = block32 h k' \<longleftrightarrow> k = k'"
  using inj_mix_k32 by (auto simp: block32_eq inj_def)

lemma block64_inj:
  "block64 hs k1 k2 = block64 hs' k1 k2 \<longleftrightarrow> hs = hs'"
  "block64 hs k1 k2 = block64 hs k1' k2' \<longleftrightarrow> k1 = k1' \<and> k2 = k2'"
proof -
  have r: "rotl64 x 27 = rotl64 y 27 \<longleftrightarrow> x = y" "rotl64 x 31 = rotl64 y 31 \<longleftrightarrow> x = y" for x y
    using inj_eq [OF inj_rotl64 [of 27], of x y] inj_eq [OF inj_rotl64 [of 31], of x y] by simp_all
  have m: "x * 5 = y * 5 \<longleftrightarrow> x = y" for x y :: u64
    using inj_eq [OF inj_mult_odd [of "5 :: u64"], of x y] by simp
  have k: "mix_k1 x = mix_k1 y \<longleftrightarrow> x = y" "mix_k2 x = mix_k2 y \<longleftrightarrow> x = y" for x y
    using inj_eq [OF inj_mix_k1] inj_eq [OF inj_mix_k2] by auto
  show "block64 hs k1 k2 = block64 hs k1' k2' \<longleftrightarrow> k1 = k1' \<and> k2 = k2'"
  proof
    assume eq: "block64 hs k1 k2 = block64 hs k1' k2'"
    obtain a b where h: "hs = (a, b)" by force
    define u where "u = (rotl64 (a XOR mix_k1 k1) 27 + b) * 5 + 0x52dce729"
    define u' where "u' = (rotl64 (a XOR mix_k1 k1') 27 + b) * 5 + 0x52dce729"
    have t: "(u, (rotl64 (b XOR mix_k2 k2) 31 + u) * 5 + 0x38495ab5) =
        (u', (rotl64 (b XOR mix_k2 k2') 31 + u') * 5 + 0x38495ab5)"
      using eq by (simp only: h block64_def Let_def prod.case u_def u'_def)
    have uu: "u = u'" using t by (simp only: prod.inject)
    have "(rotl64 (b XOR mix_k2 k2) 31 + u) * 5 = (rotl64 (b XOR mix_k2 k2') 31 + u) * 5"
      using t unfolding uu by (simp only: prod.inject add_right_cancel)
    then have "mix_k2 k2 = mix_k2 k2'" by (simp add: m r)
    moreover have "mix_k1 k1 = mix_k1 k1'" using uu by (simp add: u_def u'_def m r)
    ultimately show "k1 = k1' \<and> k2 = k2'" by (simp add: k)
  qed simp
  show "block64 hs k1 k2 = block64 hs' k1 k2 \<longleftrightarrow> hs = hs'"
  proof
    assume eq: "block64 hs k1 k2 = block64 hs' k1 k2"
    obtain a b a' b' where h: "hs = (a, b)" "hs' = (a', b')" by force
    define u where "u = (rotl64 (a XOR mix_k1 k1) 27 + b) * 5 + 0x52dce729"
    define u' where "u' = (rotl64 (a' XOR mix_k1 k1) 27 + b') * 5 + 0x52dce729"
    have t: "(u, (rotl64 (b XOR mix_k2 k2) 31 + u) * 5 + 0x38495ab5) =
        (u', (rotl64 (b' XOR mix_k2 k2) 31 + u') * 5 + 0x38495ab5)"
      using eq by (simp only: h block64_def Let_def prod.case u_def u'_def)
    have uu: "u = u'" using t by (simp only: prod.inject)
    have "(rotl64 (b XOR mix_k2 k2) 31 + u) * 5 = (rotl64 (b' XOR mix_k2 k2) 31 + u) * 5"
      using t unfolding uu by (simp only: prod.inject add_right_cancel)
    then have "b = b'" by (simp add: m r)
    then show "hs = hs'" using uu by (simp add: h u_def u'_def m r)
  qed simp
qed

lemma bit_load_le:
  "bit (load_le bs :: 'a::len word) i \<longleftrightarrow> i < LENGTH('a) \<and> i div 8 < length bs \<and> bit (bs ! (i div 8)) (i mod 8)"
proof (induction bs arbitrary: i)
  case (Cons b bs)
  show ?case
  proof (cases "i < 8")
    case True
    then show ?thesis by (auto simp: bit_simps)
  next
    case False
    then have "i div 8 = Suc ((i - 8) div 8)" "i mod 8 = (i - 8) mod 8" by (auto simp: le_div_geq le_mod_geq)
    moreover have "\<not> bit b i" using False bit_imp_le_length [of b i] by auto
    ultimately show ?thesis using Cons [of "i - 8"] False by (auto simp: bit_simps)
  qed
qed simp

lemma load_le_inj:
  assumes eq: "(load_le xs :: 'a::len word) = load_le ys" and len: "length xs = length ys" "8 * length xs \<le> LENGTH('a)"
  shows "xs = ys"
proof (rule nth_equalityI)
  fix i assume i: "i < length xs"
  show "xs ! i = ys ! i"
  proof (rule bit_word_eqI)
    fix n assume "n < LENGTH(8)"
    then have n: "n < 8" by simp
    then have *: "(8 * i + n) div 8 = i" "(8 * i + n) mod 8 = n" "8 * i + n < LENGTH('a)" using i len by auto
    have "bit (load_le xs :: 'a word) (8 * i + n) = bit (load_le ys :: 'a word) (8 * i + n)" using eq by simp
    then show "bit (xs ! i) n = bit (ys ! i) n" using i len * by (simp add: bit_load_le)
  qed
qed (rule len(1))

lemma body32_block: "length a = 4 \<Longrightarrow> body32 h (a @ q) = body32 (block32 h (load_le a)) q"
  by (subst body32.simps) simp

lemma body64_block: "length a = 16 \<Longrightarrow>
    body64 hs (a @ q) = body64 (block64 hs (load_le (take 8 a)) (load_le (drop 8 a))) q"
  by (subst body64.simps) simp

lemma body32_append:
  assumes "4 dvd length p"
  shows "body32 h (p @ q) = body32 (fst (body32 h p)) q"
  using assms
proof (induction "length p" arbitrary: p h rule: less_induct)
  case less
  show ?case
  proof (cases "p = []")
    case True
    then show ?thesis by (simp add: body32.simps [of h "[]"])
  next
    case False
    then have len: "4 \<le> length p" using less.prems by (auto dest: dvd_imp_le)
    have p: "p = take 4 p @ drop 4 p" "length (take 4 p) = 4" using len by simp_all
    have "body32 h (p @ q) = body32 (block32 h (load_le (take 4 p))) (drop 4 p @ q)"
      by (subst p(1), subst append_assoc) (rule body32_block [OF p(2)])
    also have "\<dots> = body32 (fst (body32 (block32 h (load_le (take 4 p))) (drop 4 p))) q"
      using less.hyps [of "drop 4 p"] less.prems len by simp
    also have "body32 (block32 h (load_le (take 4 p))) (drop 4 p) = body32 h p"
      using body32_block [OF p(2), of h "drop 4 p"] p(1) by simp
    finally show ?thesis .
  qed
qed

lemma body64_append:
  assumes "16 dvd length p"
  shows "body64 hs (p @ q) = body64 (fst (body64 hs p)) q"
  using assms
proof (induction "length p" arbitrary: p hs rule: less_induct)
  case less
  show ?case
  proof (cases "p = []")
    case True
    then show ?thesis by (simp add: body64.simps [of hs "[]"])
  next
    case False
    then have len: "16 \<le> length p" using less.prems by (auto dest: dvd_imp_le)
    have p: "p = take 16 p @ drop 16 p" "length (take 16 p) = 16" using len by simp_all
    define hs' where "hs' = block64 hs (load_le (take 8 (take 16 p))) (load_le (drop 8 (take 16 p)))"
    have "body64 hs (p @ q) = body64 hs' (drop 16 p @ q)"
      unfolding hs'_def by (subst p(1), subst append_assoc) (rule body64_block [OF p(2)])
    also have "\<dots> = body64 (fst (body64 hs' (drop 16 p))) q"
      using less.hyps [of "drop 16 p"] less.prems len by simp
    also have "body64 hs' (drop 16 p) = body64 hs p"
      using body64_block [OF p(2), of hs "drop 16 p"] p(1) by (simp add: hs'_def)
    finally show ?thesis .
  qed
qed

lemma body32_state: "snd (body32 h data) = snd (body32 h' data) \<and> (fst (body32 h data) = fst (body32 h' data) \<longleftrightarrow> h = h')"
proof (induction h data arbitrary: h' rule: body32.induct)
  case (1 h data)
  show ?case
  proof (cases "length data \<ge> 4")
    case True
    have "body32 h data = body32 (block32 h (load_le (take 4 data))) (drop 4 data)"
      "body32 h' data = body32 (block32 h' (load_le (take 4 data))) (drop 4 data)"
      by (subst body32.simps, simp add: True)+
    then show ?thesis using 1 [OF True] by (simp add: block32_inj)
  next
    case False
    then have "body32 h data = (h, data)" "body32 h' data = (h', data)" by (subst body32.simps, simp)+
    then show ?thesis by simp
  qed
qed

lemma body64_state: "snd (body64 h data) = snd (body64 h' data) \<and> (fst (body64 h data) = fst (body64 h' data) \<longleftrightarrow> h = h')"
proof (induction h data arbitrary: h' rule: body64.induct)
  case (1 h data)
  show ?case
  proof (cases "length data \<ge> 16")
    case True
    let ?k1 = "load_le (take 8 data)" and ?k2 = "load_le (take 8 (drop 8 data))"
    have "body64 h data = body64 (block64 h ?k1 ?k2) (drop 16 data)"
      "body64 h' data = body64 (block64 h' ?k1 ?k2) (drop 16 data)"
      by (subst body64.simps, simp add: True)+
    then show ?thesis using 1 [OF True] by (simp add: block64_inj)
  next
    case False
    then have "body64 h data = (h, data)" "body64 h' data = (h', data)" by (subst body64.simps, simp)+
    then show ?thesis by simp
  qed
qed

lemma tail64_inj: "tail64 hs t = tail64 hs' t \<longleftrightarrow> hs = hs'"
  by (cases hs; cases hs') (auto simp: tail64_def Let_def)

lemma final64_inj: "final64 hs n = final64 hs' n \<longleftrightarrow> hs = hs'"
proof
  assume eq: "final64 hs n = final64 hs' n"
  obtain a b a' b' where h: "hs = (a, b)" "hs' = (a', b')" by force
  define p q p' q' where d: "p = a XOR of_nat n" "q = b XOR of_nat n" "p' = a' XOR of_nat n" "q' = b' XOR of_nat n"
  have f: "fmix64 x = fmix64 y \<longleftrightarrow> x = y" for x y using inj_eq [OF inj_fmix64] by blast
  define x y x' y' where e: "x = fmix64 (p + q)" "y = fmix64 (q + (p + q))" "x' = fmix64 (p' + q')" "y' = fmix64 (q' + (p' + q'))"
  have "(x + y, y + (x + y)) = (x' + y', y' + (x' + y'))"
    using eq by (simp only: h final64_def Let_def prod.case d e)
  then have "x + y = x' + y'" "y + (x + y) = y' + (x' + y')" by blast+
  then have 1: "x + y = x' + y'" "y = y'" by (metis add_right_cancel)+
  then have "x = x'" by simp
  then have 1: "fmix64 (q + (p + q)) = fmix64 (q' + (p' + q'))" "fmix64 (p + q) = fmix64 (p' + q')"
    using 1(2) by (simp_all only: e)
  then have "q + (p + q) = q' + (p' + q')" "p + q = p' + q'" by (simp_all only: f)
  then have pq: "p + q = p' + q'" "q = q'" by (metis add_right_cancel)+
  then have "p = p'" by simp
  then show "hs = hs'" using pq(2) by (simp add: h d)
qed simp

section \<open>Properties\<close>

text \<open>
  C33: Two byte strings of the same length that differ in one aligned block only (16 bytes for
  the 128-bit hash, 4 bytes for the 32-bit one) have different hashes, for every seed.
\<close>

theorem murmur_block_injective:
  assumes "a \<noteq> b" "length a = length b"
  shows "(length a = 16 \<longrightarrow> 16 dvd length p \<longrightarrow>
            MurmurHash3_x64_128 (p @ a @ q) seed \<noteq> MurmurHash3_x64_128 (p @ b @ q) seed) \<and>
         (length a = 4 \<longrightarrow> 4 dvd length p \<longrightarrow>
            MurmurHash3_x86_32 (p @ a @ q) seed \<noteq> MurmurHash3_x86_32 (p @ b @ q) seed)"
proof (intro conjI impI notI)
  assume len: "length a = 16" "16 dvd length p"
    and eq: "MurmurHash3_x64_128 (p @ a @ q) seed = MurmurHash3_x64_128 (p @ b @ q) seed"
  define hs where "hs = fst (body64 (ucast seed, ucast seed) p)"
  define ha where "ha = block64 hs (load_le (take 8 a)) (load_le (drop 8 a))"
  define hb where "hb = block64 hs (load_le (take 8 b)) (load_le (drop 8 b))"
  have ab: "body64 (ucast seed, ucast seed) (p @ a @ q) = body64 ha q"
    "body64 (ucast seed, ucast seed) (p @ b @ q) = body64 hb q"
    using body64_block [of a hs q] body64_block [of b hs q] len(1) assms(2)
    by (simp_all only: body64_append [OF len(2)] hs_def [symmetric] ha_def hb_def)
  have "fst (body64 ha q) = fst (body64 hb q)"
    using eq ab body64_state [of ha q hb] assms(2)
    by (simp add: MurmurHash3_x64_128_def split_beta tail64_inj final64_inj)
  then have "ha = hb" using body64_state by blast
  then have "(load_le (take 8 a) :: u64) = load_le (take 8 b)" "(load_le (drop 8 a) :: u64) = load_le (drop 8 b)"
    by (simp_all add: ha_def hb_def block64_inj)
  then have "take 8 a = take 8 b" "drop 8 a = drop 8 b"
    using load_le_inj [where 'a = 64] len assms(2) by auto
  then show False using assms(1) by (metis append_take_drop_id)
next
  assume len: "length a = 4" "4 dvd length p"
    and eq: "MurmurHash3_x86_32 (p @ a @ q) seed = MurmurHash3_x86_32 (p @ b @ q) seed"
  define h where "h = fst (body32 seed p)"
  have ab: "body32 seed (p @ a @ q) = body32 (block32 h (load_le a)) q"
    "body32 seed (p @ b @ q) = body32 (block32 h (load_le b)) q"
    using body32_block [of a h q] body32_block [of b h q] len(1) assms(2)
    by (simp_all only: body32_append [OF len(2)] h_def [symmetric])
  have "fst (body32 (block32 h (load_le a)) q) = fst (body32 (block32 h (load_le b)) q)"
    using eq ab body32_state [of "block32 h (load_le a)" q "block32 h (load_le b)"] assms(2)
    by (simp add: MurmurHash3_x86_32_def split_beta inj_eq [OF inj_fmix32] tail32_def split: if_splits)
  then have "block32 h (load_le a) = block32 h (load_le b)" using body32_state by blast
  then have "(load_le a :: u32) = load_le b" by (simp add: block32_inj)
  then show False using load_le_inj [where 'a = 32] len assms by auto
qed

theorem murmur_block_injective_witness:
  "MurmurHash3_x86_32 ([1, 2, 3, 4] @ [5, 6, 7, 8] @ [9]) 7 \<noteq> MurmurHash3_x86_32 ([1, 2, 3, 4] @ [5, 6, 7, 9] @ [9]) 7"
  using murmur_block_injective [of "[5, 6, 7, 8]" "[5, 6, 7, 9]" "[1, 2, 3, 4]" "[9]" 7] by (simp add: eval_nat_numeral)

end
