(* ===== verification/Int2Str.thy ===== *)
theory Int2Str
  imports Prelude
begin

text \<open>
  Printing of unsigned integers into the end of a buffer (\<open>src/support/int2str.c\<close>).  With a base
  between 2 and 36 and enough room the text that \<open>uint2str\<close> leaves is the number in that base,
  without leading zeros and ended by a NUL, and reading it back gives the number.
\<close>

section \<open>Definitions\<close>

text \<open>\<open>(char)(num % b)\<close> as a digit; \<open>char\<close> is signed, as on the platforms the code is built for.\<close>

definition digit_char :: "u64 \<Rightarrow> u64 \<Rightarrow> u8" where
  "digit_char num b = (let ch = ucast (num mod b) :: u8 in if sint ch < 10 then ch + 48 else ch - 10 + 97)"

function uint2str_loop :: "u8 list \<Rightarrow> int \<Rightarrow> u64 \<Rightarrow> u64 \<Rightarrow> (u8 list \<times> int) result" where
  "uint2str_loop dest i num b =
     (if i < 0 then Inr (dest, i)
      else if b = 0 then Inl AssertFailed
      else rbind (rset dest (nat i) (digit_char num b)) (\<lambda>dest.
        if num div b = 0 then Inr (dest, i - 1) else uint2str_loop dest (i - 1) (num div b) b))"
  by pat_completeness auto
termination by (relation "measure (\<lambda>(dest, i, num, b). nat (i + 1))") auto

declare uint2str_loop.simps [simp del]

text \<open>The result is the buffer and the index of the text in it.\<close>

definition uint2str :: "u8 list \<Rightarrow> u64 \<Rightarrow> u64 \<Rightarrow> u32 \<Rightarrow> (u8 list \<times> nat) result" where
  "uint2str dest len num base =
     (let i = sint (ucast (len - 1) :: u32) in
      if i < 0 then Inl OutOfBounds
      else rbind (rset dest (nat i) 0) (\<lambda>dest.
           rbind (uint2str_loop dest (i - 1) num (ucast base)) (\<lambda>(dest, i). Inr (dest, nat (i + 1)))))"

definition isdigit_base :: "u8 \<Rightarrow> int \<Rightarrow> bool" where
  "isdigit_base c base =
     (let c = sint c in
      if base < 11 then 48 \<le> c \<and> c < 48 + base
      else (48 \<le> c \<and> c \<le> 57) \<or> (97 \<le> c \<and> c < 97 + base - 10) \<or> (65 \<le> c \<and> c < 65 + base - 10))"

section \<open>Numerals\<close>

text \<open>The numeral of a number and the value of a text, as in the commented-out \<open>str2int\<close>.\<close>

definition digit :: "nat \<Rightarrow> u8" where
  "digit d = of_nat (if d < 10 then 48 + d else 87 + d)"

function numeral_of :: "nat \<Rightarrow> nat \<Rightarrow> u8 list" where
  "numeral_of b n = (if b \<le> 1 \<or> n < b then [digit n] else numeral_of b (n div b) @ [digit (n mod b)])"
  by pat_completeness auto
termination by (relation "measure snd") auto

declare numeral_of.simps [simp del]

definition digit_value :: "u8 \<Rightarrow> nat" where
  "digit_value c = (if c \<le> 57 then unat c - 48 else unat c - 97 + 10)"

definition numeral_value :: "nat \<Rightarrow> u8 list \<Rightarrow> nat" where
  "numeral_value b cs = foldl (\<lambda>v c. v * b + digit_value c) 0 cs"

lemma numeral_value_simps [simp]:
  "numeral_value b [c] = digit_value c"
  "numeral_value b (cs @ [c]) = numeral_value b cs * b + digit_value c"
  by (simp_all add: numeral_value_def)

lemma digit_unat: "d < 36 \<Longrightarrow> unat (digit d) = (if d < 10 then 48 + d else 87 + d)"
  by (simp add: digit_def unat_of_nat)

lemma digit_value_digit: "d < 36 \<Longrightarrow> digit_value (digit d) = d"
  by (simp add: digit_value_def digit_unat word_le_nat_alt)

lemma sint_small: "d < 128 \<Longrightarrow> sint (of_nat d :: u8) = int d"
  by (simp add: sint_uint uint_nat unat_of_nat signed_take_bit_int_eq_self)

lemma digit_char_digit:
  assumes "2 \<le> unat b" "unat b \<le> 36"
  shows "digit_char num b = digit (unat num mod unat b)"
proof -
  define d where "d = unat num mod unat b"
  have d: "d < 36" using assms by (simp add: d_def order_less_le_trans [OF mod_less_divisor])
  have "unat (num mod b) = d" by (simp add: d_def unat_mod)
  then have "ucast (num mod b) = (of_nat d :: u8)" by (metis of_nat_unat)
  then have "digit_char num b = (if d < 10 then of_nat d + 48 else of_nat d - 10 + 97)"
    using d by (simp add: digit_char_def Let_def sint_small)
  then show ?thesis by (simp add: digit_def d_def)
qed

lemma numeral_of_step: "2 \<le> b \<Longrightarrow> numeral_of b n = (if n < b then [] else numeral_of b (n div b)) @ [digit (n mod b)]"
  by (subst numeral_of.simps) simp

lemma numeral_value_numeral: "2 \<le> b \<Longrightarrow> b \<le> 36 \<Longrightarrow> numeral_value b (numeral_of b n) = n"
proof (induction n rule: less_induct)
  case (less n)
  have m: "n mod b < 36" using less.prems by (simp add: order_less_le_trans [OF mod_less_divisor])
  show ?case
  proof (cases "n < b")
    case True
    then show ?thesis using less.prems m by (simp add: numeral_of_step digit_value_digit)
  next
    case False
    then have "n div b < n" using less.prems by (simp add: div_less_dividend)
    then show ?thesis using less m False numeral_of_step [of b n] by (simp add: digit_value_digit)
  qed
qed

lemma numeral_of_inj: "2 \<le> b \<Longrightarrow> b \<le> 36 \<Longrightarrow> numeral_of b m = numeral_of b n \<longleftrightarrow> m = n"
  by (metis numeral_value_numeral)

lemma isdigit_digit: "d < b \<Longrightarrow> b \<le> 36 \<Longrightarrow> isdigit_base (digit d) (int b)"
  by (simp add: isdigit_base_def digit_def Let_def sint_small)

lemma numeral_of_digits: "2 \<le> b \<Longrightarrow> b \<le> 36 \<Longrightarrow> c \<in> set (numeral_of b n) \<Longrightarrow> isdigit_base c (int b)"
proof (induction n rule: less_induct)
  case (less n)
  then have "isdigit_base (digit (n mod b)) (int b)" by (simp add: isdigit_digit)
  moreover have "isdigit_base c (int b)" if "\<not> n < b" "c \<in> set (numeral_of b (n div b))"
    using less.IH [of "n div b"] less.prems that by (simp add: div_less_dividend)
  ultimately show ?case using less.prems by (auto simp: numeral_of_step [of b n] split: if_splits)
qed

lemma isdigit_nonzero: "isdigit_base c b \<Longrightarrow> c \<noteq> 0"
  by (auto simp: isdigit_base_def Let_def split: if_splits)

lemma isdigit_no_hash: "isdigit_base c b \<Longrightarrow> c \<noteq> 35"
  by (auto simp: isdigit_base_def Let_def split: if_splits)

lemma numeral_of_length: "2 \<le> b \<Longrightarrow> 0 < k \<Longrightarrow> n < b ^ k \<Longrightarrow> length (numeral_of b n) \<le> k"
proof (induction k arbitrary: n)
  case (Suc k)
  show ?case
  proof (cases "n < b")
    case False
    then have "k \<noteq> 0" using Suc.prems by (cases k) auto
    moreover have "n div b < b ^ k" using Suc.prems by (simp add: less_mult_imp_div_less mult.commute)
    ultimately show ?thesis using Suc.IH [of "n div b"] Suc.prems False by (simp add: numeral_of_step [of b n])
  qed (simp add: numeral_of_step Suc.prems)
qed simp

lemma uint2str_loop_ok:
  assumes b: "2 \<le> unat b" "unat b \<le> 36" and "i < length dest"
    and "ds = numeral_of (unat b) (unat num)" "length ds \<le> Suc i"
  shows "uint2str_loop dest (int i) num b =
     Inr (take (Suc i - length ds) dest @ ds @ drop (Suc i) dest, int i - int (length ds))"
  using assms(3-)
proof (induction i arbitrary: num dest ds)
  case (0 num dest ds)
  have "unat num < unat b"
  proof (rule ccontr)
    assume "\<not> unat num < unat b"
    then have "2 \<le> length ds" using b 0
      by (simp add: numeral_of_step [of "unat b" "unat num"] numeral_of_step [of "unat b" "unat num div unat b"])
    then show False using 0 by simp
  qed
  then have "ds = [digit (unat num)]" "num div b = 0" using b 0
    by (simp_all add: numeral_of_step word_unat_eq_iff unat_div)
  moreover have "b \<noteq> 0" using b by auto
  ultimately show ?case using 0 b \<open>unat num < unat b\<close>
    by (subst uint2str_loop.simps) (simp add: digit_char_digit upd_conv_take_nth_drop)
next
  case (Suc i num dest ds)
  define dest1 where "dest1 = dest[Suc i := digit (unat num mod unat b)]"
  have b0: "b \<noteq> 0" using b by auto
  have dd: "drop (Suc i) dest1 = digit (unat num mod unat b) # drop (Suc (Suc i)) dest"
    using Suc.prems by (simp add: dest1_def drop_update_swap Cons_nth_drop_Suc [symmetric])
  have step: "uint2str_loop dest (int (Suc i)) num b =
      (if num div b = 0 then Inr (dest1, int i) else uint2str_loop dest1 (int i) (num div b) b)"
    using Suc.prems b b0 nat_int [of "Suc i"]
    by (subst uint2str_loop.simps) (simp add: digit_char_digit dest1_def del: nat_int)
  show ?case
  proof (cases "unat num < unat b")
    case True
    then have "num div b = 0" by (simp add: word_unat_eq_iff unat_div)
    moreover have "ds = [digit (unat num mod unat b)]" using Suc.prems b True by (simp add: numeral_of_step)
    moreover have "dest1 = take (Suc i) dest @ digit (unat num mod unat b) # drop (Suc (Suc i)) dest"
      using Suc.prems by (simp add: dest1_def upd_conv_take_nth_drop)
    ultimately show ?thesis using step by simp
  next
    case False
    then have "num div b \<noteq> 0" using b by (simp add: word_unat_eq_iff unat_div div_eq_0_iff)
    moreover define ds1 where "ds1 = numeral_of (unat b) (unat (num div b))"
    moreover have ds: "ds = ds1 @ [digit (unat num mod unat b)]"
      using Suc.prems b False by (simp add: ds1_def unat_div numeral_of_step [of "unat b" "unat num"])
    ultimately have "uint2str_loop dest (int (Suc i)) num b =
        Inr (take (Suc i - length ds1) dest1 @ ds1 @ drop (Suc i) dest1, int i - int (length ds1))"
      using step Suc.IH [of dest1 ds1 "num div b"] Suc.prems by (simp add: dest1_def)
    moreover have "take (Suc i - length ds1) dest1 = take (Suc i - length ds1) dest"
      by (simp add: dest1_def)
    ultimately show ?thesis using ds dd by simp
  qed
qed

text \<open>The text at the index that \<open>uint2str\<close> returns, up to its NUL.\<close>

lemma uint2str_ok:
  assumes b: "2 \<le> unat base" "unat base \<le> 36" and len: "length dest = unat len" "unat len < 2 ^ 31"
    and room: "length (numeral_of (unat base) (unat num)) < unat len"
  shows "uint2str dest len num base =
     Inr (take (unat len - 1 - length (numeral_of (unat base) (unat num))) dest @ numeral_of (unat base) (unat num) @ [0],
          unat len - 1 - length (numeral_of (unat base) (unat num)))"
proof -
  define ds where "ds = numeral_of (unat base) (unat num)"
  define dest0 where "dest0 = dest[unat len - 1 := 0]"
  have ub: "unat (ucast base :: u64) = unat base" using b by (intro unat_ucast_small) simp
  have ds0: "0 < length ds" using b by (simp add: ds_def numeral_of_step)
  have l: "unat (len - 1) = unat len - 1" using room by (simp add: unat_minus_one word_unat_eq_iff)
  have i: "sint (ucast (len - 1) :: u32) = int (unat len - 1)"
    using l len(2) by (simp add: sint_uint uint_nat unat_ucast_small signed_take_bit_int_eq_self)
  have "2 \<le> unat len" using room ds0 unfolding ds_def by linarith
  then obtain k where k: "unat len = Suc (Suc k)" using le_Suc_ex [of 2 "unat len"] by auto
  have "uint2str_loop dest0 (int k) num (ucast base) =
      Inr (take (Suc k - length ds) dest0 @ ds @ drop (Suc k) dest0, int k - int (length ds))"
    using b room len k ub by (intro uint2str_loop_ok) (simp_all add: ds_def dest0_def)
  moreover have "drop (Suc k) dest0 = [0]" using k len by (simp add: dest0_def drop_update_swap Cons_nth_drop_Suc [symmetric])
  moreover have "take (Suc k - length ds) dest0 = take (Suc k - length ds) dest" by (simp add: dest0_def k)
  moreover have "nat (1 + int k) = Suc k" "nat (int k - int (length ds) + 1) = Suc k - length ds" by simp_all
  ultimately show ?thesis using i k len room
    by (simp add: uint2str_def Let_def dest0_def [symmetric] ds_def [symmetric] dest0_def)
qed

section \<open>Properties\<close>

text \<open>
  With a base from 2 to 36 and a buffer that can hold the numeral, \<open>uint2str\<close> stays in the
  buffer and leaves the bytes before its text alone; the text consists of digits of the base,
  is ended by a NUL at the end of the buffer, and its value is the number printed.
\<close>

theorem uint2str_roundtrip:
  assumes b: "2 \<le> unat base" "unat base \<le> 36"
    and len: "length dest = unat len" "1 < unat len" "unat len < 2 ^ 31"
    and num: "unat num < unat base ^ (unat len - 1)"
  shows "\<exists>dest' n ds. uint2str dest len num base = Inr (dest', n) \<and>
     length dest' = length dest \<and> take n dest' = take n dest \<and> drop n dest' = ds @ [0] \<and>
     numeral_value (unat base) ds = unat num \<and> list_all (\<lambda>c. isdigit_base c (uint base)) ds"
proof -
  define ds where "ds = numeral_of (unat base) (unat num)"
  have l: "length ds < unat len" using numeral_of_length [OF b(1), of "unat len - 1" "unat num"] len num by (simp add: ds_def)
  then have "uint2str dest len num base = Inr (take (unat len - 1 - length ds) dest @ ds @ [0], unat len - 1 - length ds)"
    using uint2str_ok [OF b len(1,3)] by (simp add: ds_def)
  moreover have "numeral_value (unat base) ds = unat num" using b by (simp add: ds_def numeral_value_numeral)
  moreover have "list_all (\<lambda>c. isdigit_base c (uint base)) ds"
    unfolding ds_def list_all_iff uint_nat using numeral_of_digits [OF b] by blast
  moreover have "take n (take n dest @ xs) = take n dest" "drop n (take n dest @ ds @ [0]) = ds @ [0]"
    if "n \<le> length dest" for n xs using that by simp_all
  ultimately show ?thesis using l len(1)
    by (intro exI [of _ "take (unat len - 1 - length ds) dest @ ds @ [0]"] exI [of _ "unat len - 1 - length ds"] exI [of _ ds] conjI) simp_all
qed

theorem uint2str_roundtrip_witness:
  "\<exists>dest' n ds. uint2str [9, 9, 9, 9, 9] 5 255 16 = Inr (dest', n) \<and>
     length dest' = length [9, 9, 9, 9, 9 :: u8] \<and> take n dest' = take n [9, 9, 9, 9, 9] \<and> drop n dest' = ds @ [0] \<and>
     numeral_value (unat (16 :: u32)) ds = unat (255 :: u64) \<and> list_all (\<lambda>c. isdigit_base c (uint (16 :: u32))) ds"
  by (rule uint2str_roundtrip) simp_all

end
