(* ===== verification/Symbol.thy ===== *)
theory Symbol
  imports Hashing Int2Str
begin

text \<open>
  The symbol table (\<open>src/symbol.c\<close>): interned strings as nodes of a binary tree threaded through the
  symbols themselves.  A look-up turns left or right by the sign of the wrapped difference of two
  hashes, which is no order on hashes; what makes the tree work is only that the
  turns taken at a node depend on nothing but the string.  The invariant is therefore stated by
  search paths: every symbol lies on the path of its own name.
\<close>

section \<open>Symbols and slots\<close>

record jl_sym =
  sym_left :: ptr
  sym_right :: ptr
  sym_hash :: u64
  sym_name :: "u8 list"

text \<open>The places a link is stored in: the root variable, or a field of a symbol.  The name of a
  symbol is stored without its NUL.\<close>

datatype slot = Root | Left_of ptr | Right_of ptr

record symtab =
  symtab_root :: ptr
  syms :: "ptr \<rightharpoonup> jl_sym"

definition load_slot :: "symtab \<Rightarrow> slot \<Rightarrow> ptr result" where
  "load_slot T p =
     (case p of
       Root \<Rightarrow> Inr (symtab_root T)
     | Left_of a \<Rightarrow> (case syms T a of None \<Rightarrow> Inl OutOfBounds | Some n \<Rightarrow> Inr (sym_left n))
     | Right_of a \<Rightarrow> (case syms T a of None \<Rightarrow> Inl OutOfBounds | Some n \<Rightarrow> Inr (sym_right n)))"

definition store_slot :: "slot \<Rightarrow> ptr \<Rightarrow> symtab \<Rightarrow> symtab result" where
  "store_slot p v T =
     (case p of
       Root \<Rightarrow> Inr (T\<lparr>symtab_root := v\<rparr>)
     | Left_of a \<Rightarrow> (case syms T a of None \<Rightarrow> Inl OutOfBounds
                     | Some n \<Rightarrow> Inr (T\<lparr>syms := (syms T)(a \<mapsto> n\<lparr>sym_left := v\<rparr>)\<rparr>))
     | Right_of a \<Rightarrow> (case syms T a of None \<Rightarrow> Inl OutOfBounds
                     | Some n \<Rightarrow> Inr (T\<lparr>syms := (syms T)(a \<mapsto> n\<lparr>sym_right := v\<rparr>)\<rparr>)))"

definition MAX_SYM_LEN :: nat where
  "MAX_SYM_LEN = 2 ^ 63 - 1 - 8 - 24 - 1"

definition hash_symbol :: "u8 list \<Rightarrow> u64" where
  "hash_symbol str = int64hash (- (memhash str XOR (NOT 0 div 3) * 2))"

definition symbol_nbytes :: "u64 \<Rightarrow> u64" where
  "symbol_nbytes len = (24 + len + 1 + 7) AND -8"

section \<open>Look-up\<close>

text \<open>\<open>strncmp\<close> of the C library on NUL-terminated strings (the end of a list reads as NUL); only the
  sign of its result is used.\<close>

definition first_byte :: "u8 list \<Rightarrow> u8" where
  "first_byte s = (case s of [] \<Rightarrow> 0 | c # _ \<Rightarrow> c)"

fun strncmp :: "u8 list \<Rightarrow> u8 list \<Rightarrow> nat \<Rightarrow> int" where
  "strncmp s t 0 = 0"
| "strncmp s t (Suc n) =
     (if first_byte s \<noteq> first_byte t then uint (first_byte s) - uint (first_byte t)
      else if first_byte s = 0 then 0 else strncmp (tl s) (tl t) n)"

datatype walk = Hit ptr | Miss | Move slot

text \<open>One turn of the loop of \<open>symtab_lookup\<close>, at the slot \<open>ptree\<close>.\<close>

definition sym_turn :: "u8 list \<Rightarrow> ptr \<Rightarrow> jl_sym \<Rightarrow> walk result" where
  "sym_turn str node n =
     (let x = sint (hash_symbol str - sym_hash n);
          turn = (\<lambda>x. if x < 0 then Move (Left_of node) else Move (Right_of node)) in
      if x = 0 then
        let x = strncmp str (sym_name n) (length str) in
        if x = 0 then
          rbind (rget (sym_name n @ [0]) (length str)) (\<lambda>c. Inr (if c = 0 then Hit node else turn x))
        else Inr (turn x)
      else Inr (turn x))"

definition symtab_probe :: "symtab \<Rightarrow> u8 list \<Rightarrow> slot \<Rightarrow> walk result" where
  "symtab_probe T str ptree =
     rbind (load_slot T ptree) (\<lambda>node.
       if node = NULL then Inr Miss
       else case syms T node of None \<Rightarrow> Inl OutOfBounds | Some n \<Rightarrow> sym_turn str node n)"

text \<open>The result is the node found (or NULL) and the slot the search ended at.\<close>

partial_function (option) symtab_walk :: "symtab \<Rightarrow> u8 list \<Rightarrow> slot \<Rightarrow> (ptr \<times> slot) result option" where
  [code]: "symtab_walk T str ptree =
     (case symtab_probe T str ptree of
       Inl e \<Rightarrow> Some (Inl e)
     | Inr r \<Rightarrow> (case r of Hit node \<Rightarrow> Some (Inr (node, ptree)) | Miss \<Rightarrow> Some (Inr (NULL, ptree))
                | Move p \<Rightarrow> symtab_walk T str p))"

definition symtab_lookup :: "symtab \<Rightarrow> slot \<Rightarrow> u8 list \<Rightarrow> (ptr \<times> slot) result" where
  "symtab_lookup T ptree str = rbind (returns (symtab_walk T str ptree)) (\<lambda>r. r)"

section \<open>Interning\<close>

text \<open>The allocator of permanent objects is a parameter; \<open>None\<close> is that it has no memory.  Then
  \<open>jl_gc_permobj\<close> throws for an object above the pool limit of 20 kB (with its header of 8 bytes),
  and writes the header through NULL for a smaller one.\<close>

type_synonym permalloc = "(ptr \<rightharpoonup> jl_sym) \<Rightarrow> u64 \<Rightarrow> ptr option"

definition permobj_failure :: "u64 \<Rightarrow> c_error" where
  "permobj_failure nb = (if unat (nb + 8) > 20 * 1024 then JlThrow ''OutOfMemoryError'' '''' else NullWrite)"

definition mk_symbol :: "permalloc \<Rightarrow> u8 list \<Rightarrow> symtab \<Rightarrow> (ptr \<times> symtab) result" where
  "mk_symbol alloc str T =
     (let nb = symbol_nbytes (of_nat (length str)) in
      case alloc (syms T) nb of
        None \<Rightarrow> Inl (permobj_failure nb)
      | Some a \<Rightarrow>
          if unat nb < 24 + length str + 1 then Inl OutOfBounds
          else Inr (a, T\<lparr>syms := (syms T)(a \<mapsto>
                 \<lparr>sym_left = NULL, sym_right = NULL, sym_hash = hash_symbol str, sym_name = str\<rparr>)\<rparr>))"

text \<open>\<open>_jl_symbol\<close> run by one thread.\<close>

definition jl_symbol_len :: "permalloc \<Rightarrow> u8 list \<Rightarrow> symtab \<Rightarrow> (ptr \<times> symtab) result" where
  "jl_symbol_len alloc str T =
     (if length str > MAX_SYM_LEN then Inl (JlThrow ''ArgumentError'' ''Symbol name too long'')
      else
        rbind (assert_that (0 \<notin> set str)) (\<lambda>_.
        rbind (symtab_lookup T Root str) (\<lambda>(node, slot).
        if node \<noteq> NULL then Inr (node, T)
        else
          rbind (load_slot T slot) (\<lambda>v.
          rbind (if v \<noteq> NULL then symtab_lookup T slot str else Inr (NULL, slot)) (\<lambda>(node, slot).
          if node \<noteq> NULL then Inr (node, T)
          else
            rbind (mk_symbol alloc str T) (\<lambda>(node, T).
            rbind (store_slot slot node T) (\<lambda>T. Inr (node, T))))))))"

text \<open>A C string is the bytes before the first NUL of its memory.\<close>

definition c_string :: "u8 list \<Rightarrow> u8 list result" where
  "c_string buf = (if 0 \<in> set buf then Inr (takeWhile (\<lambda>c. c \<noteq> 0) buf) else Inl OutOfBounds)"

definition jl_symbol :: "permalloc \<Rightarrow> u8 list \<Rightarrow> symtab \<Rightarrow> (ptr \<times> symtab) result" where
  "jl_symbol alloc buf T = rbind (c_string buf) (\<lambda>str. jl_symbol_len alloc str T)"

definition jl_symbol_lookup :: "u8 list \<Rightarrow> symtab \<Rightarrow> ptr result" where
  "jl_symbol_lookup buf T = rbind (c_string buf) (\<lambda>str. rbind (symtab_lookup T Root str) (\<lambda>(node, slot). Inr node))"

definition jl_symbol_n :: "permalloc \<Rightarrow> u8 list \<Rightarrow> symtab \<Rightarrow> (ptr \<times> symtab) result" where
  "jl_symbol_n alloc str T =
     (if 0 \<in> set str then Inl (JlThrow ''ArgumentError'' (''Symbol name may not contain '' @ [CHR 0x5C, CHR ''0'']))
      else jl_symbol_len alloc str T)"

definition jl_get_root_symbol :: "symtab \<Rightarrow> ptr" where
  "jl_get_root_symbol T = symtab_root T"

section \<open>Generated symbols\<close>

record symbols =
  sym_tab :: symtab
  gs_ctr :: u32

definition jl_get_gs_ctr :: "symbols \<Rightarrow> u32" where
  "jl_get_gs_ctr S = gs_ctr S"

definition jl_set_gs_ctr :: "u32 \<Rightarrow> symbols \<Rightarrow> symbols" where
  "jl_set_gs_ctr ctr S = S\<lparr>gs_ctr := ctr\<rparr>"

text \<open>\<open>stk\<close> is what the buffer on the stack holds at first.\<close>

definition jl_gensym :: "permalloc \<Rightarrow> u8 list \<Rightarrow> symbols \<Rightarrow> (ptr \<times> symbols) result" where
  "jl_gensym alloc stk S =
     (let ctr = gs_ctr S; S = S\<lparr>gs_ctr := ctr + 1\<rparr> in
      rbind (uint2str (drop 2 stk) (16 - 2) (ucast ctr) 10) (\<lambda>(dest, n).
      let name = take 2 stk @ dest; n = n + 2 in
      rbind (rset name (n - 1) 35) (\<lambda>name.
      rbind (rset name (n - 2) 35) (\<lambda>name.
      rbind (jl_symbol alloc (drop (n - 2) name) (sym_tab S)) (\<lambda>(a, T). Inr (a, S\<lparr>sym_tab := T\<rparr>))))))"

text \<open>\<open>jl_tagged_gensym\<close> on a tag of known length; with the length \<open>-1\<close> the tag is a C string.\<close>

definition tagged_gensym :: "permalloc \<Rightarrow> u8 list \<Rightarrow> u8 list \<Rightarrow> symbols \<Rightarrow> (ptr \<times> symbols) result" where
  "tagged_gensym alloc stk str S =
     (let len = of_nat (length str) :: u64; alloc_len = 14 + len + 3 in
      if unat len > MAX_SYM_LEN \<or> unat alloc_len > MAX_SYM_LEN
      then Inl (JlThrow ''ArgumentError'' ''Symbol name too long'')
      else
        let ctr = gs_ctr S; S = S\<lparr>gs_ctr := ctr + 1\<rparr> in
        rbind (uint2str stk 14 (ucast ctr) 10) (\<lambda>(gs_name, n).
        let name = [35, 35] @ str @ [35] @ drop n gs_name in
        if length name > unat alloc_len then Inl OutOfBounds
        else
          rbind (jl_symbol_len alloc (take (unat alloc_len - n - 1) name) (sym_tab S)) (\<lambda>(a, T).
          Inr (a, S\<lparr>sym_tab := T\<rparr>))))"

definition jl_tagged_gensym :: "permalloc \<Rightarrow> u8 list \<Rightarrow> u8 list \<Rightarrow> bool \<Rightarrow> symbols \<Rightarrow> (ptr \<times> symbols) result" where
  "jl_tagged_gensym alloc stk buf whole S =
     (if whole then rbind (c_string buf) (\<lambda>str. tagged_gensym alloc stk str S)
      else if 0 \<in> set buf then Inl (JlThrow ''ArgumentError'' (''Symbol name may not contain '' @ [CHR 0x5C, CHR ''0'']))
      else tagged_gensym alloc stk buf S)"

section \<open>Comparison of names\<close>

lemma strncmp_prefix:
  assumes "0 \<notin> set s" "strncmp s t (length s) = 0"
  shows "take (length s) t = s"
  using assms
proof (induction s arbitrary: t)
  case (Cons c s)
  then show ?case by (cases t) (auto simp: first_byte_def word_uint_eq_iff split: if_splits)
qed simp

lemma strncmp_self: "strncmp s s n = 0"
  by (induction n arbitrary: s) auto

lemma sym_turn_cases:
  assumes "0 \<notin> set str"
  shows "sym_turn str node n = Inr (Hit node) \<or> sym_turn str node n = Inr (Move (Left_of node)) \<or>
     sym_turn str node n = Inr (Move (Right_of node))"
proof -
  have "length str < length (sym_name n @ [0])" if "strncmp str (sym_name n) (length str) = 0"
    using strncmp_prefix [OF assms that] by (metis length_append_singleton length_take less_Suc_eq_le min.cobounded1)
  then show ?thesis by (auto simp: sym_turn_def Let_def)
qed

lemma sym_turn_hit:
  assumes "0 \<notin> set str" "0 \<notin> set (sym_name n)" "sym_hash n = hash_symbol (sym_name n)"
  shows "sym_turn str node n = Inr (Hit a) \<longleftrightarrow> a = node \<and> sym_name n = str"
proof
  assume h: "sym_turn str node n = Inr (Hit a)"
  then have z: "strncmp str (sym_name n) (length str) = 0"
    by (auto simp: sym_turn_def Let_def split: if_splits)
  note p = strncmp_prefix [OF assms(1) z]
  then have l: "length str \<le> length (sym_name n)" by (metis length_take min.absorb_iff2 min.commute)
  then have "(sym_name n @ [0]) ! length str = 0" "a = node"
    using h z by (auto simp: sym_turn_def Let_def rget_def split: if_splits)
  then have "length str = length (sym_name n)"
    using l assms(2) by (metis le_neq_implies_less nth_append nth_mem)
  then show "a = node \<and> sym_name n = str" using p \<open>a = node\<close> by simp
next
  assume "a = node \<and> sym_name n = str"
  then show "sym_turn str node n = Inr (Hit a)"
    using assms(3) by (simp add: sym_turn_def strncmp_self nth_append)
qed

section \<open>Search paths\<close>

text \<open>The links of the tree, and what every table satisfies.\<close>

definition links :: "symtab \<Rightarrow> (ptr \<times> ptr) set" where
  "links T = {(a, b). b \<noteq> NULL \<and> (\<exists>n. syms T a = Some n \<and> (sym_left n = b \<or> sym_right n = b))}"

definition sym_ok :: "jl_sym \<Rightarrow> bool" where
  "sym_ok n \<longleftrightarrow> sym_hash n = hash_symbol (sym_name n) \<and> 0 \<notin> set (sym_name n) \<and> length (sym_name n) \<le> MAX_SYM_LEN"

definition tree_ok :: "symtab \<Rightarrow> bool" where
  "tree_ok T \<longleftrightarrow> syms T NULL = None \<and> finite (dom (syms T)) \<and> (\<forall>n \<in> ran (syms T). sym_ok n) \<and>
     (symtab_root T \<noteq> NULL \<longrightarrow> symtab_root T \<in> dom (syms T)) \<and> snd ` links T \<subseteq> dom (syms T) \<and> acyclic (links T)"

definition valid_slot :: "symtab \<Rightarrow> slot \<Rightarrow> bool" where
  "valid_slot T p \<longleftrightarrow> (case p of Root \<Rightarrow> True | Left_of a \<Rightarrow> a \<in> dom (syms T) | Right_of a \<Rightarrow> a \<in> dom (syms T))"

definition moves :: "symtab \<Rightarrow> u8 list \<Rightarrow> slot \<Rightarrow> slot \<Rightarrow> bool" where
  "moves T str p q \<longleftrightarrow> symtab_probe T str p = Inr (Move q)"

text \<open>The slots on the search path of a string.\<close>

definition on_path :: "symtab \<Rightarrow> u8 list \<Rightarrow> slot \<Rightarrow> bool" where
  "on_path T str = (moves T str)\<^sup>*\<^sup>* Root"

lemma on_path_Root [simp]: "on_path T str Root"
  by (simp add: on_path_def)

lemma on_path_step: "on_path T str p \<Longrightarrow> symtab_probe T str p = Inr (Move q) \<Longrightarrow> on_path T str q"
  unfolding on_path_def by (auto simp: moves_def intro: rtranclp.rtrancl_into_rtrancl)

lemma load_valid:
  assumes "tree_ok T" "valid_slot T p"
  obtains a where "load_slot T p = Inr a" "a = NULL \<or> a \<in> dom (syms T)"
proof (cases p)
  case Root
  then show ?thesis using assms(1) that [of "symtab_root T"] by (auto simp: load_slot_def tree_ok_def)
next
  case (Left_of b)
  then obtain n where n: "syms T b = Some n" using assms(2) by (auto simp: valid_slot_def)
  then have "sym_left n \<noteq> NULL \<Longrightarrow> (b, sym_left n) \<in> links T" by (auto simp: links_def)
  then show ?thesis using n Left_of assms(1) that [of "sym_left n"] by (force simp: load_slot_def tree_ok_def)
next
  case (Right_of b)
  then obtain n where n: "syms T b = Some n" using assms(2) by (auto simp: valid_slot_def)
  then have "sym_right n \<noteq> NULL \<Longrightarrow> (b, sym_right n) \<in> links T" by (auto simp: links_def)
  then show ?thesis using n Right_of assms(1) that [of "sym_right n"] by (force simp: load_slot_def tree_ok_def)
qed

text \<open>A turn of the search in a good table: it misses at an empty slot, hits the node of the string,
  or moves to a child slot of the node.\<close>

lemma probe_cases:
  assumes ok: "tree_ok T" and p: "valid_slot T p" and str: "0 \<notin> set str"
  obtains (miss) "load_slot T p = Inr NULL" "symtab_probe T str p = Inr Miss"
  | (hit) a n where "load_slot T p = Inr a" "a \<noteq> NULL" "syms T a = Some n" "sym_name n = str" "symtab_probe T str p = Inr (Hit a)"
  | (move) a n q where "load_slot T p = Inr a" "a \<noteq> NULL" "syms T a = Some n" "sym_name n \<noteq> str"
      "q = Left_of a \<or> q = Right_of a" "symtab_probe T str p = Inr (Move q)"
proof (rule load_valid [OF ok p])
  fix a assume a: "load_slot T p = Inr a" "a = NULL \<or> a \<in> dom (syms T)"
  show thesis
  proof (cases "a = NULL")
    case True
    then show thesis using a miss by (simp add: symtab_probe_def)
  next
    case False
    then obtain n where n: "syms T a = Some n" using a by auto
    then have "sym_ok n" using ok by (auto simp: tree_ok_def ran_def)
    then have h: "sym_turn str a n = Inr (Hit b) \<longleftrightarrow> b = a \<and> sym_name n = str" for b
      using sym_turn_hit [OF str] by (simp add: sym_ok_def)
    have pr: "symtab_probe T str p = sym_turn str a n" using a n False by (simp add: symtab_probe_def)
    consider "sym_turn str a n = Inr (Hit a)" | "sym_turn str a n = Inr (Move (Left_of a))"
      | "sym_turn str a n = Inr (Move (Right_of a))"
      using sym_turn_cases [OF str, of a n] by blast
    then show thesis
    proof cases
      case 1
      then show thesis using h hit [OF a(1) False n] pr by auto
    next
      case 2
      then have "sym_name n \<noteq> str" using h [of a] by auto
      then show thesis using 2 move [OF a(1) False n, of "Left_of a"] pr by auto
    next
      case 3
      then have "sym_name n \<noteq> str" using h [of a] by auto
      then show thesis using 3 move [OF a(1) False n, of "Right_of a"] pr by auto
    qed
  qed
qed

lemma probe_valid:
  assumes "tree_ok T" "valid_slot T p" "0 \<notin> set str" "symtab_probe T str p = Inr (Move q)"
  shows "valid_slot T q"
  using assms by (cases rule: probe_cases [OF assms(1-3)]) (auto simp: valid_slot_def)

lemma on_path_valid:
  assumes "tree_ok T" "0 \<notin> set str" "on_path T str p"
  shows "valid_slot T p"
  using assms(3) unfolding on_path_def
proof (induction rule: rtranclp_induct)
  case base
  then show ?case by (simp add: valid_slot_def)
next
  case (step p q)
  then show ?case using probe_valid [OF assms(1) _ assms(2)] by (auto simp: moves_def)
qed

lemma finite_links: "tree_ok T \<Longrightarrow> finite (links T)"
proof -
  assume ok: "tree_ok T"
  have "links T \<subseteq> dom (syms T) \<times> dom (syms T)"
  proof
    fix e assume "e \<in> links T"
    then have "fst e \<in> dom (syms T)" by (auto simp: links_def)
    moreover have "snd e \<in> dom (syms T)" using ok \<open>e \<in> links T\<close> unfolding tree_ok_def by blast
    ultimately have "fst e \<in> dom (syms T)" "snd e \<in> dom (syms T)" by simp_all
    then show "e \<in> dom (syms T) \<times> dom (syms T)" by (simp add: mem_Times_iff)
  qed
  then show ?thesis using ok by (meson finite_SigmaI finite_subset tree_ok_def)
qed

text \<open>The search ends: the links of the tree have no cycle.\<close>

lemma walk_ends:
  assumes ok: "tree_ok T" and p: "valid_slot T p" and str: "0 \<notin> set str"
  shows "\<exists>a q. symtab_walk T str p = Some (Inr (a, q)) \<and> (moves T str)\<^sup>*\<^sup>* p q \<and>
     symtab_probe T str q = Inr (if a = NULL then Miss else Hit a)"
proof -
  have "wf ((links T)\<inverse>)" by (rule finite_acyclic_wf_converse [OF finite_links [OF ok]]) (use ok in \<open>simp add: tree_ok_def\<close>)
  then show ?thesis using p
  proof (induction "projr (load_slot T p)" arbitrary: p rule: wf_induct_rule)
    case less
    show ?case using ok less.prems str
    proof (cases rule: probe_cases)
      case miss
      then show ?thesis by (subst symtab_walk.simps) (auto intro!: exI [of _ NULL])
    next
      case (hit a n)
      then show ?thesis by (subst symtab_walk.simps) (auto intro!: exI [of _ a])
    next
      case (move a n q)
      have v: "valid_slot T q" using probe_valid [OF ok less.prems str move(6)] .
      have w: "symtab_walk T str p = symtab_walk T str q" using move(6) by (subst symtab_walk.simps) simp
      have m: "moves T str p q" using move(6) by (simp add: moves_def)
      obtain b where b: "load_slot T q = Inr b" using load_valid [OF ok v] by blast
      show ?thesis
      proof (cases "b = NULL")
        case True
        then have "symtab_probe T str q = Inr Miss" using b by (simp add: symtab_probe_def)
        then have "symtab_walk T str q = Some (Inr (NULL, q))" by (subst symtab_walk.simps) simp
        then show ?thesis using w m \<open>symtab_probe T str q = Inr Miss\<close> by auto
      next
        case False
        then have "(b, a) \<in> (links T)\<inverse>" using b move(3,5) by (auto simp: load_slot_def links_def)
        then have "(projr (load_slot T q), projr (load_slot T p)) \<in> (links T)\<inverse>" using b move(1) by simp
        from less.hyps [OF this v] show ?thesis using w m by (metis converse_rtranclp_into_rtranclp)
      qed
    qed
  qed
qed

text \<open>What a table holds, by its own look-up of the strings that can be symbols.\<close>

definition interned :: "symtab \<Rightarrow> u8 list \<Rightarrow> ptr option" where
  "interned T str = (if 0 \<in> set str then None else case symtab_walk T str Root of
     Some (Inr (a, p)) \<Rightarrow> if a = NULL then None else Some a | _ \<Rightarrow> None)"

text \<open>The path of a string has one end.\<close>

lemma path_end_unique:
  assumes "(moves T str)\<^sup>*\<^sup>* r p" "(moves T str)\<^sup>*\<^sup>* r q" "\<And>x. \<not> moves T str p x" "\<And>x. \<not> moves T str q x"
  shows "p = q"
  using assms(1,2)
proof (induction rule: converse_rtranclp_induct)
  case base
  then show ?case using assms(3) by (metis converse_rtranclpE)
next
  case (step y z)
  from step.prems step.hyps(1) assms(4) obtain w where "moves T str y w" "(moves T str)\<^sup>*\<^sup>* w q"
    by (metis converse_rtranclpE)
  moreover have "w = z" using calculation(1) step.hyps(1) by (simp add: moves_def)
  ultimately show ?case using step.IH by blast
qed

lemma interned_path:
  assumes "tree_ok T" "0 \<notin> set str" "on_path T str p"
  shows "symtab_probe T str p = Inr (Hit a) \<Longrightarrow> interned T str = Some a"
    and "symtab_probe T str p = Inr Miss \<Longrightarrow> interned T str = None"
    and "symtab_probe T str p = Inr r \<Longrightarrow> (\<And>q. r \<noteq> Move q) \<Longrightarrow> symtab_walk T str Root = Some (Inr (case interned T str of None \<Rightarrow> NULL | Some a \<Rightarrow> a, p))"
proof -
  obtain b q where w: "symtab_walk T str Root = Some (Inr (b, q))" "on_path T str q"
      "symtab_probe T str q = Inr (if b = NULL then Miss else Hit b)"
    using walk_ends [OF assms(1) _ assms(2), of Root] by (auto simp: valid_slot_def on_path_def)
  have "p = q" if "symtab_probe T str p = Inr r" "\<And>q. r \<noteq> Move q" for r
  proof (rule path_end_unique)
    show "(moves T str)\<^sup>*\<^sup>* Root p" "(moves T str)\<^sup>*\<^sup>* Root q" using assms(3) w(2) by (simp_all add: on_path_def)
    show "\<not> moves T str p x" "\<not> moves T str q x" for x using that w(3) by (auto simp: moves_def split: if_splits)
  qed
  note e = this
  have i: "interned T str = (if b = NULL then None else Some b)" using w(1) assms(2) by (simp add: interned_def)
  show "interned T str = Some a" if h: "symtab_probe T str p = Inr (Hit a)"
    using e [OF h] h w(3) i by (simp split: if_splits)
  show "interned T str = None" if h: "symtab_probe T str p = Inr Miss"
    using e [OF h] h w(3) i by (simp split: if_splits)
  show "symtab_walk T str Root = Some (Inr (case interned T str of None \<Rightarrow> NULL | Some a \<Rightarrow> a, p))"
    if h: "symtab_probe T str p = Inr r" "\<And>q. r \<noteq> Move q"
    using e [OF h] w(1) i by simp
qed

lemma interned_end:
  assumes "tree_ok T" "0 \<notin> set str"
  obtains (absent) p where "interned T str = None" "symtab_walk T str Root = Some (Inr (NULL, p))" "on_path T str p"
      "symtab_probe T str p = Inr Miss"
  | (present) a p where "interned T str = Some a" "a \<noteq> NULL" "symtab_walk T str Root = Some (Inr (a, p))" "on_path T str p"
      "symtab_probe T str p = Inr (Hit a)"
proof -
  obtain b q where w: "symtab_walk T str Root = Some (Inr (b, q))" "on_path T str q"
      "symtab_probe T str q = Inr (if b = NULL then Miss else Hit b)"
    using walk_ends [OF assms(1) _ assms(2), of Root] by (auto simp: valid_slot_def on_path_def)
  show thesis
  proof (cases "b = NULL")
    case True
    then show thesis using w assms(2) by (intro absent [of q]) (simp_all add: interned_def)
  next
    case False
    then show thesis using w assms(2) by (intro present [of b q]) (simp_all add: interned_def)
  qed
qed

lemma interned_no_nul: "interned T str = Some a \<Longrightarrow> 0 \<notin> set str"
  by (simp add: interned_def split: if_splits)

lemma interned_name:
  assumes ok: "tree_ok T" and i: "interned T str = Some a"
  obtains n where "syms T a = Some n" "sym_name n = str" "a \<noteq> NULL"
proof -
  note z = interned_no_nul [OF i]
  show thesis using ok z
  proof (cases rule: interned_end)
    case (present b p)
    then have h: "symtab_probe T str p = Inr (Hit a)" using i by simp
    show thesis
      by (rule probe_cases [OF ok on_path_valid [OF ok z present(4)] z]) (use that h in simp_all)
  qed (use i in simp)
qed

section \<open>Growth of the table\<close>

text \<open>A table extends another when links that were set and the names of symbols are kept.\<close>

definition extends :: "symtab \<Rightarrow> symtab \<Rightarrow> bool" where
  "extends T T' \<longleftrightarrow>
     (\<forall>p a. load_slot T p = Inr a \<longrightarrow> a \<noteq> NULL \<longrightarrow> load_slot T' p = Inr a) \<and>
     (\<forall>a n. syms T a = Some n \<longrightarrow> (\<exists>n'. syms T' a = Some n' \<and> sym_name n' = sym_name n \<and> sym_hash n' = sym_hash n))"

lemma extends_refl [simp]: "extends T T"
  by (simp add: extends_def)

lemma sym_turn_cong: "sym_name n = sym_name n' \<Longrightarrow> sym_hash n = sym_hash n' \<Longrightarrow> sym_turn str a n = sym_turn str a n'"
  by (simp add: sym_turn_def Let_def)

lemma extends_probe:
  assumes e: "extends T T'" and r: "symtab_probe T str p = Inr r" "r \<noteq> Miss"
  shows "symtab_probe T' str p = Inr r"
proof -
  from r obtain a n where a: "load_slot T p = Inr a" "a \<noteq> NULL" "syms T a = Some n" "sym_turn str a n = Inr r"
    by (auto simp: symtab_probe_def rbind_eq_Inr_iff split: if_splits option.splits)
  moreover obtain n' where "syms T' a = Some n'" "sym_name n' = sym_name n" "sym_hash n' = sym_hash n"
    using e a(3) unfolding extends_def by blast
  moreover have "load_slot T' p = Inr a" using e a unfolding extends_def by blast
  ultimately show ?thesis using sym_turn_cong [of n n' str a] by (simp add: symtab_probe_def)
qed

lemma extends_path:
  assumes "extends T T'" "on_path T str p"
  shows "on_path T' str p"
  using assms(2) unfolding on_path_def
proof (rule rtranclp_mono [THEN predicate2D, rotated])
  show "moves T str \<le> moves T' str" using extends_probe [OF assms(1)] by (auto simp: moves_def)
qed

lemma extends_interned:
  assumes "extends T T'" "tree_ok T" "tree_ok T'" "interned T str = Some a"
  shows "interned T' str = Some a"
  using assms(2) interned_no_nul [OF assms(4)]
proof (cases rule: interned_end)
  case (present b p)
  then show ?thesis using assms interned_path(1) [OF assms(3) interned_no_nul [OF assms(4)] extends_path [OF assms(1)]] extends_probe [OF assms(1)]
    by auto
qed (use assms in simp)

definition new_sym :: "u8 list \<Rightarrow> jl_sym" where
  "new_sym str = \<lparr>sym_left = NULL, sym_right = NULL, sym_hash = hash_symbol str, sym_name = str\<rparr>"

definition add_sym :: "ptr \<Rightarrow> u8 list \<Rightarrow> symtab \<Rightarrow> symtab" where
  "add_sym a str T = T\<lparr>syms := (syms T)(a \<mapsto> new_sym str)\<rparr>"

definition good_name :: "u8 list \<Rightarrow> bool" where
  "good_name str \<longleftrightarrow> 0 \<notin> set str \<and> length str \<le> MAX_SYM_LEN"

lemma good_nameD [dest]: "good_name str \<Longrightarrow> 0 \<notin> set str"
  by (simp add: good_name_def)

text \<open>Allocating a symbol changes no search.\<close>

definition can_add :: "symtab \<Rightarrow> ptr \<Rightarrow> u8 list \<Rightarrow> bool" where
  "can_add T a str \<longleftrightarrow> tree_ok T \<and> syms T a = None \<and> a \<noteq> NULL \<and> good_name str"

lemma add_load: "can_add T a str \<Longrightarrow> valid_slot T p \<Longrightarrow> load_slot (add_sym a str T) p = load_slot T p"
  by (auto simp: can_add_def load_slot_def add_sym_def valid_slot_def split: slot.splits)

lemma add_links: "can_add T a str \<Longrightarrow> links (add_sym a str T) = links T"
  by (auto simp: can_add_def links_def add_sym_def new_sym_def split: if_splits)

lemma add_ok:
  assumes c: "can_add T a str"
  shows "tree_ok (add_sym a str T)"
proof -
  have ok: "tree_ok T" and new: "syms T a = None" "a \<noteq> NULL" and str: "good_name str"
    using c by (simp_all add: can_add_def)
  have "ran (syms (add_sym a str T)) = insert (new_sym str) (ran (syms T))" "dom (syms (add_sym a str T)) = insert a (dom (syms T))"
    using new by (simp_all add: add_sym_def ran_map_upd)
  moreover have "sym_ok (new_sym str)" using str by (simp add: sym_ok_def new_sym_def good_name_def)
  moreover have "syms (add_sym a str T) NULL = None" "symtab_root (add_sym a str T) = symtab_root T"
    using ok new by (simp_all add: add_sym_def tree_ok_def)
  ultimately show ?thesis using ok unfolding tree_ok_def add_links [OF c] by auto
qed

lemma add_extends: "can_add T a str \<Longrightarrow> extends T (add_sym a str T)"
  by (auto simp: can_add_def extends_def load_slot_def add_sym_def split: slot.splits option.splits)

lemma add_interned:
  assumes c: "can_add T a str"
  shows "interned (add_sym a str T) = interned T"
proof
  fix s
  have ok: "tree_ok T" using c by (simp add: can_add_def)
  show "interned (add_sym a str T) s = interned T s"
  proof (cases "0 \<in> set s")
    case True
    then show ?thesis by (simp add: interned_def)
  next
    case False
    show ?thesis using ok False
    proof (cases rule: interned_end)
      case (absent p)
      have "load_slot T p = Inr NULL"
        by (rule probe_cases [OF ok on_path_valid [OF ok False absent(3)] False]) (use absent in simp_all)
      then have "symtab_probe (add_sym a str T) s p = Inr Miss"
        using add_load [OF c on_path_valid [OF ok False absent(3)]] by (simp add: symtab_probe_def)
      then show ?thesis using absent interned_path(2) [OF add_ok [OF c] False extends_path [OF add_extends [OF c] absent(3)]] by simp
    next
      case (present b p)
      then show ?thesis using extends_interned [OF add_extends [OF c] ok add_ok [OF c]] by simp
    qed
  qed
qed

text \<open>Publishing an allocated symbol in an empty slot on the path of its name.\<close>

definition can_publish :: "symtab \<Rightarrow> slot \<Rightarrow> ptr \<Rightarrow> u8 list \<Rightarrow> bool" where
  "can_publish T p a str \<longleftrightarrow> tree_ok T \<and> good_name str \<and> syms T a = Some (new_sym str) \<and> a \<noteq> NULL \<and>
     on_path T str p \<and> load_slot T p = Inr NULL \<and> p \<noteq> Left_of a \<and> p \<noteq> Right_of a"

lemma store_valid:
  assumes "valid_slot T p"
  obtains T' where "store_slot p v T = Inr T'"
  using assms by (cases p) (auto simp: store_slot_def valid_slot_def split: option.splits)

lemma store_load:
  "store_slot p v T = Inr T' \<Longrightarrow> load_slot T' q = (if q = p then Inr v else load_slot T q)"
  by (cases p; cases q) (auto simp: store_slot_def load_slot_def split: option.splits if_splits)

lemma store_syms:
  assumes "store_slot p v T = Inr T'"
  shows "dom (syms T') = dom (syms T)"
    and "syms T b = Some n \<Longrightarrow> \<exists>n'. syms T' b = Some n' \<and> sym_name n' = sym_name n \<and> sym_hash n' = sym_hash n"
    and "syms T' b = Some n' \<Longrightarrow> \<exists>n. syms T b = Some n \<and> sym_name n' = sym_name n \<and> sym_hash n' = sym_hash n"
  using assms by (cases p; auto simp: store_slot_def split: option.splits if_splits)+

lemma store_links:
  assumes "store_slot p a T = Inr T'" "load_slot T p = Inr NULL"
  shows "links T' \<subseteq> links T \<union> {(b, a) | b. p = Left_of b \<or> p = Right_of b}"
  using assms by (cases p) (auto simp: store_slot_def load_slot_def links_def split: option.splits if_splits)

lemma publish_ok:
  assumes c: "can_publish T p a str" and st: "store_slot p a T = Inr T'"
  shows "tree_ok T'"
proof -
  have ok: "tree_ok T" and a: "syms T a = Some (new_sym str)" "a \<noteq> NULL" and l: "load_slot T p = Inr NULL"
    and pa: "p \<noteq> Left_of a" "p \<noteq> Right_of a"
    using c by (simp_all add: can_publish_def)
  have no_out: "(a, b) \<notin> links T" for b using a by (auto simp: links_def new_sym_def)
  have ac: "acyclic (insert (b, a) (links T))" if "p = Left_of b \<or> p = Right_of b" for b
    using ok no_out pa that by (auto simp: tree_ok_def elim: converse_rtranclE)
  have lk: "links T' \<subseteq> links T \<union> {(b, a) | b. p = Left_of b \<or> p = Right_of b}" using store_links [OF st l] .
  have 1: "syms T' NULL = None" using store_syms(1) [OF st] ok by (metis domIff tree_ok_def)
  have 2: "\<forall>n \<in> ran (syms T'). sym_ok n"
  proof
    fix n' assume "n' \<in> ran (syms T')"
    then obtain b where "syms T' b = Some n'" by (auto simp: ran_def)
    then obtain n where "syms T b = Some n" "sym_name n' = sym_name n" "sym_hash n' = sym_hash n"
      using store_syms(3) [OF st] by blast
    then show "sym_ok n'" using ok by (auto simp: tree_ok_def sym_ok_def ran_def)
  qed
  have 3: "symtab_root T' \<noteq> NULL \<longrightarrow> symtab_root T' \<in> dom (syms T')"
    using store_load [OF st, of Root] store_syms(1) [OF st] ok a by (auto simp: load_slot_def tree_ok_def split: if_splits)
  have 4: "snd ` links T' \<subseteq> dom (syms T')"
  proof -
    have "snd ` links T' \<subseteq> insert a (snd ` links T)" using lk by force
    moreover have "snd ` links T \<subseteq> dom (syms T)" using ok by (simp add: tree_ok_def)
    moreover have "a \<in> dom (syms T)" using a by auto
    ultimately show ?thesis unfolding store_syms(1) [OF st] by blast
  qed
  have 5: "acyclic (links T')"
  proof (cases p)
    case Root
    then have "links T' \<subseteq> links T" using lk by auto
    then show ?thesis using ok acyclic_subset unfolding tree_ok_def by blast
  next
    case (Left_of b)
    then have "links T' \<subseteq> insert (b, a) (links T)" using lk by auto
    then show ?thesis using ac [of b] Left_of acyclic_subset by blast
  next
    case (Right_of b)
    then have "links T' \<subseteq> insert (b, a) (links T)" using lk by auto
    then show ?thesis using ac [of b] Right_of acyclic_subset by blast
  qed
  show ?thesis using 1 2 3 4 5 ok store_syms(1) [OF st] by (simp add: tree_ok_def)
qed

lemma publish_extends:
  assumes "can_publish T p a str" "store_slot p a T = Inr T'"
  shows "extends T T'"
  using assms store_load [OF assms(2)] store_syms(2) [OF assms(2)]
  by (auto simp: extends_def can_publish_def)

lemma publish_interned:
  assumes c: "can_publish T p a str" and st: "store_slot p a T = Inr T'"
  shows "interned T' = (interned T)(str \<mapsto> a)"
proof
  fix s
  note ok' = publish_ok [OF c st] and ext = publish_extends [OF c st]
  have ok: "tree_ok T" and str: "0 \<notin> set str" and p: "on_path T str p" and pa: "p \<noteq> Left_of a" "p \<noteq> Right_of a"
    and a: "syms T a = Some (new_sym str)" "a \<noteq> NULL"
    using c by (auto simp: can_publish_def)
  obtain n where n: "syms T' a = Some n" "sym_name n = str" "sym_hash n = hash_symbol str"
    using store_syms(2) [OF st a(1)] by (auto simp: new_sym_def)
  have pr: "symtab_probe T' s p = sym_turn s a n" for s
    using store_load [OF st, of p] n a by (simp add: symtab_probe_def)
  have hit: "sym_turn s a n = Inr (Hit b) \<longleftrightarrow> b = a \<and> s = str" if "0 \<notin> set s" for s b
    using sym_turn_hit [OF that, of n a b] n str by auto
  show "interned T' s = ((interned T)(str \<mapsto> a)) s"
  proof (cases "s = str")
    case True
    then show ?thesis
      using interned_path(1) [OF ok' str extends_path [OF ext p], of a] pr hit [OF str] by simp
  next
    case ns: False
    show ?thesis
    proof (cases "0 \<in> set s")
      case True
      then show ?thesis using ns by (simp add: interned_def)
    next
      case False
      show ?thesis using ok False
      proof (cases rule: interned_end)
        case (absent q)
        have lq: "load_slot T q = Inr NULL"
          by (rule probe_cases [OF ok on_path_valid [OF ok False absent(3)] False]) (use absent in simp_all)
        have q: "on_path T' s q" using extends_path [OF ext absent(3)] .
        have "interned T' s = None"
        proof (cases "q = p")
          case False
          then have "symtab_probe T' s q = Inr Miss" using store_load [OF st, of q] lq by (simp add: symtab_probe_def)
          then show ?thesis using interned_path(2) [OF ok' \<open>0 \<notin> set s\<close> q] by blast
        next
          case True
          obtain r where r: "sym_turn s a n = Inr (Move r)" "r = Left_of a \<or> r = Right_of a"
            using sym_turn_cases [OF False, of a n] hit [OF False, of a] ns by auto
          have "on_path T' s r" using on_path_step [OF q] pr r(1) True by simp
          moreover have "load_slot T r = Inr NULL" using r(2) a by (auto simp: load_slot_def new_sym_def)
          then have "symtab_probe T' s r = Inr Miss" using store_load [OF st, of r] r(2) pa by (auto simp: symtab_probe_def)
          ultimately show ?thesis using interned_path(2) [OF ok' False] by blast
        qed
        then show ?thesis using absent ns by simp
      next
        case (present b q)
        then show ?thesis using ns extends_interned [OF ext ok ok'] by simp
      qed
    qed
  qed
qed

section \<open>Interning by one thread\<close>

definition table_ok :: "symtab \<Rightarrow> bool" where
  "table_ok T \<longleftrightarrow> tree_ok T \<and> (\<forall>a n. syms T a = Some n \<longrightarrow> interned T (sym_name n) = Some a)"

definition fresh_alloc :: "permalloc \<Rightarrow> bool" where
  "fresh_alloc alloc \<longleftrightarrow> (\<forall>m nb a. alloc m nb = Some a \<longrightarrow> a \<noteq> NULL \<and> m a = None)"

lemma and_neg8: "unat ((x :: u64) AND -8) = unat x - unat x mod 8"
proof -
  have "- (8 :: u64) = NOT (mask 3)" by (simp add: mask_eq_exp_minus_1 not_eq_complement)
  moreover have "x AND NOT (mask 3) = push_bit 3 (drop_bit 3 x)"
    by (rule bit_word_eqI) (auto simp: bit_push_bit_iff bit_drop_bit_eq bit_and_iff bit_not_iff bit_mask_iff)
  ultimately have "x AND -8 = push_bit 3 (drop_bit 3 x)" by (simp only:)
  moreover have "unat (push_bit 3 (drop_bit 3 x)) = unat x div 8 * 8"
  proof -
    have "unat (drop_bit 3 x) = unat x div 8" by (simp add: drop_bit_eq_div unat_div)
    moreover have "unat x div 8 * 8 < 2 ^ 64" using unsigned_less [of x, where 'a = nat] by simp
    ultimately show ?thesis by (simp add: push_bit_eq_mult unat_word_ariths take_bit_nat_eq_self)
  qed
  ultimately show ?thesis by (simp add: minus_mod_eq_div_mult)
qed

text \<open>The object is large enough for the header, the name and its NUL.\<close>

lemma symbol_nbytes_room:
  assumes "length str \<le> MAX_SYM_LEN"
  shows "24 + length str + 1 \<le> unat (symbol_nbytes (of_nat (length str)))"
proof -
  have "unat (24 + of_nat (length str) + 1 + 7 :: u64) = length str + 32"
    using assms by (simp add: unat_word_ariths unat_of_nat MAX_SYM_LEN_def)
  then show ?thesis unfolding symbol_nbytes_def and_neg8 using mod_less_divisor [of 8 "length str + 32"] by simp
qed

lemma mk_symbol_ok:
  "good_name str \<Longrightarrow> mk_symbol alloc str T =
     (case alloc (syms T) (symbol_nbytes (of_nat (length str))) of
       None \<Rightarrow> Inl (permobj_failure (symbol_nbytes (of_nat (length str)))) | Some a \<Rightarrow> Inr (a, add_sym a str T))"
  using symbol_nbytes_room [of str]
  by (auto simp: mk_symbol_def Let_def add_sym_def new_sym_def good_name_def split: option.splits)

lemma add_can_publish:
  assumes c: "can_add T a str" and p: "on_path T str p" and l: "load_slot T p = Inr NULL"
  shows "can_publish (add_sym a str T) p a str"
proof -
  have "tree_ok T" "0 \<notin> set str" "syms T a = None" "good_name str" "a \<noteq> NULL" using c by (auto simp: can_add_def)
  moreover from this have "valid_slot T p" using p by (blast intro: on_path_valid)
  moreover from this have "p \<noteq> Left_of a" "p \<noteq> Right_of a" using \<open>syms T a = None\<close> by (auto simp: valid_slot_def)
  ultimately show ?thesis
    using add_ok [OF c] extends_path [OF add_extends [OF c] p] add_load [OF c] l by (simp add: can_publish_def add_sym_def)
qed

text \<open>Every symbol of the table after the new one is published is found under its name.\<close>

lemma table_ok_publish:
  assumes t: "table_ok T" and c: "can_add T a str" and p: "on_path T str p" "load_slot T p = Inr NULL"
    and st: "store_slot p a (add_sym a str T) = Inr T'"
  shows "table_ok T'" "interned T' = (interned T)(str \<mapsto> a)"
proof -
  note cp = add_can_publish [OF c p]
  show i: "interned T' = (interned T)(str \<mapsto> a)"
    using publish_interned [OF cp st] add_interned [OF c] by simp
  have z: "0 \<notin> set str" "tree_ok T" using c by (auto simp: can_add_def)
  have none: "interned T str = None"
    using interned_path(2) [OF z(2) z(1) p(1)] p(2) by (simp add: symtab_probe_def)
  have "interned T' (sym_name n') = Some b" if b: "syms T' b = Some n'" for b n'
  proof -
    obtain n where n: "syms (add_sym a str T) b = Some n" "sym_name n' = sym_name n"
      using store_syms(3) [OF st b] by blast
    show ?thesis
    proof (cases "b = a")
      case True
      then show ?thesis using n i by (auto simp: add_sym_def new_sym_def)
    next
      case False
      then have "interned T (sym_name n) = Some b" using n t by (simp add: add_sym_def table_ok_def)
      then show ?thesis using i n none by auto
    qed
  qed
  then show "table_ok T'" using publish_ok [OF cp st] by (simp add: table_ok_def)
qed

lemma jl_symbol_len_found:
  assumes "table_ok T" "good_name str" "interned T str = Some a"
  shows "jl_symbol_len alloc str T = Inr (a, T)"
proof -
  have ok: "tree_ok T" and z: "0 \<notin> set str" using assms by (auto simp: table_ok_def)
  show ?thesis using ok z
  proof (cases rule: interned_end)
    case (present b p)
    then show ?thesis using assms z by (simp add: jl_symbol_len_def symtab_lookup_def good_name_def)
  qed (use assms in simp)
qed

lemma jl_symbol_len_new:
  assumes t: "table_ok T" and g: "good_name str" and i: "interned T str = None" and f: "fresh_alloc alloc"
  shows "case alloc (syms T) (symbol_nbytes (of_nat (length str))) of
       None \<Rightarrow> jl_symbol_len alloc str T = Inl (permobj_failure (symbol_nbytes (of_nat (length str))))
     | Some a \<Rightarrow> a \<noteq> NULL \<and> syms T a = None \<and>
         (\<exists>T'. jl_symbol_len alloc str T = Inr (a, T') \<and> table_ok T' \<and> interned T' = (interned T)(str \<mapsto> a))"
proof -
  have ok: "tree_ok T" and z: "0 \<notin> set str" using t g by (auto simp: table_ok_def)
  obtain p where p: "symtab_walk T str Root = Some (Inr (NULL, p))" "on_path T str p" "symtab_probe T str p = Inr Miss"
    by (rule interned_end [OF ok z]) (use i in simp_all)
  have l: "load_slot T p = Inr NULL"
    by (rule probe_cases [OF ok on_path_valid [OF ok z p(2)] z]) (use p in simp_all)
  have run: "jl_symbol_len alloc str T =
      rbind (mk_symbol alloc str T) (\<lambda>(node, T). rbind (store_slot p node T) (\<lambda>T. Inr (node, T)))"
    using p l g z by (simp add: jl_symbol_len_def symtab_lookup_def good_name_def)
  show ?thesis
  proof (cases "alloc (syms T) (symbol_nbytes (of_nat (length str)))")
    case None
    then show ?thesis using run mk_symbol_ok [OF g, of alloc T] by simp
  next
    case (Some a)
    then have a: "a \<noteq> NULL" "syms T a = None" using f by (auto simp: fresh_alloc_def)
    then have c: "can_add T a str" using ok g by (simp add: can_add_def)
    have "valid_slot (add_sym a str T) p"
      using on_path_valid [OF _ z] add_can_publish [OF c p(2) l] by (simp add: can_publish_def)
    then obtain T' where T': "store_slot p a (add_sym a str T) = Inr T'" by (rule store_valid)
    then have "jl_symbol_len alloc str T = Inr (a, T')" using run mk_symbol_ok [OF g, of alloc T] Some by simp
    then show ?thesis using table_ok_publish [OF t c p(2) l T'] Some a by simp
  qed
qed

end
