(* ===== verification/Gensym.thy ===== *)
theory Gensym
  imports Symbol
begin

text \<open>
  Interning as an interface (the locale \<open>interner\<close>), the symbol table as an instance of it, and what
  follows for the generated symbols of \<open>jl_gensym\<close> and \<open>jl_tagged_gensym\<close>.
\<close>

section \<open>Interners\<close>

text \<open>\<open>intern\<close> returns the value a key already has, or gives it one that no other key has.  It may
  refuse a new key with an error of the kind \<open>refuse\<close>.\<close>

fun intern_all :: "('k \<Rightarrow> 's \<Rightarrow> ('v \<times> 's) result) \<Rightarrow> 'k list \<Rightarrow> 's \<Rightarrow> ('v list \<times> 's) result" where
  "intern_all intern [] s = Inr ([], s)"
| "intern_all intern (k # ks) s =
     rbind (intern k s) (\<lambda>(v, s). rbind (intern_all intern ks s) (\<lambda>(vs, s). Inr (v # vs, s)))"

locale interner =
  fixes intern :: "'k \<Rightarrow> 's \<Rightarrow> ('v \<times> 's) result"
    and look :: "'s \<Rightarrow> 'k \<rightharpoonup> 'v"
    and invar :: "'s \<Rightarrow> bool"
    and good :: "'k \<Rightarrow> bool"
    and refuse :: "c_error \<Rightarrow> bool"
  assumes found: "invar s \<Longrightarrow> good k \<Longrightarrow> look s k = Some v \<Longrightarrow> intern k s = Inr (v, s)"
    and added: "invar s \<Longrightarrow> good k \<Longrightarrow> look s k = None \<Longrightarrow>
      (\<exists>e. refuse e \<and> intern k s = Inl e) \<or>
      (\<exists>v s'. intern k s = Inr (v, s') \<and> invar s' \<and> look s' = (look s)(k \<mapsto> v) \<and> v \<notin> ran (look s))"
    and inj: "invar s \<Longrightarrow> look s k = Some v \<Longrightarrow> look s k' = Some v \<Longrightarrow> k = k'"
begin

lemma intern_step:
  assumes "invar s" "good k"
  obtains (refused) e where "refuse e" "intern k s = Inl e"
  | (ok) v s' where "intern k s = Inr (v, s')" "invar s'" "look s' k = Some v" "look s \<subseteq>\<^sub>m look s'"
proof (cases "look s k")
  case None
  from added [OF assms this] show thesis
  proof
    assume "\<exists>e. refuse e \<and> intern k s = Inl e"
    then show thesis using refused by blast
  next
    assume "\<exists>v s'. intern k s = Inr (v, s') \<and> invar s' \<and> look s' = (look s)(k \<mapsto> v) \<and> v \<notin> ran (look s)"
    then obtain v s' where v: "intern k s = Inr (v, s')" "invar s'" "look s' = (look s)(k \<mapsto> v)" by blast
    moreover have "look s \<subseteq>\<^sub>m (look s)(k \<mapsto> v)" using None by (auto simp: map_le_def)
    ultimately show thesis using ok [OF v(1,2)] by simp
  qed
next
  case (Some v)
  then show thesis using found [OF assms] assms ok by auto
qed

lemma intern_all_ok:
  assumes "invar s" "list_all good ks"
  shows "(\<exists>e. refuse e \<and> intern_all intern ks s = Inl e) \<or>
     (\<exists>vs s'. intern_all intern ks s = Inr (vs, s') \<and> invar s' \<and> look s \<subseteq>\<^sub>m look s' \<and> map (look s') ks = map Some vs)"
  using assms
proof (induction ks arbitrary: s)
  case (Cons k ks)
  have "invar s" "good k" using Cons.prems by simp_all
  then show ?case
  proof (cases rule: intern_step)
    case (refused e)
    then show ?thesis by auto
  next
    case (ok v s1)
    note step = ok
    from Cons.IH [OF ok(2)] Cons.prems consider
        (bad) e where "refuse e" "intern_all intern ks s1 = Inl e"
      | (good) vs s' where "intern_all intern ks s1 = Inr (vs, s')" "invar s'" "look s1 \<subseteq>\<^sub>m look s'" "map (look s') ks = map Some vs"
      by auto
    then show ?thesis
    proof cases
      case bad
      then show ?thesis using step by auto
    next
      case good
      then have "look s' k = Some v" using step(3) by (metis domI map_le_def)
      then show ?thesis using good step map_le_trans by (intro disjI2) fastforce
    qed
  qed
qed simp

text \<open>Keys that are different get different values, in whatever order they come.\<close>

lemma intern_all_distinct:
  assumes "invar s" "list_all good ks" "distinct ks" "intern_all intern ks s = Inr (vs, s')"
  shows "distinct vs"
proof -
  have i: "invar s'" and m: "map (look s') ks = map Some vs" using intern_all_ok [OF assms(1,2)] assms(4) by auto
  have len: "length ks = length vs" using m by (metis length_map)
  have nth: "look s' (ks ! i) = Some (vs ! i)" if "i < length ks" for i
    using arg_cong [OF m, of "\<lambda>l. l ! i"] that len by simp
  show ?thesis unfolding distinct_conv_nth
  proof (intro allI impI)
    fix x y assume "x < length vs" "y < length vs" "x \<noteq> y"
    then have "ks ! x \<noteq> ks ! y" using assms(3) len by (simp add: nth_eq_iff_index_eq)
    then show "vs ! x \<noteq> vs ! y" using inj [OF i] nth \<open>x < length vs\<close> \<open>y < length vs\<close> len by metis
  qed
qed

end

definition out_of_memory :: "c_error \<Rightarrow> bool" where
  "out_of_memory e \<longleftrightarrow> e = JlThrow ''OutOfMemoryError'' '''' \<or> e = NullWrite"

text \<open>The symbol table together with its allocator is an interner.\<close>

definition intern_sym :: "u8 list \<Rightarrow> permalloc \<times> symtab \<Rightarrow> (ptr \<times> (permalloc \<times> symtab)) result" where
  "intern_sym str s = (case s of (alloc, T) \<Rightarrow> rbind (jl_symbol_len alloc str T) (\<lambda>(a, T). Inr (a, (alloc, T))))"

interpretation symbol_table: interner intern_sym "\<lambda>s. interned (snd s)"
  "\<lambda>s. fresh_alloc (fst s) \<and> table_ok (snd s)" good_name out_of_memory
proof
  fix s :: "permalloc \<times> symtab" and k v
  assume "fresh_alloc (fst s) \<and> table_ok (snd s)" "good_name k" "interned (snd s) k = Some v"
  then show "intern_sym k s = Inr (v, s)"
    using jl_symbol_len_found by (cases s) (simp add: intern_sym_def)
next
  fix s :: "permalloc \<times> symtab" and k
  assume s: "fresh_alloc (fst s) \<and> table_ok (snd s)" and k: "good_name k" "interned (snd s) k = None"
  have nr: "a \<notin> ran (interned (snd s))" if a: "syms (snd s) a = None" for a
  proof
    assume "a \<in> ran (interned (snd s))"
    then obtain str where "interned (snd s) str = Some a" by (auto simp: ran_def)
    then show False using interned_name [of "snd s" str a False] s a by (simp add: table_ok_def)
  qed
  show "(\<exists>e. out_of_memory e \<and> intern_sym k s = Inl e) \<or>
      (\<exists>v s'. intern_sym k s = Inr (v, s') \<and> (fresh_alloc (fst s') \<and> table_ok (snd s')) \<and>
         interned (snd s') = (interned (snd s))(k \<mapsto> v) \<and> v \<notin> ran (interned (snd s)))"
  proof (cases "fst s (syms (snd s)) (symbol_nbytes (of_nat (length k)))")
    case None
    then show ?thesis using jl_symbol_len_new [of "snd s" k "fst s"] s k
      by (auto simp: intern_sym_def split_beta out_of_memory_def permobj_failure_def)
  next
    case (Some a)
    then obtain T' where "syms (snd s) a = None" "jl_symbol_len (fst s) k (snd s) = Inr (a, T')" "table_ok T'"
        "interned T' = (interned (snd s))(k \<mapsto> a)"
      using jl_symbol_len_new [of "snd s" k "fst s"] s k by auto
    then show ?thesis using s nr by (intro disjI2 exI [of _ a] exI [of _ "(fst s, T')"]) (simp add: intern_sym_def split_beta)
  qed
next
  fix s :: "permalloc \<times> symtab" and k k' v
  assume "fresh_alloc (fst s) \<and> table_ok (snd s)" "interned (snd s) k = Some v" "interned (snd s) k' = Some v"
  then show "k = k'" using interned_name [of "snd s"] unfolding table_ok_def by (metis option.inject)
qed

section \<open>Names of generated symbols\<close>

lemma takeWhile_stop: "c \<notin> set s \<Longrightarrow> takeWhile (\<lambda>x. x \<noteq> c) (s @ c # t) = s"
  by (induction s) auto

definition gensym_name :: "u8 list option \<Rightarrow> u32 \<Rightarrow> u8 list" where
  "gensym_name tag ctr = [35, 35] @ (case tag of None \<Rightarrow> [] | Some str \<Rightarrow> str @ [35]) @ numeral_of 10 (unat ctr)"

lemma numeral_10:
  "35 \<notin> set (numeral_of 10 n)" "0 \<notin> set (numeral_of 10 n)"
  using numeral_of_digits [of 10 _ n] isdigit_nonzero isdigit_no_hash by force+

lemma numeral_10_length: "length (numeral_of 10 (unat (ctr :: u32))) \<le> 10"
proof -
  have "unat ctr < 10 ^ 10" using unsigned_less [of ctr, where 'a = nat] by simp
  then show ?thesis by (intro numeral_of_length) simp_all
qed

text \<open>The digits are what follows the last \<open>#\<close>, so the counter can be read off the name.\<close>

lemma gensym_name_ctr:
  assumes "gensym_name t c = gensym_name t' c'"
  shows "c = c'"
proof -
  have tail: "takeWhile (\<lambda>x. x \<noteq> 35) (rev (gensym_name t c)) = rev (numeral_of 10 (unat c))" for t c
  proof -
    obtain xs where "gensym_name t c = xs @ [35] @ numeral_of 10 (unat c)"
      by (cases t) (auto simp: gensym_name_def)
    then show ?thesis using numeral_10(1) [of "unat c"] by (simp add: takeWhile_stop)
  qed
  have "numeral_of 10 (unat c) = numeral_of 10 (unat c')" using tail [of t c] tail [of t' c'] assms by simp
  then show ?thesis using word_unat_eq_iff [of c c'] by (simp add: numeral_of_inj)
qed

lemma gensym_name_good:
  assumes "case tag of None \<Rightarrow> True | Some str \<Rightarrow> 0 \<notin> set str \<and> length str + 17 \<le> MAX_SYM_LEN"
  shows "good_name (gensym_name tag ctr)"
proof -
  have "length (gensym_name tag ctr) \<le> MAX_SYM_LEN"
    using assms numeral_10_length [of ctr] by (auto simp: gensym_name_def MAX_SYM_LEN_def split: option.splits)
  then show ?thesis using assms numeral_10 by (auto simp: good_name_def gensym_name_def split: option.splits)
qed

lemma c_string_nul: "0 \<notin> set s \<Longrightarrow> c_string (s @ [0]) = Inr s"
  by (simp add: c_string_def takeWhile_stop)

lemma unat_ucast_ctr: "unat (ucast (c :: u32) :: u64) = unat c"
  by (rule unat_ucast_small) (use unsigned_less [of c, where 'a = nat] in simp)

text \<open>Both functions intern the name with the counter they took.\<close>

lemma jl_gensym_ok:
  assumes "length stk = 16"
  shows "jl_gensym alloc stk S =
     rbind (jl_symbol_len alloc (gensym_name None (gs_ctr S)) (sym_tab S))
       (\<lambda>(a, T). Inr (a, S\<lparr>gs_ctr := gs_ctr S + 1, sym_tab := T\<rparr>))"
proof -
  define ds where "ds = numeral_of 10 (unat (gs_ctr S))"
  have l: "length ds \<le> 10" using numeral_10_length by (simp add: ds_def)
  have pr: "uint2str (drop 2 stk) 14 (ucast (gs_ctr S)) 10 = Inr (take (13 - length ds) (drop 2 stk) @ ds @ [0], 13 - length ds)"
    using uint2str_ok [of 10 "drop 2 stk" 14 "ucast (gs_ctr S)"] assms l unat_ucast_ctr by (simp add: ds_def)
  define k where "k = 13 - length ds"
  have k: "13 - length ds = k" "k + length ds = 13" using l by (simp_all add: k_def)
  define name where "name = take 2 stk @ take k (drop 2 stk) @ ds @ [0]"
  have name: "name = take k stk @ [stk ! k, stk ! Suc k] @ ds @ [0]"
  proof -
    have "take 2 stk @ take k (drop 2 stk) = take (k + 2) stk" using take_add [of 2 k stk] by simp
    also have "\<dots> = take k stk @ [stk ! k, stk ! Suc k]" using assms k by (simp add: take_Suc_conv_app_nth)
    finally show ?thesis by (simp add: name_def)
  qed
  have "length (take k stk) = k" using assms k by simp
  then have upd: "name[Suc k := 35, k := 35] = take k stk @ [35, 35] @ ds @ [0]" "Suc k < length name"
    by (simp_all add: name list_update_append)
  then have "drop k (name[Suc k := 35, k := 35]) = gensym_name None (gs_ctr S) @ [0]"
    using \<open>length (take k stk) = k\<close> by (simp add: gensym_name_def ds_def)
  moreover have "0 \<notin> set (gensym_name None (gs_ctr S))" using gensym_name_good [of None] by auto
  ultimately show ?thesis using pr upd(2)
    by (simp add: jl_gensym_def Let_def k name_def [symmetric] jl_symbol_def c_string_nul)
qed

lemma tagged_gensym_ok:
  assumes "length stk = 14" "0 \<notin> set str" "length str + 17 \<le> MAX_SYM_LEN"
  shows "tagged_gensym alloc stk str S =
     rbind (jl_symbol_len alloc (gensym_name (Some str) (gs_ctr S)) (sym_tab S))
       (\<lambda>(a, T). Inr (a, S\<lparr>gs_ctr := gs_ctr S + 1, sym_tab := T\<rparr>))"
proof -
  define ds where "ds = numeral_of 10 (unat (gs_ctr S))"
  have l: "length ds \<le> 10" using numeral_10_length by (simp add: ds_def)
  have pr: "uint2str stk 14 (ucast (gs_ctr S)) 10 = Inr (take (13 - length ds) stk @ ds @ [0], 13 - length ds)"
    using uint2str_ok [of 10 stk 14 "ucast (gs_ctr S)"] assms l unat_ucast_ctr by (simp add: ds_def)
  have len: "unat (of_nat (length str) :: u64) = length str" "unat (14 + of_nat (length str) + 3 :: u64) = length str + 17"
    using assms(3) by (simp_all add: unat_word_ariths unat_of_nat MAX_SYM_LEN_def)
  have "drop (13 - length ds) (take (13 - length ds) stk @ ds @ [0]) = ds @ [0]" using assms(1) l by simp
  moreover have "take (length str + 17 - (13 - length ds) - 1) ([35, 35] @ str @ [35] @ ds @ [0]) = gensym_name (Some str) (gs_ctr S)"
  proof -
    have "length str + 17 - (13 - length ds) - 1 = length ([35, 35] @ str @ [35] @ ds)" using l by simp
    then have "take (length str + 17 - (13 - length ds) - 1) (([35, 35] @ str @ [35] @ ds) @ [0]) = [35, 35] @ str @ [35] @ ds"
      by (metis append_eq_conv_conj)
    then show ?thesis by (simp add: gensym_name_def ds_def)
  qed
  ultimately show ?thesis using pr len assms(1,3) l
    by (simp add: tagged_gensym_def Let_def)
qed

section \<open>Sequences of generated symbols\<close>

text \<open>A run of calls, tagged (with the tag's bytes) or not; the stack buffers hold anything.\<close>

fun gensyms :: "permalloc \<Rightarrow> u8 list \<Rightarrow> u8 list option list \<Rightarrow> symbols \<Rightarrow> (ptr list \<times> symbols) result" where
  "gensyms alloc stk [] S = Inr ([], S)"
| "gensyms alloc stk (tag # tags) S =
     rbind (case tag of None \<Rightarrow> jl_gensym alloc stk S | Some str \<Rightarrow> jl_tagged_gensym alloc (take 14 stk) str False S)
       (\<lambda>(a, S). rbind (gensyms alloc stk tags S) (\<lambda>(as, S). Inr (a # as, S)))"

definition tag_ok :: "u8 list option \<Rightarrow> bool" where
  "tag_ok tag \<longleftrightarrow> (case tag of None \<Rightarrow> True | Some str \<Rightarrow> 0 \<notin> set str \<and> length str + 17 \<le> MAX_SYM_LEN)"

fun gensym_names :: "u8 list option list \<Rightarrow> u32 \<Rightarrow> u8 list list" where
  "gensym_names [] c = []"
| "gensym_names (tag # tags) c = gensym_name tag c # gensym_names tags (c + 1)"

lemma gensyms_intern:
  assumes "length stk = 16" "list_all tag_ok tags"
  shows "gensyms alloc stk tags S =
     rbind (intern_all intern_sym (gensym_names tags (gs_ctr S)) (alloc, sym_tab S))
       (\<lambda>(as, s). Inr (as, S\<lparr>gs_ctr := gs_ctr S + of_nat (length tags), sym_tab := snd s\<rparr>))"
  using assms(2)
proof (induction tags arbitrary: S)
  case (Cons tag tags)
  let ?r = "jl_symbol_len alloc (gensym_name tag (gs_ctr S)) (sym_tab S)"
  have one: "(case tag of None \<Rightarrow> jl_gensym alloc stk S | Some str \<Rightarrow> jl_tagged_gensym alloc (take 14 stk) str False S) =
      rbind ?r (\<lambda>(a, T). Inr (a, S\<lparr>gs_ctr := gs_ctr S + 1, sym_tab := T\<rparr>))"
    using Cons.prems assms(1) jl_gensym_ok [of stk alloc S] tagged_gensym_ok [of "take 14 stk" _ alloc S]
    by (auto simp: tag_ok_def jl_tagged_gensym_def split: option.splits)
  show ?case
  proof (cases ?r)
    case (Inl e)
    then show ?thesis using one by (simp add: intern_sym_def)
  next
    case (Inr r)
    then obtain a T where r: "?r = Inr (a, T)" by (cases r) auto
    then have "intern_sym (gensym_name tag (gs_ctr S)) (alloc, sym_tab S) = Inr (a, (alloc, T))" by (simp add: intern_sym_def)
    then show ?thesis using one r Cons.IH [of "S\<lparr>gs_ctr := gs_ctr S + 1, sym_tab := T\<rparr>"] Cons.prems
      by (cases "intern_all intern_sym (gensym_names tags (gs_ctr S + 1)) (alloc, T)") (auto simp: add.assoc)
  qed
qed simp

lemma gensym_names_nth: "i < length tags \<Longrightarrow> gensym_names tags c ! i = gensym_name (tags ! i) (c + of_nat i)"
proof (induction tags arbitrary: i c)
  case (Cons tag tags)
  then show ?case by (cases i) (simp_all add: add.assoc)
qed simp

lemma gensym_names_length [simp]: "length (gensym_names tags c) = length tags"
  by (induction tags arbitrary: c) simp_all

lemma gensym_names_distinct:
  assumes "length tags \<le> 2 ^ 32"
  shows "distinct (gensym_names tags c)"
  unfolding distinct_conv_nth
proof (intro allI impI notI)
  fix i j assume "i < length (gensym_names tags c)" "j < length (gensym_names tags c)" "i \<noteq> j"
    and eq: "gensym_names tags c ! i = gensym_names tags c ! j"
  then have ij: "i < 2 ^ 32" "j < 2 ^ 32" using assms by simp_all
  have "c + of_nat i = c + of_nat j"
    using eq gensym_name_ctr \<open>i < length _\<close> \<open>j < length _\<close> by (simp only: gensym_names_nth gensym_names_length)
  then have "unat (of_nat i :: u32) = unat (of_nat j :: u32)" by simp
  then show False using ij \<open>i \<noteq> j\<close> by (simp add: unat_of_nat)
qed

lemma gensym_names_good: "list_all tag_ok tags \<Longrightarrow> list_all good_name (gensym_names tags c)"
  by (induction tags arbitrary: c) (auto simp: tag_ok_def intro!: gensym_name_good)

section \<open>Properties\<close>

text \<open>
  C37: Symbols are canonical.  In a well-formed table \<open>jl_symbol_n\<close> ends; it throws on a name with a
  NUL or a name that is too long; otherwise it returns the node a previous call interned for
  the name and changes nothing, or, when there is none, it adds a node at a new address for
  exactly this name, unless the collector is out of memory, and the table stays well-formed.
\<close>

theorem jl_symbol_n_correct:
  assumes t: "table_ok T" and f: "fresh_alloc alloc"
  shows "jl_symbol_n alloc str T =
     (if 0 \<in> set str then Inl (JlThrow ''ArgumentError'' (''Symbol name may not contain '' @ [CHR 0x5C, CHR ''0'']))
      else if length str > MAX_SYM_LEN then Inl (JlThrow ''ArgumentError'' ''Symbol name too long'')
      else jl_symbol_len alloc str T) \<and>
     (good_name str \<longrightarrow>
       (case interned T str of
          Some a \<Rightarrow> jl_symbol_n alloc str T = Inr (a, T) \<and> (\<exists>n. syms T a = Some n \<and> sym_name n = str)
        | None \<Rightarrow>
            (case alloc (syms T) (symbol_nbytes (of_nat (length str))) of
               None \<Rightarrow> jl_symbol_n alloc str T = Inl (permobj_failure (symbol_nbytes (of_nat (length str))))
             | Some a \<Rightarrow> syms T a = None \<and> (\<exists>T'. jl_symbol_n alloc str T = Inr (a, T') \<and> table_ok T' \<and>
                 interned T' = (interned T)(str \<mapsto> a)))))"
proof (intro conjI impI)
  show "jl_symbol_n alloc str T =
     (if 0 \<in> set str then Inl (JlThrow ''ArgumentError'' (''Symbol name may not contain '' @ [CHR 0x5C, CHR ''0'']))
      else if length str > MAX_SYM_LEN then Inl (JlThrow ''ArgumentError'' ''Symbol name too long'')
      else jl_symbol_len alloc str T)"
    by (simp add: jl_symbol_n_def jl_symbol_len_def)
  assume g: "good_name str"
  then have n: "jl_symbol_n alloc str T = jl_symbol_len alloc str T" by (auto simp: jl_symbol_n_def)
  show "case interned T str of
          Some a \<Rightarrow> jl_symbol_n alloc str T = Inr (a, T) \<and> (\<exists>n. syms T a = Some n \<and> sym_name n = str)
        | None \<Rightarrow>
            (case alloc (syms T) (symbol_nbytes (of_nat (length str))) of
               None \<Rightarrow> jl_symbol_n alloc str T = Inl (permobj_failure (symbol_nbytes (of_nat (length str))))
             | Some a \<Rightarrow> syms T a = None \<and> (\<exists>T'. jl_symbol_n alloc str T = Inr (a, T') \<and> table_ok T' \<and>
                 interned T' = (interned T)(str \<mapsto> a)))"
  proof (cases "interned T str")
    case None
    then show ?thesis using jl_symbol_len_new [OF t g None f] n by (auto split: option.splits)
  next
    case (Some a)
    have "tree_ok T" using t by (simp add: table_ok_def)
    then obtain m where "syms T a = Some m" "sym_name m = str" using interned_name Some by blast
    then show ?thesis using Some jl_symbol_len_found [OF t g Some] n by simp
  qed
qed

definition empty_symtab :: symtab where
  "empty_symtab = \<lparr>symtab_root = NULL, syms = Map.empty\<rparr>"

text \<open>An allocator that grants a few fixed addresses.\<close>

definition few_addresses :: permalloc where
  "few_addresses m nb = find (\<lambda>a. a \<noteq> NULL \<and> m a = None) [16, 32, 48]"

lemma fresh_few: "fresh_alloc few_addresses"
  by (auto simp: fresh_alloc_def few_addresses_def find_Some_iff)

lemma empty_table_ok: "table_ok empty_symtab"
  by (simp add: table_ok_def tree_ok_def empty_symtab_def links_def acyclic_def)

lemma interned_empty: "interned empty_symtab str = None"
  by (simp add: interned_def empty_symtab_def symtab_walk.simps symtab_probe_def load_slot_def)

lemma few_first: "few_addresses (syms empty_symtab) nb = Some 16"
  by (simp add: few_addresses_def empty_symtab_def)

theorem jl_symbol_n_correct_witness:
  "\<exists>T'. jl_symbol_n few_addresses [97, 98] empty_symtab = Inr (16, T') \<and> table_ok T' \<and>
     interned T' = (interned empty_symtab)([97, 98] \<mapsto> 16)"
proof -
  have "good_name [97, 98]" by (simp add: good_name_def MAX_SYM_LEN_def)
  then show ?thesis
    using jl_symbol_n_correct [OF empty_table_ok fresh_few, of "[97, 98]", THEN conjunct2]
    by (simp add: interned_empty few_first)
qed

text \<open>
  C38: Generated symbols are pairwise distinct.  Up to \<open>2 ^ 32\<close> calls of \<open>jl_gensym\<close> and
  \<open>jl_tagged_gensym\<close> in any order, with any tags, from any table and any value of the counter,
  stay in their buffers and return distinct symbols, or the collector is out of memory.
\<close>

theorem gensyms_distinct:
  assumes "table_ok (sym_tab S)" "fresh_alloc alloc" "length stk = 16" "list_all tag_ok tags" "length tags \<le> 2 ^ 32"
  shows "(\<exists>e. out_of_memory e \<and> gensyms alloc stk tags S = Inl e) \<or>
     (\<exists>as T. gensyms alloc stk tags S = Inr (as, S\<lparr>gs_ctr := gs_ctr S + of_nat (length tags), sym_tab := T\<rparr>) \<and>
        length as = length tags \<and> distinct as \<and> table_ok T)"
proof -
  let ?names = "gensym_names tags (gs_ctr S)" and ?s = "(alloc, sym_tab S)"
  have inv: "fresh_alloc (fst ?s) \<and> table_ok (snd ?s)" using assms by simp
  have g: "list_all good_name ?names" using assms(4) by (rule gensym_names_good)
  note run = gensyms_intern [OF assms(3,4), of alloc S]
  from symbol_table.intern_all_ok [OF inv g] show ?thesis
  proof
    assume "\<exists>e. out_of_memory e \<and> intern_all intern_sym ?names ?s = Inl e"
    then show ?thesis using run by auto
  next
    assume "\<exists>vs s'. intern_all intern_sym ?names ?s = Inr (vs, s') \<and> (fresh_alloc (fst s') \<and> table_ok (snd s')) \<and>
       interned (snd ?s) \<subseteq>\<^sub>m interned (snd s') \<and> map (interned (snd s')) ?names = map Some vs"
    then obtain vs s' where v: "intern_all intern_sym ?names ?s = Inr (vs, s')" "table_ok (snd s')"
        "map (interned (snd s')) ?names = map Some vs" by blast
    have "distinct vs"
      using symbol_table.intern_all_distinct [OF inv g gensym_names_distinct [OF assms(5)] v(1)] .
    moreover have "length vs = length tags" using arg_cong [OF v(3), of length] by simp
    ultimately show ?thesis using run v by auto
  qed
qed

theorem gensyms_distinct_witness:
  "let S = \<lparr>sym_tab = empty_symtab, gs_ctr = 7\<rparr>; stk = replicate 16 0; tags = [None, Some [97], None] in
   (\<exists>e. out_of_memory e \<and> gensyms few_addresses stk tags S = Inl e) \<or>
     (\<exists>as T. gensyms few_addresses stk tags S = Inr (as, S\<lparr>gs_ctr := gs_ctr S + of_nat (length tags), sym_tab := T\<rparr>) \<and>
        length as = length tags \<and> distinct as \<and> table_ok T)"
  unfolding Let_def
  by (rule gensyms_distinct) (simp_all add: empty_table_ok fresh_few tag_ok_def MAX_SYM_LEN_def)

end
