(* ===== verification/SymbolThreads.thy ===== *)
theory SymbolThreads
  imports Gensym
begin

text \<open>
  Interning by several threads (\<open>_jl_symbol\<close> and \<open>jl_symbol_lookup\<close> of \<open>src/symbol.c\<close>): the search
  runs without a lock while other threads extend the tree; a thread that misses takes
  \<open>symtab_lock\<close>, searches on from the slot it had reached and publishes its node there.  Each load of
  a link, each operation on the lock, the allocation and the publication is one step.  The steps
  refine an atomic interning map.
\<close>

section \<open>States and steps\<close>

text \<open>\<open>Peek\<close> is the search of \<open>jl_symbol_lookup\<close>, \<open>Search\<close> the first and \<open>Locked\<close> the second search
  of \<open>_jl_symbol\<close>.\<close>

datatype search_mode = Peek | Search | Locked

datatype sym_pc =
    At_rest
  | Walking search_mode "u8 list" slot
  | Locking "u8 list" slot
  | Rechecking "u8 list" slot
  | Creating "u8 list" slot
  | Publishing "u8 list" slot ptr
  | Leaving "u8 list" ptr

record sym_state =
  tab :: symtab
  symtab_lock :: "nat option"
  tpc :: "nat \<Rightarrow> sym_pc"

datatype sym_event = Quiet | Interned nat "u8 list" ptr | Looked nat "u8 list" ptr | Raised nat c_error | Fault nat c_error

definition jump :: "nat \<Rightarrow> sym_pc \<Rightarrow> sym_state \<Rightarrow> sym_state" where
  "jump t pc s = s\<lparr>tpc := (tpc s)(t := pc)\<rparr>"

text \<open>A thread that runs out of memory in \<open>mk_symbol\<close> leaves the function with the lock held, as
  in the code.\<close>

inductive sym_step :: "sym_state \<Rightarrow> sym_event \<Rightarrow> sym_state \<Rightarrow> bool" where
  call: "tpc s t = At_rest \<Longrightarrow> good_name str \<Longrightarrow> sym_step s Quiet (jump t (Walking Search str Root) s)"
| call_lookup: "tpc s t = At_rest \<Longrightarrow> 0 \<notin> set str \<Longrightarrow> sym_step s Quiet (jump t (Walking Peek str Root) s)"
| walk_fault: "tpc s t = Walking m str p \<Longrightarrow> symtab_probe (tab s) str p = Inl e \<Longrightarrow> sym_step s (Fault t e) s"
| move: "tpc s t = Walking m str p \<Longrightarrow> symtab_probe (tab s) str p = Inr (Move q) \<Longrightarrow>
    sym_step s Quiet (jump t (Walking m str q) s)"
| hit: "tpc s t = Walking Search str p \<Longrightarrow> symtab_probe (tab s) str p = Inr (Hit a) \<Longrightarrow>
    sym_step s (Interned t str a) (jump t At_rest s)"
| hit_lookup: "tpc s t = Walking Peek str p \<Longrightarrow> symtab_probe (tab s) str p = Inr (Hit a) \<Longrightarrow>
    sym_step s (Looked t str a) (jump t At_rest s)"
| hit_locked: "tpc s t = Walking Locked str p \<Longrightarrow> symtab_probe (tab s) str p = Inr (Hit a) \<Longrightarrow>
    sym_step s Quiet (jump t (Leaving str a) s)"
| miss: "tpc s t = Walking Search str p \<Longrightarrow> symtab_probe (tab s) str p = Inr Miss \<Longrightarrow>
    sym_step s Quiet (jump t (Locking str p) s)"
| miss_lookup: "tpc s t = Walking Peek str p \<Longrightarrow> symtab_probe (tab s) str p = Inr Miss \<Longrightarrow>
    sym_step s (Looked t str NULL) (jump t At_rest s)"
| miss_locked: "tpc s t = Walking Locked str p \<Longrightarrow> symtab_probe (tab s) str p = Inr Miss \<Longrightarrow>
    sym_step s Quiet (jump t (Creating str p) s)"
| take_lock: "tpc s t = Locking str p \<Longrightarrow> symtab_lock s = None \<Longrightarrow>
    sym_step s Quiet (jump t (Rechecking str p) (s\<lparr>symtab_lock := Some t\<rparr>))"
| recheck_fault: "tpc s t = Rechecking str p \<Longrightarrow> load_slot (tab s) p = Inl e \<Longrightarrow> sym_step s (Fault t e) s"
| recheck_set: "tpc s t = Rechecking str p \<Longrightarrow> load_slot (tab s) p = Inr v \<Longrightarrow> v \<noteq> NULL \<Longrightarrow>
    sym_step s Quiet (jump t (Walking Locked str p) s)"
| recheck_empty: "tpc s t = Rechecking str p \<Longrightarrow> load_slot (tab s) p = Inr NULL \<Longrightarrow>
    sym_step s Quiet (jump t (Creating str p) s)"
| create: "tpc s t = Creating str p \<Longrightarrow> fresh_alloc alloc \<Longrightarrow> mk_symbol alloc str (tab s) = Inr (a, T) \<Longrightarrow>
    sym_step s Quiet (jump t (Publishing str p a) (s\<lparr>tab := T\<rparr>))"
| create_fails: "tpc s t = Creating str p \<Longrightarrow> fresh_alloc alloc \<Longrightarrow> mk_symbol alloc str (tab s) = Inl e \<Longrightarrow>
    sym_step s (Raised t e) (jump t At_rest s)"
| publish: "tpc s t = Publishing str p a \<Longrightarrow> store_slot p a (tab s) = Inr T \<Longrightarrow>
    sym_step s Quiet (jump t (Leaving str a) (s\<lparr>tab := T\<rparr>))"
| publish_fault: "tpc s t = Publishing str p a \<Longrightarrow> store_slot p a (tab s) = Inl e \<Longrightarrow> sym_step s (Fault t e) s"
| leave: "tpc s t = Leaving str a \<Longrightarrow>
    sym_step s (Interned t str a) (jump t At_rest (s\<lparr>symtab_lock := None\<rparr>))"

definition sym_init :: sym_state where
  "sym_init = \<lparr>tab = empty_symtab, symtab_lock = None, tpc = (\<lambda>_. At_rest)\<rparr>"

inductive sym_run :: "sym_event list \<Rightarrow> sym_state \<Rightarrow> bool" where
  start: "sym_run [] sym_init"
| more: "sym_run evs s \<Longrightarrow> sym_step s ev s' \<Longrightarrow> sym_run (evs @ [ev]) s'"

text \<open>The specification: one map from names to symbols, to which names are added one at a time.  A
  look-up answers NULL only when the name is not there.\<close>

inductive intern_spec :: "(u8 list \<rightharpoonup> ptr) \<Rightarrow> sym_event \<Rightarrow> (u8 list \<rightharpoonup> ptr) \<Rightarrow> bool" where
  skip: "intern_spec m Quiet m"
| add: "m str = None \<Longrightarrow> a \<notin> ran m \<Longrightarrow> a \<noteq> NULL \<Longrightarrow> intern_spec m Quiet (m(str \<mapsto> a))"
| found: "m str = Some a \<Longrightarrow> intern_spec m (Interned t str a) m"
| looked: "a = (case m str of None \<Rightarrow> NULL | Some b \<Rightarrow> b) \<Longrightarrow> intern_spec m (Looked t str a) m"
| raised: "out_of_memory e \<Longrightarrow> intern_spec m (Raised t e) m"

section \<open>The invariant\<close>

fun holds_lock :: "sym_pc \<Rightarrow> bool" where
  "holds_lock (Walking m str p) = (m = Locked)"
| "holds_lock At_rest = False"
| "holds_lock (Locking str p) = False"
| "holds_lock pc = True"

fun pc_ok :: "symtab \<Rightarrow> sym_pc \<Rightarrow> bool" where
  "pc_ok T At_rest = True"
| "pc_ok T (Walking m str p) = (0 \<notin> set str \<and> (m \<noteq> Peek \<longrightarrow> good_name str) \<and> on_path T str p)"
| "pc_ok T (Locking str p) = (good_name str \<and> on_path T str p)"
| "pc_ok T (Rechecking str p) = (good_name str \<and> on_path T str p)"
| "pc_ok T (Creating str p) = (good_name str \<and> on_path T str p \<and> load_slot T p = Inr NULL)"
| "pc_ok T (Publishing str p a) = can_publish T p a str"
| "pc_ok T (Leaving str a) = (interned T str = Some a)"

definition threads_ok :: "sym_state \<Rightarrow> bool" where
  "threads_ok s \<longleftrightarrow> tree_ok (tab s) \<and> (\<forall>t. pc_ok (tab s) (tpc s t)) \<and>
     (\<forall>t. holds_lock (tpc s t) \<longrightarrow> symtab_lock s = Some t)"

lemma threads_okI:
  assumes "tree_ok (tab s)" "\<And>t. pc_ok (tab s) (tpc s t)" "\<And>t. holds_lock (tpc s t) \<Longrightarrow> symtab_lock s = Some t"
  shows "threads_ok s"
  using assms by (simp add: threads_ok_def)

text \<open>A step that changes one thread's place only.\<close>

lemma jump_ok:
  assumes "threads_ok s" "pc_ok (tab s) pc" "holds_lock pc \<Longrightarrow> symtab_lock s = Some t"
  shows "threads_ok (jump t pc s)"
  using assms by (auto simp: threads_ok_def jump_def)

text \<open>The table grows under the lock: the places of the other threads stay good.\<close>

lemma grow_pc_ok:
  assumes "extends T T'" "tree_ok T" "tree_ok T'" "pc_ok T pc" "\<not> holds_lock pc"
  shows "pc_ok T' pc"
  using assms extends_path [OF assms(1)] extends_interned [OF assms(1-3)] by (cases pc) auto

lemma table_grow_ok:
  assumes s: "threads_ok s" and l: "symtab_lock s = Some t"
    and T: "extends (tab s) T" "tree_ok T" "pc_ok T pc"
  shows "threads_ok (jump t pc (s\<lparr>tab := T\<rparr>))"
proof (rule threads_okI)
  fix u
  show "pc_ok (tab (jump t pc (s\<lparr>tab := T\<rparr>))) (tpc (jump t pc (s\<lparr>tab := T\<rparr>)) u)"
  proof (cases "u = t")
    case False
    then have "\<not> holds_lock (tpc s u)" using s l unfolding threads_ok_def by (metis option.inject)
    then show ?thesis using False s T grow_pc_ok [OF T(1) _ T(2)] by (simp add: jump_def threads_ok_def)
  qed (simp add: jump_def T)
  show "symtab_lock (jump t pc (s\<lparr>tab := T\<rparr>)) = Some u" if "holds_lock (tpc (jump t pc (s\<lparr>tab := T\<rparr>)) u)"
    using that s l by (cases "u = t") (auto simp: jump_def threads_ok_def)
qed (use T in \<open>simp add: jump_def\<close>)

lemma walking_probe:
  assumes "threads_ok s" "tpc s t = Walking m str p"
  shows "tree_ok (tab s)" "0 \<notin> set str" "on_path (tab s) str p" "valid_slot (tab s) p"
  using assms on_path_valid unfolding threads_ok_def by (metis pc_ok.simps(2))+

lemma at_place: "threads_ok s \<Longrightarrow> tpc s t = pc \<Longrightarrow> pc_ok (tab s) pc \<and> tree_ok (tab s) \<and> (holds_lock pc \<longrightarrow> symtab_lock s = Some t)"
  by (auto simp: threads_ok_def)

text \<open>What the two changes of the table do.\<close>

lemma create_grows:
  assumes s: "threads_ok s" and pc: "tpc s t = Creating str p" and f: "fresh_alloc alloc"
    and mk: "mk_symbol alloc str (tab s) = Inr (a, T)"
  shows "extends (tab s) T" "tree_ok T" "can_publish T p a str" "interned T = interned (tab s)"
proof -
  have pc': "good_name str" "on_path (tab s) str p" "load_slot (tab s) p = Inr NULL" "tree_ok (tab s)"
    using at_place [OF s pc] by simp_all
  have "alloc (syms (tab s)) (symbol_nbytes (of_nat (length str))) = Some a" and T: "T = add_sym a str (tab s)"
    using mk mk_symbol_ok [OF pc'(1), of alloc "tab s"] by (auto split: option.splits)
  then have "can_add (tab s) a str" using f pc' by (auto simp: fresh_alloc_def can_add_def)
  then show "extends (tab s) T" "tree_ok T" "can_publish T p a str" "interned T = interned (tab s)"
    using add_extends add_ok add_can_publish pc' add_interned T by simp_all
qed

lemma publish_grows:
  assumes s: "threads_ok s" and pc: "tpc s t = Publishing str p a" and st: "store_slot p a (tab s) = Inr T"
  shows "extends (tab s) T" "tree_ok T" "interned T = (interned (tab s))(str \<mapsto> a)"
    "interned (tab s) str = None" "a \<notin> ran (interned (tab s))" "a \<noteq> NULL"
proof -
  have c: "can_publish (tab s) p a str" using at_place [OF s pc] by simp
  then show "extends (tab s) T" "tree_ok T" "interned T = (interned (tab s))(str \<mapsto> a)" "a \<noteq> NULL"
    using publish_extends publish_ok publish_interned st by (blast, blast, blast, simp add: can_publish_def)
  have z: "tree_ok (tab s)" "0 \<notin> set str" "on_path (tab s) str p" using c by (auto simp: can_publish_def)
  have "symtab_probe (tab s) str p = Inr Miss" using c by (simp add: can_publish_def symtab_probe_def)
  then show none: "interned (tab s) str = None" using interned_path(2) [OF z] by blast
  show "a \<notin> ran (interned (tab s))"
  proof
    assume "a \<in> ran (interned (tab s))"
    then obtain str' where i: "interned (tab s) str' = Some a" by (auto simp: ran_def)
    then obtain n where "syms (tab s) a = Some n" "sym_name n = str'" using interned_name [OF z(1)] by blast
    then have "str' = str" using c by (auto simp: can_publish_def new_sym_def)
    then show False using i none by simp
  qed
qed

lemma sym_step_ok:
  assumes "sym_step s ev s'" "threads_ok s"
  shows "threads_ok s'"
  using assms
proof (cases rule: sym_step.cases)
  case (move t m str p q)
  then show ?thesis using at_place [OF assms(2) move(3)] on_path_step by (auto intro!: jump_ok assms(2))
next
  case (hit_locked t str p a)
  note w = walking_probe [OF assms(2) hit_locked(3)]
  then show ?thesis using at_place [OF assms(2) hit_locked(3)] interned_path(1) [OF w(1-3)] hit_locked
    by (auto intro!: jump_ok assms(2))
next
  case (miss_locked t str p)
  have "load_slot (tab s) p = Inr NULL"
    using walking_probe [OF assms(2) miss_locked(3)] miss_locked(4) by (elim probe_cases [of "tab s" p str]) simp_all
  then show ?thesis using at_place [OF assms(2) miss_locked(3)] miss_locked by (auto intro!: jump_ok assms(2))
next
  case (take_lock t str p)
  then have "\<not> holds_lock (tpc s u)" for u using assms(2) by (auto simp: threads_ok_def)
  then show ?thesis using take_lock at_place [OF assms(2) take_lock(3)] assms(2) by (auto simp: threads_ok_def jump_def)
next
  case (create t str p alloc a T)
  note g = create_grows [OF assms(2) create(3-5)]
  show ?thesis unfolding create(2)
    by (rule table_grow_ok [OF assms(2)]) (use g at_place [OF assms(2) create(3)] in auto)
next
  case (publish t str p a T)
  note g = publish_grows [OF assms(2) publish(3,4)]
  show ?thesis unfolding publish(2)
    by (rule table_grow_ok [OF assms(2)]) (use g at_place [OF assms(2) publish(3)] in auto)
next
  case (leave t str a)
  have "\<not> holds_lock (tpc s u)" if "u \<noteq> t" for u
    using assms(2) at_place [OF assms(2) leave(3)] that by (auto simp: threads_ok_def)
  then show ?thesis using leave assms(2) by (auto simp: threads_ok_def jump_def)
next
  case (miss t str p)
  then show ?thesis using at_place [OF assms(2) miss(3)] by (auto intro!: jump_ok assms(2))
next
  case (recheck_set t str p v)
  then show ?thesis using at_place [OF assms(2) recheck_set(3)] by (auto intro!: jump_ok assms(2))
next
  case (recheck_empty t str p)
  then show ?thesis using at_place [OF assms(2) recheck_empty(3)] by (auto intro!: jump_ok assms(2))
qed (use assms(2) in \<open>auto intro!: jump_ok\<close>)

lemma sym_run_ok: "sym_run evs s \<Longrightarrow> threads_ok s"
proof (induction rule: sym_run.induct)
  case start
  show ?case using empty_table_ok by (simp add: threads_ok_def sym_init_def table_ok_def)
qed (rule sym_step_ok)

section \<open>Refinement\<close>

lemma jump_tab [simp]: "tab (jump t pc s) = tab s"
  by (simp add: jump_def)

lemma probe_not_fault: "threads_ok s \<Longrightarrow> tpc s t = Walking m str p \<Longrightarrow> symtab_probe (tab s) str p \<noteq> Inl e"
  using walking_probe [of s t m str p] probe_cases [of "tab s" p str "symtab_probe (tab s) str p \<noteq> Inl e"] by simp

lemma step_refines:
  assumes "threads_ok s" "sym_step s ev s'"
  shows "intern_spec (interned (tab s)) ev (interned (tab s'))"
  using assms(2)
proof (cases rule: sym_step.cases)
  case (walk_fault t m str p e)
  then show ?thesis using probe_not_fault [OF assms(1)] by blast
next
  case (hit t str p a)
  then show ?thesis using interned_path(1) [OF walking_probe(1-3) [OF assms(1) hit(3)]] by (simp add: intern_spec.found)
next
  case (hit_lookup t str p a)
  then show ?thesis using interned_path(1) [OF walking_probe(1-3) [OF assms(1) hit_lookup(3)]] by (simp add: intern_spec.looked)
next
  case (miss_lookup t str p)
  then show ?thesis using interned_path(2) [OF walking_probe(1-3) [OF assms(1) miss_lookup(3)]] by (simp add: intern_spec.looked)
next
  case (recheck_fault t str p e)
  then have "tree_ok (tab s)" "valid_slot (tab s) p" using at_place [OF assms(1) recheck_fault(3)] on_path_valid by auto
  then show ?thesis by (rule load_valid) (use recheck_fault in simp)
next
  case (create t str p alloc a T)
  then show ?thesis using create_grows(4) [OF assms(1) create(3-5)] by (simp add: intern_spec.skip)
next
  case (create_fails t str p alloc e)
  then have "out_of_memory e" using at_place [OF assms(1) create_fails(3)] mk_symbol_ok [of str alloc "tab s"]
    by (auto simp: out_of_memory_def permobj_failure_def split: option.splits if_splits)
  then show ?thesis using create_fails by (simp add: intern_spec.raised)
next
  case (publish t str p a T)
  then show ?thesis using publish_grows [OF assms(1) publish(3,4)] by (simp add: intern_spec.add)
next
  case (publish_fault t str p a e)
  then have "valid_slot (tab s) p" using at_place [OF assms(1) publish_fault(3)] on_path_valid by (auto simp: can_publish_def)
  then show ?thesis using publish_fault by (elim store_valid [of _ _ a]) simp
next
  case (leave t str a)
  then show ?thesis using at_place [OF assms(1) leave(3)] by (simp add: intern_spec.found)
qed (simp_all add: intern_spec.skip)

text \<open>What every run of the specification shows in its events.\<close>

inductive_cases spec_InternedE: "intern_spec m (Interned t str a) m'"

lemma spec_extends:
  assumes "intern_spec m ev m'" "inj_on m (dom m)"
  shows "m \<subseteq>\<^sub>m m'" "inj_on m' (dom m')"
  using assms by (cases; auto simp: map_le_def inj_on_def ran_def dom_def; metis)+

lemma run_events:
  "sym_run evs s \<Longrightarrow> inj_on (interned (tab s)) (dom (interned (tab s))) \<and>
     (\<forall>t str a. Interned t str a \<in> set evs \<longrightarrow> interned (tab s) str = Some a) \<and>
     (\<forall>t e. Fault t e \<notin> set evs)"
proof (induction rule: sym_run.induct)
  case start
  show ?case by (simp add: sym_init_def interned_empty)
next
  case (more evs s ev s')
  have st: "intern_spec (interned (tab s)) ev (interned (tab s'))"
    using step_refines sym_run_ok more.hyps by blast
  note e = spec_extends [OF st] 
  have i: "interned (tab s) \<subseteq>\<^sub>m interned (tab s')" "inj_on (interned (tab s')) (dom (interned (tab s')))"
    using e more.IH by blast+
  have "interned (tab s') str = Some a" if "Interned t str a \<in> set (evs @ [ev])" for t str a
  proof (cases "Interned t str a \<in> set evs")
    case True
    then show ?thesis using more.IH i(1) by (metis domI map_le_def)
  next
    case False
    then have "ev = Interned t str a" using that by simp
    then show ?thesis using st by (auto elim: spec_InternedE)
  qed
  moreover have "\<forall>t e. Fault t e \<notin> set (evs @ [ev])" using more.IH st by (auto elim: intern_spec.cases)
  ultimately show ?case using i(2) by blast
qed

section \<open>A run that interns a symbol\<close>

definition at_slot :: "sym_pc \<Rightarrow> nat option \<Rightarrow> symtab \<Rightarrow> sym_state" where
  "at_slot pc l T = \<lparr>tab = T, symtab_lock = l, tpc = (\<lambda>_. At_rest)(0 := pc)\<rparr>"

lemma at_slot_jump:
  "jump 0 pc (at_slot pc' l T) = at_slot pc l T"
  "jump 0 pc (at_slot pc' l T\<lparr>symtab_lock := l'\<rparr>) = at_slot pc l' T"
  "jump 0 pc (at_slot pc' l T\<lparr>tab := T'\<rparr>) = at_slot pc l T'"
  by (simp_all add: jump_def at_slot_def)

lemma at_slot_simps [simp]:
  "tpc (at_slot pc l T) 0 = pc" "tab (at_slot pc l T) = T" "symtab_lock (at_slot pc l T) = l"
  by (simp_all add: at_slot_def)

lemma sym_init_at: "sym_init = at_slot At_rest None empty_symtab"
  by (auto simp: sym_init_def at_slot_def)

lemma empty_load [simp]: "load_slot empty_symtab Root = Inr NULL"
  by (simp add: load_slot_def empty_symtab_def)

lemma empty_probe [simp]: "symtab_probe empty_symtab str Root = Inr Miss"
  by (simp add: symtab_probe_def)

definition sample_name :: "u8 list" where
  "sample_name = [97]"

lemma sample_good: "good_name sample_name" "0 \<notin> set sample_name"
  by (simp_all add: sample_name_def good_name_def MAX_SYM_LEN_def)

lemma sample_lookup:
  "sym_run [Quiet] (at_slot (Walking Peek sample_name Root) None empty_symtab)"
  "sym_step (at_slot (Walking Peek sample_name Root) None empty_symtab) (Looked 0 sample_name NULL) (at_slot At_rest None empty_symtab)"
proof -
  show "sym_run [Quiet] (at_slot (Walking Peek sample_name Root) None empty_symtab)"
    using sym_run.more [OF sym_run.start sym_step.call_lookup [of sym_init 0 sample_name]] sample_good
    by (simp add: sym_init_at at_slot_jump)
  show "sym_step (at_slot (Walking Peek sample_name Root) None empty_symtab) (Looked 0 sample_name NULL) (at_slot At_rest None empty_symtab)"
    using sym_step.miss_lookup [of "at_slot (Walking Peek sample_name Root) None empty_symtab" 0 sample_name Root]
    by (simp add: at_slot_jump)
qed

lemma sample_intern:
  "sym_run [Quiet, Quiet, Quiet, Quiet, Quiet, Quiet, Interned 0 sample_name 16]
     (at_slot At_rest None (add_sym 16 sample_name empty_symtab\<lparr>symtab_root := 16\<rparr>))"
proof -
  let ?n = sample_name and ?E = empty_symtab
  let ?A = "add_sym 16 ?n ?E" and ?B = "add_sym 16 ?n ?E\<lparr>symtab_root := 16\<rparr>"
  have 0: "sym_run [] (at_slot At_rest None ?E)" using sym_run.start by (simp add: sym_init_at)
  have 1: "sym_run ([] @ [Quiet]) (at_slot (Walking Search ?n Root) None ?E)"
    using sym_run.more [OF 0 sym_step.call [of "at_slot At_rest None ?E" 0 ?n]] sample_good by (simp add: at_slot_jump)
  have 2: "sym_run (([] @ [Quiet]) @ [Quiet]) (at_slot (Locking ?n Root) None ?E)"
    using sym_run.more [OF 1 sym_step.miss [of _ 0 ?n Root]] by (simp add: at_slot_jump)
  have 3: "sym_run ((([] @ [Quiet]) @ [Quiet]) @ [Quiet]) (at_slot (Rechecking ?n Root) (Some 0) ?E)"
    using sym_run.more [OF 2 sym_step.take_lock [of _ 0 ?n Root]] by (simp add: at_slot_jump)
  have 4: "sym_run (((([] @ [Quiet]) @ [Quiet]) @ [Quiet]) @ [Quiet]) (at_slot (Creating ?n Root) (Some 0) ?E)"
    using sym_run.more [OF 3 sym_step.recheck_empty [of _ 0 ?n Root]] by (simp add: at_slot_jump)
  have mk: "mk_symbol few_addresses ?n ?E = Inr (16, ?A)" using mk_symbol_ok [OF sample_good(1)] few_first by simp
  have 5: "sym_run ((((([] @ [Quiet]) @ [Quiet]) @ [Quiet]) @ [Quiet]) @ [Quiet]) (at_slot (Publishing ?n Root 16) (Some 0) ?A)"
    using sym_run.more [OF 4 sym_step.create [of _ 0 ?n Root few_addresses 16 ?A]] mk fresh_few by (simp add: at_slot_jump)
  have 6: "sym_run (((((([] @ [Quiet]) @ [Quiet]) @ [Quiet]) @ [Quiet]) @ [Quiet]) @ [Quiet]) (at_slot (Leaving ?n 16) (Some 0) ?B)"
    using sym_run.more [OF 5 sym_step.publish [of _ 0 ?n Root 16 ?B]] by (simp add: at_slot_jump store_slot_def)
  show ?thesis
    using sym_run.more [OF 6 sym_step.leave [of _ 0 ?n 16]] by (simp add: at_slot_jump)
qed

section \<open>Properties\<close>

text \<open>
  C34: The lock-free search with locked insertion implements an atomic interning map: in every
  interleaving of the threads, each step either leaves the map unchanged or adds one new name
  at an unused address; a call of \<open>_jl_symbol\<close> returns what the map holds for its name, a call of
  \<open>jl_symbol_lookup\<close> returns NULL exactly when the name is not in the map, and no search leaves the tree.
\<close>

theorem symtab_threads_refine:
  assumes "sym_run evs s" "sym_step s ev s'"
  shows "intern_spec (interned (tab s)) ev (interned (tab s'))"
  using step_refines [OF sym_run_ok [OF assms(1)] assms(2)] .

theorem symtab_threads_refine_witness:
  "intern_spec (interned empty_symtab) (Looked 0 sample_name NULL) (interned empty_symtab)"
  using symtab_threads_refine [OF sample_lookup] by simp

text \<open>
  C35: Symbols are canonical across threads: whenever two calls of \<open>_jl_symbol\<close> return in a run, in any
  threads and at any times, they return the same symbol exactly when their names are equal.
\<close>

theorem symbols_canonical:
  assumes "sym_run evs s" "Interned t str a \<in> set evs" "Interned t' str' a' \<in> set evs"
  shows "a = a' \<longleftrightarrow> str = str'"
proof
  note r = run_events [OF assms(1)]
  have i: "interned (tab s) str = Some a" "interned (tab s) str' = Some a'" using r assms(2,3) by blast+
  then show "str = str' \<Longrightarrow> a = a'" by simp
  show "str = str'" if "a = a'"
    using r i that by (auto dest: inj_onD [of _ _ str str'])
qed

theorem symbols_canonical_witness:
  "sym_run [Quiet, Quiet, Quiet, Quiet, Quiet, Quiet, Interned 0 sample_name 16]
     (at_slot At_rest None (add_sym 16 sample_name empty_symtab\<lparr>symtab_root := 16\<rparr>)) \<and>
   ((16 :: ptr) = 16 \<longleftrightarrow> sample_name = sample_name)"
  using sample_intern symbols_canonical [OF sample_intern, of 0 sample_name 16 0 sample_name 16] by simp

text \<open>
  C36: Every state the threads can reach is well-formed: each symbol of the tree carries the hash of
  its name, its name is free of NUL bytes and not too long, its links are NULL or symbols, no
  search can run in a circle, and at most one thread is inside the critical section.
\<close>

theorem symtab_wellformed:
  assumes "sym_run evs s"
  shows "tree_ok (tab s) \<and> (\<forall>t u. holds_lock (tpc s t) \<longrightarrow> holds_lock (tpc s u) \<longrightarrow> t = u)"
  using sym_run_ok [OF assms] unfolding threads_ok_def by (metis option.inject)

theorem symtab_wellformed_witness:
  "tree_ok (add_sym 16 sample_name empty_symtab\<lparr>symtab_root := 16\<rparr>)"
  using symtab_wellformed [OF sample_intern] by simp

section \<open>An exception with the lock held\<close>

definition lock_stuck :: "sym_state \<Rightarrow> bool" where
  "lock_stuck s \<longleftrightarrow> (\<exists>t. symtab_lock s = Some t \<and> \<not> holds_lock (tpc s t))"

lemma stuck_stays:
  assumes "lock_stuck s" "threads_ok s" "sym_step s ev s'"
  shows "lock_stuck s'"
proof -
  obtain t where t: "symtab_lock s = Some t" "\<not> holds_lock (tpc s t)" using assms(1) by (auto simp: lock_stuck_def)
  have h: "\<not> holds_lock pc" if "tpc s u = pc" for u pc
    using t that assms(2) unfolding threads_ok_def by (metis option.inject)
  show ?thesis using assms(3) t
    by cases (auto simp: lock_stuck_def jump_def dest!: h)
qed

text \<open>When the allocation of a symbol throws, \<open>symtab_lock\<close> stays locked by a thread that has left the
  critical section: from then on no thread can intern a new name.\<close>

definition any_step :: "sym_state \<Rightarrow> sym_state \<Rightarrow> bool" where
  "any_step s s' \<longleftrightarrow> (\<exists>ev. sym_step s ev s')"

theorem symtab_lock_leak:
  assumes "sym_run evs s" "sym_step s (Raised t e) s'" "any_step\<^sup>*\<^sup>* s' s''"
  shows "lock_stuck s''"
proof -
  have ok: "threads_ok s" using sym_run_ok assms(1) .
  have "lock_stuck s'" using assms(2)
  proof cases
    case (create_fails str p alloc)
    then show ?thesis using at_place [OF ok create_fails(2)] by (auto simp: lock_stuck_def jump_def)
  qed
  with assms(3) have "lock_stuck s'' \<and> threads_ok s''"
  proof (induction rule: rtranclp_induct)
    case base
    then show ?case using sym_step_ok [OF assms(2) ok] by simp
  next
    case (step y z)
    then show ?case using stuck_stays sym_step_ok by (auto simp: any_step_def)
  qed
  then show ?thesis by simp
qed

end
