(* ===== verification/HTable.thy ===== *)
theory HTable
  imports IdDict
begin

text \<open>
  The pointer hash tables of the support library (\<open>src/support/htable.inc\<close>, \<open>htable.c\<close>, \<open>ptrhash.c\<close>):
  keys and values in alternating cells, triangular probing, tombstones that keep their key, and
  a load factor tracked by two counters.  The operations of the macro are modelled at its
  instance \<open>ptrhash\<close>, whose keys are compared as pointers.
\<close>

section \<open>Triangular probing\<close>

text \<open>\<open>max_probe\<close> of \<open>htable.inc\<close>, of the number of key slots.\<close>

definition ht_max_probe :: "nat \<Rightarrow> nat" where
  "ht_max_probe sz = (if sz \<le> HT_N_INLINE * 2 then HT_N_INLINE div 2 else sz div 2 ^ 3)"

definition tri_next :: "nat \<Rightarrow> nat \<Rightarrow> nat \<Rightarrow> nat" where
  "tri_next n iter i = (i + iter) mod n"

definition tri_path :: "nat \<Rightarrow> u64 \<Rightarrow> nat list" where
  "tri_path n h = probe_path (tri_next n) (ht_max_probe n) (mask_index h n) 0 (mask_index h n)"

text \<open>A size at which \<open>m\<close> entries neither fill a probe sequence nor exceed the load factor.\<close>

definition tri_room :: "nat \<Rightarrow> nat" where
  "tri_room m = (if m < 16 then 2 * (m + 1) else 8 * (m + 1))"

definition triangle :: "nat \<Rightarrow> nat" where
  "triangle j = j * (j + 1) div 2"

lemma triangle_double: "2 * triangle j = j * (j + 1)"
  by (simp add: triangle_def)

lemma triangle_Suc: "triangle (Suc j) = triangle j + Suc j"
  using triangle_double [of j] triangle_double [of "Suc j"] by simp

text \<open>The first \<open>2 ^ k\<close> triangular numbers are distinct modulo \<open>2 ^ k\<close>.\<close>

lemma triangle_inj:
  assumes "i < j" "j < 2 ^ k"
  shows "(h + triangle i) mod 2 ^ k \<noteq> (h + triangle j) mod 2 ^ k"
proof
  assume eq: "(h + triangle i) mod 2 ^ k = (h + triangle j) mod 2 ^ k"
  define d where "d = j - i"
  define e where "e = j + i + 1"
  have ij: "i + d = j" using assms(1) by (simp add: d_def)
  have mono: "triangle i \<le> triangle j" using assms(1) unfolding triangle_def by (intro div_le_mono mult_le_mono) simp_all
  then have "2 ^ k dvd triangle j - triangle i"
    using eq mod_eq_dvd_iff_nat [of "h + triangle i" "h + triangle j" "2 ^ k"] by simp
  then have "2 * 2 ^ k dvd 2 * (triangle j - triangle i)" by (rule mult_dvd_mono [OF dvd_refl])
  also have "2 * (triangle j - triangle i) = (i + d) * (i + d + 1) - i * (i + 1)"
    using ij by (simp only: diff_mult_distrib2 triangle_double)
  also have "\<dots> = d * e" unfolding e_def ij [symmetric] by (simp add: algebra_simps)
  finally have dv: "2 ^ Suc k dvd d * e" by simp
  have "d + e = 2 * j + 1" using assms(1) by (simp add: d_def e_def)
  then have "odd d \<or> odd e" by presburger
  then have "2 ^ Suc k dvd d \<or> 2 ^ Suc k dvd e"
    using dv by (metis coprime_dvd_mult_left_iff coprime_dvd_mult_right_iff coprime_power_left_iff coprime_left_2_iff_odd)
  moreover have "0 < d" "d < 2 ^ Suc k" "0 < e" "e < 2 ^ Suc k" using assms by (auto simp: d_def e_def)
  ultimately show False using nat_dvd_not_less by blast
qed

lemma tri_card:
  assumes "pow2 n" "d \<le> n" "d \<le> Suc maxprobe" "h < n"
  shows "d \<le> card (set (probe_path (tri_next n) maxprobe h 0 h))"
proof -
  obtain k where k: "n = 2 ^ k" using assms(1) by (auto simp: pow2_def)
  let ?f = "\<lambda>j. (h + triangle j) mod n"
  have inj: "inj_on ?f {..<n}"
  proof (rule linorder_inj_onI)
    fix i j assume "i < j" "i \<in> {..<n}" "j \<in> {..<n}"
    then show "?f i \<noteq> ?f j" using triangle_inj [of i j k h] by (simp add: k)
  qed auto
  have "d \<le> card (set (probe_path (tri_next n) maxprobe (?f 0) 0 (?f 0)))"
  proof (rule card_probe_path)
    show "j \<le> maxprobe \<and> ?f j \<noteq> ?f 0" if "0 < j" "j < d" for j
      using that assms inj_onD [OF inj, of j 0] by auto
    show "tri_next n (Suc j) (?f j) = ?f (Suc j)" for j
      by (simp only: tri_next_def triangle_Suc mod_add_left_eq add.assoc)
    show "inj_on ?f {..<d}" using inj by (rule inj_on_subset) (use assms in auto)
  qed
  then show ?thesis using assms by (simp add: triangle_def)
qed

lemma tri_path_range: "pow2 n \<Longrightarrow> set (tri_path n h) \<subseteq> {..<n}"
  unfolding tri_path_def by (rule probe_path_in_range) (simp_all add: mask_index_lt tri_next_def pow2_pos)

interpretation tp: probe_seq pow2 tri_path tri_room
proof
  fix n i h m
  assume n: "pow2 n"
  show "i < n" if "i \<in> set (tri_path n h)" using tri_path_range [OF n] that by blast
  assume m: "tri_room m \<le> n"
  have "pow2 64" unfolding pow2_def by (intro exI [of _ 6]) simp
  then have "128 \<le> n" if "64 < n" using pow2_less_double [OF n _ that] by simp
  then have "Suc m \<le> n" "Suc m \<le> Suc (ht_max_probe n)"
    using m by (auto simp: tri_room_def ht_max_probe_def HT_N_INLINE_def split: if_splits)
  then show "m < card (set (tri_path n h))"
    unfolding tri_path_def using tri_card [OF n, of "Suc m" "ht_max_probe n" "mask_index h n"] mask_index_lt [OF n, of h] by simp
qed

section \<open>The operations\<close>

definition HT_NOTFOUND :: ptr where
  "HT_NOTFOUND = 1"

text \<open>\<open>size\<close> is the length of \<open>table\<close>; \<open>inline\<close> says that \<open>table\<close> is the space inside the struct.\<close>

record htable =
  ht_table :: "ptr list"
  ht_count :: nat
  ht_live :: nat
  ht_inline :: bool

definition hash_size :: "htable \<Rightarrow> nat" where
  "hash_size h = length (ht_table h) div 2"

definition ptrhash_hash :: "ptr \<Rightarrow> u64" where
  "ptrhash_hash key = drop_bit 4 key XOR drop_bit 9 key"

text \<open>\<open>(index + iter*2) & (sz-1)\<close> with \<open>sz\<close> the number of cells.\<close>

definition ht_next :: "nat \<Rightarrow> nat \<Rightarrow> nat \<Rightarrow> nat" where
  "ht_next sz iter index = mask_index (of_nat (index + iter * 2)) sz"

text \<open>The probing loop of \<open>lookup_bp_r_impl\<close> ends at the cell of the key, or with the slot for a new
  entry, if it met any.\<close>

datatype ht_outcome = Cell nat | Slot "nat option"

function ht_probe :: "ptr list \<Rightarrow> ptr \<Rightarrow> nat \<Rightarrow> nat \<Rightarrow> nat \<Rightarrow> nat \<Rightarrow> nat option \<Rightarrow> ht_outcome result" where
  "ht_probe tab key maxprobe orig iter index empty_slot =
     rbind (rget tab index) (\<lambda>k.
       if k = HT_NOTFOUND then Inr (Slot (Some (case empty_slot of None \<Rightarrow> index | Some e \<Rightarrow> e)))
       else rbind (rget tab (index + 1)) (\<lambda>v.
         let empty_slot' = (if v = HT_NOTFOUND \<and> empty_slot = None then Some index else empty_slot) in
         if key = k then Inr (Cell index)
         else
           let iter' = Suc iter; index' = ht_next (length tab) iter' index in
           if iter' \<le> maxprobe \<and> index' \<noteq> orig
           then ht_probe tab key maxprobe orig iter' index' empty_slot'
           else Inr (Slot empty_slot')))"
  by pat_completeness auto
termination
  by (relation "measure (\<lambda>(tab, key, maxprobe, orig, iter, index, empty_slot). maxprobe - iter)") auto

declare ht_probe.simps [simp del]

text \<open>The size of the table after growing, from its size.\<close>

definition ht_grown :: "nat \<Rightarrow> nat" where
  "ht_grown sz =
     (if sz < HT_N_INLINE then HT_N_INLINE
      else if 2 ^ 19 \<le> sz \<or> sz \<le> 2 ^ 8 then 2 * sz else 4 * sz)"

text \<open>A pointer to a value is the index of its cell, \<open>None\<close> is NULL.\<close>

definition ht_store :: "ptr \<Rightarrow> nat option \<times> htable \<Rightarrow> htable result" where
  "ht_store val r =
     (case r of (bp, h) \<Rightarrow> (case bp of None \<Rightarrow> Inl NullWrite
       | Some i \<Rightarrow> rbind (rset (ht_table h) i val) (\<lambda>tab. Inr (h\<lparr>ht_table := tab\<rparr>))))"

fun ht_refill :: "(htable \<Rightarrow> ptr \<Rightarrow> (nat option \<times> htable) result) \<Rightarrow> ptr list \<Rightarrow> nat list \<Rightarrow> htable \<Rightarrow> htable result" where
  "ht_refill lookup ol [] h = Inr h"
| "ht_refill lookup ol (i # is) h =
     rbind (rget ol (i + 1)) (\<lambda>v.
       if v \<noteq> HT_NOTFOUND then
         rbind (rget ol i) (\<lambda>k. rbind (rbind (lookup h k) (ht_store v)) (ht_refill lookup ol is))
       else ht_refill lookup ol is h)"

text \<open>The function calls itself to rehash; the fuel bounds the depth of the recursion together with
  the number of retries.\<close>

primrec lookup_bp :: "nat \<Rightarrow> heap_env \<Rightarrow> htable \<Rightarrow> ptr \<Rightarrow> (nat option \<times> htable) result" where
  "lookup_bp 0 E h key = Inl Diverges"
| "lookup_bp (Suc fuel) E h key =
     (let sz = hash_size h; tab = ht_table h; index = mask_index (ptrhash_hash key) sz * 2 in
      rbind (ht_probe tab key (ht_max_probe sz) index 0 index None) (\<lambda>r. case r of
          Cell i \<Rightarrow> rbind (rget tab (i + 1)) (\<lambda>v.
            Inr (Some (i + 1), if v = HT_NOTFOUND then h\<lparr>ht_live := ht_live h + 1\<rparr> else h))
        | Slot e \<Rightarrow>
            let e = (if ht_live h * 4 \<ge> sz * 3 then None else e);
                grow = (e = None);
                e = (if 8 * (sz - ht_count h) \<le> sz then None else e) in
            (case e of
               Some i \<Rightarrow> rbind (rget tab i) (\<lambda>k.
                 rbind (rset tab i key) (\<lambda>tab.
                 Inr (Some (i + 1), h\<lparr>ht_table := tab,
                   ht_count := (if k = HT_NOTFOUND then ht_count h + 1 else ht_count h),
                   ht_live := ht_live h + 1\<rparr>)))
             | None \<Rightarrow>
                 let newsz = (if grow then ht_grown (length tab) else length tab) in
                 (case alloc_cells E (of_nat newsz * 8) of
                    None \<Rightarrow> Inr (None, h)
                  | Some cells \<Rightarrow>
                      rbind (ht_refill (lookup_bp fuel E) tab (filter even [0 ..< length tab])
                        \<lparr>ht_table = map (\<lambda>_. HT_NOTFOUND) cells, ht_count = 0, ht_live = 0, ht_inline = False\<rparr>) (\<lambda>h.
                      lookup_bp fuel E h key)))))"

function peek_bp_probe :: "ptr list \<Rightarrow> ptr \<Rightarrow> nat \<Rightarrow> nat \<Rightarrow> nat \<Rightarrow> nat \<Rightarrow> nat option result" where
  "peek_bp_probe tab key maxprobe orig iter index =
     rbind (rget tab index) (\<lambda>k.
       if k = HT_NOTFOUND then Inr None
       else if key = k then Inr (Some (index + 1))
       else
         let iter' = Suc iter; index' = ht_next (length tab) iter' index in
         if iter' \<le> maxprobe \<and> index' \<noteq> orig then peek_bp_probe tab key maxprobe orig iter' index' else Inr None)"
  by pat_completeness auto
termination
  by (relation "measure (\<lambda>(tab, key, maxprobe, orig, iter, index). maxprobe - iter)") auto

declare peek_bp_probe.simps [simp del]

definition peek_bp :: "htable \<Rightarrow> ptr \<Rightarrow> nat option result" where
  "peek_bp h key =
     (let sz = hash_size h; index = mask_index (ptrhash_hash key) sz * 2 in
      peek_bp_probe (ht_table h) key (ht_max_probe sz) index 0 index)"

definition ptrhash_put :: "nat \<Rightarrow> heap_env \<Rightarrow> htable \<Rightarrow> ptr \<Rightarrow> ptr \<Rightarrow> htable result" where
  "ptrhash_put fuel E h key val = rbind (lookup_bp fuel E h key) (ht_store val)"

definition ptrhash_bp :: "nat \<Rightarrow> heap_env \<Rightarrow> htable \<Rightarrow> ptr \<Rightarrow> (nat option \<times> htable) result" where
  "ptrhash_bp fuel E h key = lookup_bp fuel E h key"

definition ptrhash_get :: "htable \<Rightarrow> ptr \<Rightarrow> ptr result" where
  "ptrhash_get h key = rbind (peek_bp h key) (\<lambda>bp. case bp of None \<Rightarrow> Inr HT_NOTFOUND | Some i \<Rightarrow> rget (ht_table h) i)"

definition ptrhash_has :: "htable \<Rightarrow> ptr \<Rightarrow> bool result" where
  "ptrhash_has h key = rbind (ptrhash_get h key) (\<lambda>v. Inr (v \<noteq> HT_NOTFOUND))"

definition ptrhash_remove :: "htable \<Rightarrow> ptr \<Rightarrow> (bool \<times> htable) result" where
  "ptrhash_remove h key =
     rbind (peek_bp h key) (\<lambda>bp. case bp of
         None \<Rightarrow> Inr (False, h)
       | Some i \<Rightarrow> rbind (rget (ht_table h) i) (\<lambda>v.
           if v \<noteq> HT_NOTFOUND then
             rbind (rset (ht_table h) i HT_NOTFOUND) (\<lambda>tab. Inr (True, h\<lparr>ht_table := tab, ht_live := ht_live h - 1\<rparr>))
           else Inr (False, h)))"

definition ptrhash_adjoin :: "nat \<Rightarrow> heap_env \<Rightarrow> htable \<Rightarrow> ptr \<Rightarrow> ptr \<Rightarrow> htable result" where
  "ptrhash_adjoin fuel E h key val =
     rbind (lookup_bp fuel E h key) (\<lambda>(bp, h). case bp of
         None \<Rightarrow> Inl NullWrite
       | Some i \<Rightarrow> rbind (rget (ht_table h) i) (\<lambda>v. if v = HT_NOTFOUND then ht_store val (bp, h) else Inr h))"

text \<open>\<open>None\<close> is the NULL result; \<open>next_power_of_two\<close> works on \<open>unsigned int\<close>.\<close>

definition htable_new :: "heap_env \<Rightarrow> u64 \<Rightarrow> htable option" where
  "htable_new E sz =
     (if sz \<le> of_nat (HT_N_INLINE div 2)
      then Some \<lparr>ht_table = replicate HT_N_INLINE HT_NOTFOUND, ht_count = 0, ht_live = 0, ht_inline = True\<rparr>
      else
        let sz = ucast (next_power_of_two (ucast sz)) :: u64; sz = sz * 2; sz = sz * 2 in
        (case alloc_cells E (sz * 8) of
           None \<Rightarrow> None
         | Some cells \<Rightarrow> Some \<lparr>ht_table = map (\<lambda>_. HT_NOTFOUND) cells, ht_count = 0, ht_live = 0, ht_inline = False\<rparr>))"

definition htable_reset :: "heap_env \<Rightarrow> htable \<Rightarrow> u64 \<Rightarrow> htable" where
  "htable_reset E h sz =
     (let sz = ucast (next_power_of_two (ucast sz)) :: u64 in
      if length (ht_table h) > unat (sz * 4) \<and> length (ht_table h) > HT_N_INLINE
      then (case htable_new E sz of Some h \<Rightarrow> h
            | None \<Rightarrow> (case htable_new E 0 of Some h \<Rightarrow> h | None \<Rightarrow> h))
      else h\<lparr>ht_table := map (\<lambda>_. HT_NOTFOUND) (ht_table h), ht_count := 0, ht_live := 0\<rparr>)"

section \<open>Cells and invariant\<close>

abbreviation ht_cells :: "htable \<Rightarrow> (ptr \<times> ptr) list" where
  "ht_cells h \<equiv> dict_cells (ht_table h)"

abbreviation ht_vacant :: "ptr \<times> ptr \<Rightarrow> bool" where
  "ht_vacant c \<equiv> fst c = HT_NOTFOUND"

abbreviation ht_dead :: "ptr \<times> ptr \<Rightarrow> bool" where
  "ht_dead c \<equiv> snd c = HT_NOTFOUND"

definition ht_key_hash :: "ptr \<times> ptr \<Rightarrow> u64 option" where
  "ht_key_hash c = (if ht_vacant c then None else Some (ptrhash_hash (fst c)))"

definition live_cells :: "htable \<Rightarrow> nat" where
  "live_cells h = length (filter (\<lambda>c. \<not> ht_dead c) (ht_cells h))"

text \<open>All but the counter of live entries, which runs ahead between the reservation of a cell and
  the store of its value.\<close>

definition ht_struct :: "htable \<Rightarrow> bool" where
  "ht_struct h \<longleftrightarrow>
     even (length (ht_table h)) \<and> pow2 (hash_size h) \<and> hash_size h \<le> 2 ^ 56 \<and>
     (\<forall>c \<in> set (ht_cells h). ht_vacant c \<longrightarrow> ht_dead c) \<and>
     placed ht_vacant (tri_path (hash_size h)) ht_key_hash (ht_cells h) \<and>
     (\<forall>i < hash_size h. \<forall>j < hash_size h. \<not> ht_vacant (ht_cells h ! i) \<and> fst (ht_cells h ! i) = fst (ht_cells h ! j) \<longrightarrow> i = j) \<and>
     ht_count h = length (filter (\<lambda>c. \<not> ht_vacant c) (ht_cells h))"

definition ht_ok :: "htable \<Rightarrow> bool" where
  "ht_ok h \<longleftrightarrow> ht_struct h \<and> ht_live h = live_cells h"

definition ht_map :: "htable \<Rightarrow> ptr \<Rightarrow> ptr option" where
  "ht_map h key = map_option snd (find (\<lambda>c. \<not> ht_dead c \<and> fst c = key) (ht_cells h))"

lemma hash_size_dict: "hash_size h = dict_size (ht_table h)"
  by (simp add: hash_size_def dict_size_def)

lemma ht_structD:
  assumes "ht_struct h"
  shows "length (ht_table h) = 2 * hash_size h" "pow2 (hash_size h)" "hash_size h \<le> 2 ^ 56"
    "\<And>i. i < hash_size h \<Longrightarrow> ht_vacant (ht_cells h ! i) \<Longrightarrow> ht_dead (ht_cells h ! i)"
    "placed ht_vacant (tri_path (hash_size h)) ht_key_hash (ht_cells h)"
    "\<And>i j. i < hash_size h \<Longrightarrow> j < hash_size h \<Longrightarrow> \<not> ht_vacant (ht_cells h ! i) \<Longrightarrow> fst (ht_cells h ! i) = fst (ht_cells h ! j) \<Longrightarrow> i = j"
    "ht_count h = length (filter (\<lambda>c. \<not> ht_vacant c) (ht_cells h))"
proof -
  show "length (ht_table h) = 2 * hash_size h" using assms by (simp add: ht_struct_def hash_size_def)
  show "pow2 (hash_size h)" "hash_size h \<le> 2 ^ 56" "placed ht_vacant (tri_path (hash_size h)) ht_key_hash (ht_cells h)"
    "ht_count h = length (filter (\<lambda>c. \<not> ht_vacant c) (ht_cells h))"
    using assms by (simp_all add: ht_struct_def)
  show "ht_dead (ht_cells h ! i)" if "i < hash_size h" "ht_vacant (ht_cells h ! i)" for i
    using assms that nth_mem [of i "ht_cells h"] unfolding ht_struct_def hash_size_dict by simp
  show "i = j" if "i < hash_size h" "j < hash_size h" "\<not> ht_vacant (ht_cells h ! i)" "fst (ht_cells h ! i) = fst (ht_cells h ! j)" for i j
    using assms that unfolding ht_struct_def by blast
qed

lemma ht_map_iff:
  assumes "ht_struct h"
  shows "ht_map h key = Some v \<longleftrightarrow>
     (\<exists>i < hash_size h. ht_cells h ! i = (key, v) \<and> v \<noteq> HT_NOTFOUND)"
proof
  assume "ht_map h key = Some v"
  then obtain c where c: "find (\<lambda>c. \<not> ht_dead c \<and> fst c = key) (ht_cells h) = Some c" "v = snd c"
    by (auto simp: ht_map_def)
  then obtain i where "i < hash_size h" "c = ht_cells h ! i" "\<not> ht_dead c" "fst c = key"
    by (auto simp: find_Some_iff hash_size_dict)
  then show "\<exists>i < hash_size h. ht_cells h ! i = (key, v) \<and> v \<noteq> HT_NOTFOUND" using c(2) by (auto intro!: exI [of _ i])
next
  assume "\<exists>i < hash_size h. ht_cells h ! i = (key, v) \<and> v \<noteq> HT_NOTFOUND"
  then obtain i where i: "i < hash_size h" "ht_cells h ! i = (key, v)" "v \<noteq> HT_NOTFOUND" by blast
  then have "(key, v) \<in> set (ht_cells h)" by (metis hash_size_dict length_dict_cells nth_mem)
  then obtain c where c: "find (\<lambda>c. \<not> ht_dead c \<and> fst c = key) (ht_cells h) = Some c"
    using i(3) by (cases "find (\<lambda>c. \<not> ht_dead c \<and> fst c = key) (ht_cells h)") (auto simp: find_None_iff)
  then obtain j where j: "j < hash_size h" "c = ht_cells h ! j" "\<not> ht_dead c" "fst c = key"
    by (auto simp: find_Some_iff hash_size_dict)
  then have "\<not> ht_vacant (ht_cells h ! j)" using ht_structD(4) [OF assms, of j] by auto
  then have "j = i" using ht_structD(6) [OF assms j(1) i(1)] j i(2) by simp
  then show "ht_map h key = Some v" using c j i(2) by (simp add: ht_map_def)
qed

text \<open>Counting after a change of one cell.\<close>

lemma length_filter_update:
  "i < length cs \<Longrightarrow> length (filter P (cs[i := c])) + of_bool (P (cs ! i)) = length (filter P cs) + of_bool (P c)"
proof (induction cs arbitrary: i)
  case (Cons x cs)
  then show ?case by (cases i) auto
qed simp

text \<open>Cell \<open>i\<close> is replaced by a well-placed cell for a key of its own.\<close>

lemma ht_struct_update:
  assumes s: "ht_struct h" and i: "i < hash_size h" and k: "k \<noteq> HT_NOTFOUND"
    and r: "reach ht_vacant (ht_cells h) (tri_path (hash_size h) (ptrhash_hash k)) i"
    and u: "\<And>j. j < hash_size h \<Longrightarrow> fst (ht_cells h ! j) = k \<Longrightarrow> j = i"
    and h': "ht_table h' = set_pair (ht_table h) i k v"
      "ht_count h' = ht_count h + of_bool (ht_vacant (ht_cells h ! i))"
  shows "ht_struct h'"
proof -
  note sD = ht_structD [OF s]
  have sz: "hash_size h' = hash_size h" using h' by (simp add: hash_size_def)
  have cells: "ht_cells h' = (ht_cells h)[i := (k, v)]"
    using dict_cells_update [of "ht_table h" i k v] sD(1) i h' by (simp add: hash_size_dict)
  have il: "i < length (ht_cells h)" using i by (simp add: hash_size_dict)
  have nth: "ht_cells h' ! j = (if j = i then (k, v) else ht_cells h ! j)" if "j < hash_size h" for j
    using that il by (simp add: cells nth_list_update hash_size_dict)
  have "placed ht_vacant (tri_path (length (ht_cells h))) ht_key_hash ((ht_cells h)[i := (k, v)])"
    by (rule tp.placed_insert) (use sD(5) k r in \<open>auto simp: ht_key_hash_def hash_size_dict\<close>)
  moreover have "ht_vacant c \<longrightarrow> ht_dead c" if c: "c \<in> set (ht_cells h')" for c
  proof -
    obtain j where "j < hash_size h" "c = ht_cells h' ! j"
      using c in_set_conv_nth [of c "ht_cells h'"] by (auto simp: hash_size_dict h')
    then show ?thesis using nth [of j] sD(4) [of j] k by (auto split: if_splits)
  qed
  moreover have "j = j'" if a: "j < hash_size h" "j' < hash_size h" "\<not> ht_vacant (ht_cells h' ! j)"
      "fst (ht_cells h' ! j) = fst (ht_cells h' ! j')" for j j'
  proof -
    consider "j = i" "j' = i" | "j = i" "j' \<noteq> i" "fst (ht_cells h ! j') = k" | "j \<noteq> i" "j' = i" "fst (ht_cells h ! j) = k"
      | "\<not> ht_vacant (ht_cells h ! j)" "fst (ht_cells h ! j) = fst (ht_cells h ! j')"
      using a nth [of j] nth [of j'] by (cases "j = i"; cases "j' = i") simp_all
    then show ?thesis using a(1,2) u sD(6) by cases blast+
  qed
  moreover have "ht_count h' = length (filter (\<lambda>c. \<not> ht_vacant c) (ht_cells h'))"
    using length_filter_update [OF il, of "\<lambda>c. \<not> ht_vacant c" "(k, v)"] sD(7) h'(2) k unfolding cells
    by (cases "ht_vacant (ht_cells h ! i)") simp_all
  moreover have "even (length (ht_table h'))" using s h'(1) by (simp add: ht_struct_def)
  ultimately show ?thesis
    using sD(2,3) unfolding ht_struct_def sz by (auto simp: cells hash_size_dict)
qed

text \<open>The map after such a change, when the old cell was free or had the same key.\<close>

lemma ht_map_update:
  assumes s: "ht_struct h" "ht_struct h'" and i: "i < hash_size h" and h': "ht_table h' = set_pair (ht_table h) i k v"
    and old: "ht_dead (ht_cells h ! i) \<or> fst (ht_cells h ! i) = k"
    and u: "\<And>j. j < hash_size h \<Longrightarrow> fst (ht_cells h ! j) = k \<Longrightarrow> j = i"
  shows "ht_map h' = (ht_map h)(k := (if v = HT_NOTFOUND then None else Some v))"
    and "live_cells h' + of_bool (\<not> ht_dead (ht_cells h ! i)) = live_cells h + of_bool (v \<noteq> HT_NOTFOUND)"
proof -
  have il: "i < length (ht_cells h)" using i by (simp add: hash_size_dict)
  have sz: "hash_size h' = hash_size h" using h' by (simp add: hash_size_def)
  have cells: "ht_cells h' = (ht_cells h)[i := (k, v)]"
    using dict_cells_update [of "ht_table h" i k v] ht_structD(1) [OF s(1)] i h' by (simp add: hash_size_dict)
  have nth: "ht_cells h' ! j = (if j = i then (k, v) else ht_cells h ! j)" if "j < hash_size h" for j
    using that il by (simp add: cells nth_list_update hash_size_dict)
  have "ht_map h' key = Some w \<longleftrightarrow> ((ht_map h)(k := (if v = HT_NOTFOUND then None else Some v))) key = Some w" for key w
  proof (cases "key = k")
    case True
    have "(\<exists>j < hash_size h. ht_cells h' ! j = (k, w)) \<longleftrightarrow> w = v"
    proof
      assume "\<exists>j < hash_size h. ht_cells h' ! j = (k, w)"
      then obtain j where j: "j < hash_size h" "ht_cells h' ! j = (k, w)" by blast
      have "fst (ht_cells h ! j) = k" if "j \<noteq> i" using j nth [OF j(1)] that by simp
      then have "j = i" using u j(1) by blast
      then show "w = v" using j nth [OF i] by simp
    qed (use nth [OF i] i in auto)
    then have "ht_map h' k = Some w \<longleftrightarrow> w = v \<and> w \<noteq> HT_NOTFOUND" unfolding ht_map_iff [OF s(2)] sz by blast
    then show ?thesis using True by (cases "v = HT_NOTFOUND") auto
  next
    case False
    have "ht_cells h' ! j = (key, w) \<and> w \<noteq> HT_NOTFOUND \<longleftrightarrow> ht_cells h ! j = (key, w) \<and> w \<noteq> HT_NOTFOUND" if "j < hash_size h" for j
      using nth [OF that] old False by (cases "j = i") auto
    then have "ht_map h' key = Some w \<longleftrightarrow> ht_map h key = Some w"
      unfolding ht_map_iff [OF s(2)] ht_map_iff [OF s(1)] sz by blast
    then show ?thesis using False by simp
  qed
  then show "ht_map h' = (ht_map h)(k := (if v = HT_NOTFOUND then None else Some v))"
    by (intro ext) (metis option.exhaust)
  show "live_cells h' + of_bool (\<not> ht_dead (ht_cells h ! i)) = live_cells h + of_bool (v \<noteq> HT_NOTFOUND)"
    using length_filter_update [OF il, of "\<lambda>c. \<not> ht_dead c" "(k, v)"] unfolding live_cells_def cells by simp
qed

section \<open>Probing\<close>

lemma ht_next_pair:
  assumes "pow2 n" "n \<le> 2 ^ 56"
  shows "ht_next (2 * n) iter (2 * i) = 2 * tri_next n iter i"
proof -
  have "pow2 (2 * n)" using assms by (intro pow2_double) auto
  moreover have "2 * i + iter * 2 = 2 * (i + iter)" by simp
  ultimately show ?thesis
    unfolding ht_next_def tri_next_def by (simp only: mask_index_of_nat mult_mod_right)
qed

lemma ht_rget_pair:
  assumes "ht_struct h" "i < hash_size h"
  shows "rget (ht_table h) (2 * i) = Inr (fst (ht_cells h ! i))" "rget (ht_table h) (Suc (2 * i)) = Inr (snd (ht_cells h ! i))"
  using rget_pair [of "ht_table h" i] ht_structD(1) [OF assms(1)] assms(2) by (simp_all add: hash_size_dict)

lemma ht_probe_scan:
  assumes s: "ht_struct h" and n: "n = hash_size h" and i: "i < n"
  shows "ht_probe (ht_table h) key maxprobe (2 * orig) iter (2 * i) eslot =
    Inr (let p = probe_path (tri_next n) maxprobe orig iter i in
      case scan ht_vacant (\<lambda>c. key = fst c) (ht_cells h) p of
        Some j \<Rightarrow> Cell (2 * j)
      | None \<Rightarrow> Slot (case eslot of Some e \<Rightarrow> Some e
          | None \<Rightarrow> map_option ((*) 2) (find (\<lambda>j. ht_dead (ht_cells h ! j)) p)))"
  using i
proof (induction "tri_next n" maxprobe orig iter i arbitrary: eslot rule: probe_path.induct)
  case (1 maxprobe orig iter i)
  note sD = ht_structD [OF s]
  let ?i = "tri_next n (Suc iter) i" and ?k = "fst (ht_cells h ! i)" and ?v = "snd (ht_cells h ! i)"
  have nx: "?i < n" using pow2_pos [OF sD(2)] n by (simp add: tri_next_def)
  have nxt: "ht_next (length (ht_table h)) (Suc iter) (2 * i) = 2 * ?i"
    unfolding sD(1) n using ht_next_pair [OF sD(2,3)] by simp
  have pair: "rget (ht_table h) (2 * i) = Inr ?k" "rget (ht_table h) (Suc (2 * i)) = Inr ?v"
    using ht_rget_pair [OF s] 1(2) n by simp_all
  have path: "probe_path (tri_next n) maxprobe orig iter i =
      i # (if Suc iter \<le> maxprobe \<and> ?i \<noteq> orig then probe_path (tri_next n) maxprobe orig (Suc iter) ?i else [])"
    by (subst probe_path.simps) (simp add: Let_def)
  show ?case
  proof (cases "?k = HT_NOTFOUND")
    case True
    moreover have "?v = HT_NOTFOUND" using True sD(4) [of i] 1(2) n by simp
    ultimately show ?thesis unfolding path
      by (subst ht_probe.simps) (auto simp: pair Let_def split: option.splits)
  next
    case k: False
    let ?slot = "if ?v = HT_NOTFOUND \<and> eslot = None then Some (2 * i) else eslot"
    have step: "ht_probe (ht_table h) key maxprobe (2 * orig) iter (2 * i) eslot =
      (if key = ?k then Inr (Cell (2 * i))
       else if Suc iter \<le> maxprobe \<and> ?i \<noteq> orig
       then ht_probe (ht_table h) key maxprobe (2 * orig) (Suc iter) (2 * ?i) ?slot
       else Inr (Slot ?slot))"
      using k by (subst ht_probe.simps) (simp add: pair nxt Let_def)
    show ?thesis
    proof (cases "Suc iter \<le> maxprobe \<and> ?i \<noteq> orig")
      case True
      note IH = 1(1) [OF refl True nx, of ?slot]
      show ?thesis unfolding step path using True k IH by (auto simp: Let_def split: option.splits)
    next
      case False
      then show ?thesis unfolding step path using k by (auto simp: Let_def split: option.splits)
    qed
  qed
qed

lemma peek_bp_probe_scan:
  assumes s: "ht_struct h" and n: "n = hash_size h" and i: "i < n"
  shows "peek_bp_probe (ht_table h) key maxprobe (2 * orig) iter (2 * i) =
    Inr (map_option (\<lambda>j. 2 * j + 1) (scan ht_vacant (\<lambda>c. key = fst c) (ht_cells h)
      (probe_path (tri_next n) maxprobe orig iter i)))"
  using i
proof (induction "tri_next n" maxprobe orig iter i rule: probe_path.induct)
  case (1 maxprobe orig iter i)
  note sD = ht_structD [OF s]
  let ?i = "tri_next n (Suc iter) i"
  have nx: "?i < n" using pow2_pos [OF sD(2)] n by (simp add: tri_next_def)
  have nxt: "ht_next (length (ht_table h)) (Suc iter) (2 * i) = 2 * ?i"
    unfolding sD(1) n using ht_next_pair [OF sD(2,3)] by simp
  have pair: "rget (ht_table h) (2 * i) = Inr (fst (ht_cells h ! i))"
    using ht_rget_pair [OF s] 1(2) n by simp
  show ?case
    using 1(1) [OF refl _ nx] nx
    by (subst peek_bp_probe.simps, subst probe_path.simps) (auto simp: pair nxt Let_def)
qed

text \<open>A search for a key finds its cell, or no cell has the key.\<close>

lemma ht_search:
  assumes s: "ht_struct h" and key: "key \<noteq> HT_NOTFOUND"
  obtains (hit) j where "scan ht_vacant (\<lambda>c. key = fst c) (ht_cells h) (tri_path (hash_size h) (ptrhash_hash key)) = Some j"
      "j < hash_size h" "fst (ht_cells h ! j) = key"
  | (miss) "scan ht_vacant (\<lambda>c. key = fst c) (ht_cells h) (tri_path (hash_size h) (ptrhash_hash key)) = None"
      "\<And>j. j < hash_size h \<Longrightarrow> fst (ht_cells h ! j) \<noteq> key"
proof (cases "scan ht_vacant (\<lambda>c. key = fst c) (ht_cells h) (tri_path (hash_size h) (ptrhash_hash key))")
  case None
  note sD = ht_structD [OF s]
  have "fst (ht_cells h ! j) \<noteq> key" if j: "j < hash_size h" for j
  proof
    assume k: "fst (ht_cells h ! j) = key"
    have "\<exists>i. scan ht_vacant (\<lambda>c. key = fst c) (ht_cells h) (tri_path (length (ht_cells h)) (ptrhash_hash key)) = Some i"
      by (rule tp.lookup_complete [where hs = ht_key_hash and i = j])
        (use sD(5) j k key in \<open>simp_all add: ht_key_hash_def hash_size_dict\<close>)
    then show False using None by (simp add: hash_size_dict)
  qed
  then show ?thesis using miss None by blast
next
  case (Some j)
  then show ?thesis
    using hit [OF Some] tp.lookup_sound [of ht_vacant "\<lambda>c. key = fst c" "ht_cells h" "ptrhash_hash key" j] ht_structD(2) [OF s]
    by (simp add: hash_size_dict)
qed

lemma live_card:
  assumes s: "ht_struct h"
  shows "live_cells h = card (dom (ht_map h))" "finite (dom (ht_map h))"
proof -
  let ?L = "{i. i < hash_size h \<and> \<not> ht_dead (ht_cells h ! i)}"
  have dom: "dom (ht_map h) = (\<lambda>i. fst (ht_cells h ! i)) ` ?L"
  proof (intro set_eqI iffI)
    fix key assume "key \<in> dom (ht_map h)"
    then obtain v i where "i < hash_size h" "ht_cells h ! i = (key, v)" "v \<noteq> HT_NOTFOUND" by (auto simp: ht_map_iff [OF s])
    then show "key \<in> (\<lambda>i. fst (ht_cells h ! i)) ` ?L" by (intro image_eqI [of _ _ i]) simp_all
  next
    fix key assume "key \<in> (\<lambda>i. fst (ht_cells h ! i)) ` ?L"
    then obtain i where "i < hash_size h" "\<not> ht_dead (ht_cells h ! i)" "key = fst (ht_cells h ! i)" by blast
    then have "ht_map h key = Some (snd (ht_cells h ! i))" by (auto simp: ht_map_iff [OF s])
    then show "key \<in> dom (ht_map h)" by blast
  qed
  have "inj_on (\<lambda>i. fst (ht_cells h ! i)) ?L"
  proof (rule inj_onI)
    fix i j assume a: "i \<in> ?L" "j \<in> ?L" "fst (ht_cells h ! i) = fst (ht_cells h ! j)"
    then have "\<not> ht_vacant (ht_cells h ! i)" using ht_structD(4) [OF s, of i] by auto
    then show "i = j" using ht_structD(6) [OF s, of i j] a by blast
  qed
  then show "live_cells h = card (dom (ht_map h))"
    unfolding dom live_cells_def by (simp add: card_image length_filter_conv_card hash_size_dict)
  show "finite (dom (ht_map h))" unfolding dom by simp
qed

section \<open>Reserving a cell\<close>

definition reserved :: "htable \<Rightarrow> ptr \<Rightarrow> nat \<Rightarrow> htable \<Rightarrow> bool" where
  "reserved h key j h' \<longleftrightarrow> ht_struct h' \<and> j < hash_size h' \<and> fst (ht_cells h' ! j) = key \<and> ht_map h' = ht_map h \<and>
     ht_live h' = live_cells h' + of_bool (ht_dead (ht_cells h' ! j)) \<and> hash_size h \<le> hash_size h' \<and>
     (ht_count h \<le> ht_live h \<longrightarrow> ht_count h' \<le> ht_live h')"

lemma store_reserved:
  assumes r: "reserved h key j h'" and key: "key \<noteq> HT_NOTFOUND" and v: "v \<noteq> HT_NOTFOUND"
  obtains h'' where "ht_store v (Some (2 * j + 1), h') = Inr h''" "ht_ok h''" "ht_map h'' = (ht_map h)(key \<mapsto> v)"
    "hash_size h'' = hash_size h'" "ht_count h \<le> ht_live h \<longrightarrow> ht_count h'' \<le> ht_live h''"
proof -
  have s: "ht_struct h'" and j: "j < hash_size h'" "fst (ht_cells h' ! j) = key" using r by (simp_all add: reserved_def)
  note sD = ht_structD [OF s]
  define h'' where "h'' = h'\<lparr>ht_table := set_pair (ht_table h') j key v\<rparr>"
  have tab: "(ht_table h')[Suc (2 * j) := v] = set_pair (ht_table h') j key v"
    using set_pair_value [of "ht_table h'" j v] sD(1) j by (simp add: hash_size_dict)
  have st: "ht_store v (Some (2 * j + 1), h') = Inr h''"
    using sD(1) j(1) tab by (simp add: ht_store_def h''_def)
  have u: "\<And>i. i < hash_size h' \<Longrightarrow> fst (ht_cells h' ! i) = key \<Longrightarrow> i = j"
    using sD(6) j key by metis
  have rc: "reach ht_vacant (ht_cells h') (tri_path (hash_size h') (ptrhash_hash key)) j"
    using sD(5) j key by (simp add: placed_def ht_key_hash_def hash_size_dict)
  have s'': "ht_struct h''"
    by (rule ht_struct_update [OF s j(1) key rc u, where v = v]) (use j key in \<open>simp_all add: h''_def\<close>)
  have tb: "ht_table h'' = set_pair (ht_table h') j key v" by (simp add: h''_def)
  note m = ht_map_update [OF s s'' j(1), of key v]
  have "ht_map h'' = (ht_map h')(key := Some v)" "live_cells h'' + of_bool (\<not> ht_dead (ht_cells h' ! j)) = live_cells h' + 1"
    using m(1) [OF tb disjI2 [OF j(2)] u] m(2) [OF tb disjI2 [OF j(2)] u] v by simp_all
  moreover have "ht_live h'' = live_cells h' + of_bool (ht_dead (ht_cells h' ! j))" using r by (simp add: reserved_def h''_def)
  ultimately have "ht_live h'' = live_cells h''" by (cases "ht_dead (ht_cells h' ! j)") simp_all
  then have "ht_ok h''" using s'' by (simp add: ht_ok_def)
  moreover have "ht_map h'' = (ht_map h)(key \<mapsto> v)"
    using r \<open>ht_map h'' = (ht_map h')(key := Some v)\<close> by (simp add: reserved_def)
  moreover have "hash_size h'' = hash_size h'" "ht_count h'' = ht_count h'" "ht_live h'' = ht_live h'"
    by (simp_all add: h''_def hash_size_def)
  moreover have "ht_count h \<le> ht_live h \<longrightarrow> ht_count h' \<le> ht_live h'" using r unfolding reserved_def by blast
  ultimately show thesis using that [OF st] by simp
qed

text \<open>An insertion into the first free slot of the probe sequence.\<close>

lemma insert_reserved:
  assumes ok: "ht_ok h" and key: "key \<noteq> HT_NOTFOUND" and no: "\<And>j. j < hash_size h \<Longrightarrow> fst (ht_cells h ! j) \<noteq> key"
    and f: "find (\<lambda>j. ht_dead (ht_cells h ! j)) (tri_path (hash_size h) (ptrhash_hash key)) = Some i"
    and h': "h' = h\<lparr>ht_table := (ht_table h)[2 * i := key],
      ht_count := (if ht_vacant (ht_cells h ! i) then ht_count h + 1 else ht_count h), ht_live := ht_live h + 1\<rparr>"
  shows "reserved h key i h'" "i < hash_size h"
proof -
  have s: "ht_struct h" and live: "ht_live h = live_cells h" using ok by (simp_all add: ht_ok_def)
  note sD = ht_structD [OF s]
  have i: "i < hash_size h" and dead: "ht_dead (ht_cells h ! i)"
    using tp.find_free_range [of "ht_cells h" "\<lambda>c. ht_dead c" "ptrhash_hash key" i] sD(2) f by (simp_all add: hash_size_dict)
  have tab: "(ht_table h)[2 * i := key] = set_pair (ht_table h) i key HT_NOTFOUND"
  proof -
    have "snd (ht_cells h ! i) = ht_table h ! Suc (2 * i)" using i by (simp add: dict_cells_nth hash_size_dict)
    then have "(ht_table h)[Suc (2 * i) := HT_NOTFOUND] = ht_table h" using dead by (metis list_update_id)
    then have "(ht_table h)[Suc (2 * i) := HT_NOTFOUND, 2 * i := key] = (ht_table h)[2 * i := key]" by simp
    then show ?thesis using list_update_swap [of "2 * i" "Suc (2 * i)" "ht_table h" key HT_NOTFOUND] by (simp add: set_pair_def)
  qed
  have "reach ht_vacant (ht_cells h) (tri_path (hash_size h) (ptrhash_hash key)) i"
  proof -
    obtain m where m: "m < length (tri_path (hash_size h) (ptrhash_hash key))" "i = tri_path (hash_size h) (ptrhash_hash key) ! m"
        "\<forall>j < m. \<not> ht_dead (ht_cells h ! (tri_path (hash_size h) (ptrhash_hash key) ! j))"
      using f by (auto simp: find_Some_iff)
    let ?p = "tri_path (hash_size h) (ptrhash_hash key)"
    have "?p = take m ?p @ i # drop (Suc m) ?p" using m by (simp add: id_take_nth_drop)
    moreover have "\<not> ht_vacant (ht_cells h ! j)" if jm: "j \<in> set (take m ?p)" for j
    proof -
      have "j \<in> set ?p" using jm by (rule in_set_takeD)
      then have "j < hash_size h" using tri_path_range [OF sD(2), of "ptrhash_hash key"] by auto
      moreover obtain l where "l < m" "j = ?p ! l"
        using jm by (auto simp: in_set_conv_nth)
      then have "\<not> ht_dead (ht_cells h ! j)" using m(3) by blast
      ultimately show ?thesis using sD(4) by blast
    qed
    ultimately show ?thesis unfolding reach_def by blast
  qed
  then have s': "ht_struct h'"
    by (rule ht_struct_update [OF s i key, where v = HT_NOTFOUND]) (use no in \<open>auto simp: h' tab\<close>)
  have m: "ht_map h' = (ht_map h)(key := None)" "live_cells h' = live_cells h"
    using ht_map_update [OF s s' i, of key HT_NOTFOUND] dead no by (auto simp: h' tab)
  have "ht_map h key = None"
    using no ht_map_iff [OF s, of key] by (metis fst_conv option.exhaust)
  then have "ht_map h' = ht_map h" using m(1) by (simp add: fun_upd_idem)
  moreover have "ht_cells h' ! i = (key, HT_NOTFOUND)"
    using dict_cells_update [of "ht_table h" i key HT_NOTFOUND] sD(1) i by (simp add: h' tab hash_size_dict)
  moreover have "hash_size h' = hash_size h" by (simp add: h' hash_size_def)
  ultimately show "reserved h key i h'" unfolding reserved_def using s' i m(2) live by (simp add: h')
  show "i < hash_size h" by fact
qed

end
