(* ===== verification/HTableMap.thy ===== *)
theory HTableMap
  imports HTable
begin

text \<open>
  The pointer hash tables as maps: reservation of a cell with rehashing and growth, termination of
  the recursion, and the operations of \<open>ptrhash\<close> against the interface of a map.
\<close>

section \<open>One pass of the reservation loop\<close>

text \<open>Rehashing into a new table and trying again.\<close>

definition ht_retry :: "nat \<Rightarrow> heap_env \<Rightarrow> htable \<Rightarrow> ptr \<Rightarrow> nat \<Rightarrow> (nat option \<times> htable) result" where
  "ht_retry fuel E h key newsz =
     (case alloc_cells E (of_nat newsz * 8) of
        None \<Rightarrow> Inr (None, h)
      | Some cells \<Rightarrow>
          rbind (ht_refill (lookup_bp fuel E) (ht_table h) (filter even [0 ..< length (ht_table h)])
            \<lparr>ht_table = map (\<lambda>_. HT_NOTFOUND) cells, ht_count = 0, ht_live = 0, ht_inline = False\<rparr>) (\<lambda>h.
          lookup_bp fuel E h key))"

lemma lookup_probe:
  assumes s: "ht_struct h"
  shows "ht_probe (ht_table h) key (ht_max_probe (hash_size h)) (mask_index (ptrhash_hash key) (hash_size h) * 2) 0
      (mask_index (ptrhash_hash key) (hash_size h) * 2) None =
    Inr (case scan ht_vacant (\<lambda>c. key = fst c) (ht_cells h) (tri_path (hash_size h) (ptrhash_hash key)) of
        Some j \<Rightarrow> Cell (2 * j)
      | None \<Rightarrow> Slot (map_option ((*) 2) (find (\<lambda>j. ht_dead (ht_cells h ! j)) (tri_path (hash_size h) (ptrhash_hash key)))))"
  unfolding tri_path_def mult.commute [of _ 2]
  by (rule ht_probe_scan [where eslot = None, unfolded Let_def option.case, OF s refl mask_index_lt [OF ht_structD(2) [OF s]]])

text \<open>The cell is reserved, or the table is too small, or it holds tombstones.\<close>

lemma lookup_pass:
  assumes ok: "ht_ok h" and key: "key \<noteq> HT_NOTFOUND"
  obtains (kept) j h' where "\<And>fuel. lookup_bp (Suc fuel) E h key = Inr (Some (2 * j + 1), h')"
      "reserved h key j h'" "hash_size h' = hash_size h"
  | (grow) "\<And>fuel. lookup_bp (Suc fuel) E h key = ht_retry fuel E h key (ht_grown (length (ht_table h)))"
      "hash_size h < tri_room (card (dom (ht_map h)))"
  | (clean) "\<And>fuel. lookup_bp (Suc fuel) E h key = ht_retry fuel E h key (length (ht_table h))" "ht_live h < ht_count h"
proof -
  have s: "ht_struct h" and live: "ht_live h = card (dom (ht_map h))" using ok live_card by (simp_all add: ht_ok_def)
  note sD = ht_structD [OF s] and pr = lookup_probe [OF s, of key]
  let ?n = "hash_size h" let ?p = "tri_path ?n (ptrhash_hash key)"
  let ?f = "find (\<lambda>j. ht_dead (ht_cells h ! j)) ?p"
  have n: "0 < ?n" using pow2_pos [OF sD(2)] .
  show thesis using s key
  proof (cases rule: ht_search)
    case (hit j)
    define h' where "h' = (if ht_dead (ht_cells h ! j) then h\<lparr>ht_live := ht_live h + 1\<rparr> else h)"
    have "lookup_bp (Suc fuel) E h key = Inr (Some (2 * j + 1), h')" for fuel
      using pr hit(1) ht_rget_pair [OF s hit(2)] by (simp add: Let_def h'_def)
    moreover have t: "ht_table h' = ht_table h" "ht_count h' = ht_count h" by (simp_all add: h'_def)
    have "hash_size h' = hash_size h" "ht_map h' = ht_map h" "live_cells h' = live_cells h" "ht_struct h' = ht_struct h"
      using t by (simp_all add: hash_size_def ht_map_def [abs_def] live_cells_def ht_struct_def)
    then have "reserved h key j h'" "hash_size h' = hash_size h"
      using s hit ok t by (auto simp: reserved_def ht_ok_def h'_def)
    ultimately show thesis by (rule kept)
  next
    case miss
    have step: "lookup_bp (Suc fuel) E h key =
        (let e = (if ht_live h * 4 \<ge> ?n * 3 then None else map_option ((*) 2) ?f) in
         case (if 8 * (?n - ht_count h) \<le> ?n then None else e) of
           Some i \<Rightarrow> rbind (rget (ht_table h) i) (\<lambda>k. rbind (rset (ht_table h) i key) (\<lambda>tab.
             Inr (Some (i + 1), h\<lparr>ht_table := tab, ht_count := (if k = HT_NOTFOUND then ht_count h + 1 else ht_count h),
               ht_live := ht_live h + 1\<rparr>)))
         | None \<Rightarrow> ht_retry fuel E h key (if e = None then ht_grown (length (ht_table h)) else length (ht_table h)))" for fuel
      using pr miss(1) by (cases ?f) (simp_all add: Let_def ht_retry_def)
    consider (full) "ht_live h * 4 \<ge> ?n * 3 \<or> ?f = None" | (slot) i where "?f = Some i" "ht_live h * 4 < ?n * 3"
      by (cases ?f; cases "ht_live h * 4 < ?n * 3") auto
    then show thesis
    proof cases
      case full
      have "\<not> tri_room (card (dom (ht_map h))) \<le> ?n"
      proof
        assume r: "tri_room (card (dom (ht_map h))) \<le> ?n"
        then have "ht_live h * 4 < ?n * 3" using live by (simp add: tri_room_def split: if_splits)
        moreover obtain i where "?f = Some i"
          using tp.free_slot [of "ht_cells h" "card (dom (ht_map h))" "\<lambda>c. ht_dead c" "ptrhash_hash key"] r sD(2) live_card(1) [OF s]
          by (auto simp: hash_size_dict live_cells_def)
        ultimately show False using full by simp
      qed
      moreover have "lookup_bp (Suc fuel) E h key = ht_retry fuel E h key (ht_grown (length (ht_table h)))" for fuel
        using full step [of fuel] by (auto simp: Let_def)
      ultimately show thesis using grow by simp
    next
      case (slot i)
      show thesis
      proof (cases "8 * (?n - ht_count h) \<le> ?n")
        case True
        then have "ht_live h < ht_count h" using slot(2) n by simp
        moreover have "lookup_bp (Suc fuel) E h key = ht_retry fuel E h key (length (ht_table h))" for fuel
          using True slot step [of fuel] by (simp add: Let_def)
        ultimately show thesis using clean by simp
      next
        case False
        define h' where "h' = h\<lparr>ht_table := (ht_table h)[2 * i := key],
          ht_count := (if ht_vacant (ht_cells h ! i) then ht_count h + 1 else ht_count h), ht_live := ht_live h + 1\<rparr>"
        note r = insert_reserved [OF ok key miss(2) slot(1) h'_def]
        have "lookup_bp (Suc fuel) E h key = Inr (Some (2 * i + 1), h')" for fuel
          using False slot step [of fuel] ht_rget_pair [OF s r(2)] sD(1) r(2) by (simp add: Let_def h'_def)
        then show thesis using kept r(1) by (simp add: h'_def hash_size_def)
      qed
    qed
  qed
qed

section \<open>Rehashing\<close>

lemma tri_room_mono: "m \<le> m' \<Longrightarrow> tri_room m \<le> tri_room m'"
  by (simp add: tri_room_def)

definition ht_prefix :: "htable \<Rightarrow> nat \<Rightarrow> ptr \<Rightarrow> ptr option" where
  "ht_prefix h j key = map_option snd (find (\<lambda>c. \<not> ht_dead c \<and> fst c = key) (take j (ht_cells h)))"

lemma prefix_all: "ht_prefix h (hash_size h) = ht_map h"
  by (simp add: ht_prefix_def [abs_def] ht_map_def [abs_def] hash_size_dict)

lemma prefix_none: "ht_prefix h 0 = Map.empty"
  by (simp add: ht_prefix_def fun_eq_iff)

lemma prefix_Suc:
  assumes s: "ht_struct h" and j: "j < hash_size h"
  shows "ht_prefix h (Suc j) = (if ht_dead (ht_cells h ! j) then ht_prefix h j
      else (ht_prefix h j)(fst (ht_cells h ! j) \<mapsto> snd (ht_cells h ! j)))"
    and "\<not> ht_dead (ht_cells h ! j) \<Longrightarrow> ht_prefix h j (fst (ht_cells h ! j)) = None"
proof -
  let ?c = "ht_cells h ! j"
  have take: "take (Suc j) (ht_cells h) = take j (ht_cells h) @ [?c]" using j by (simp add: take_Suc_conv_app_nth hash_size_dict)
  show none: "ht_prefix h j (fst ?c) = None" if live: "\<not> ht_dead ?c"
  proof (rule ccontr)
    assume "ht_prefix h j (fst ?c) \<noteq> None"
    then obtain d where "find (\<lambda>c. \<not> ht_dead c \<and> fst c = fst ?c) (take j (ht_cells h)) = Some d"
      by (auto simp: ht_prefix_def)
    then obtain i where i: "i < j" "fst (ht_cells h ! i) = fst ?c"
      by (auto simp: find_Some_iff)
    have "\<not> ht_vacant ?c" using live ht_structD(4) [OF s j] by blast
    then have "i = j" using ht_structD(6) [OF s _ j, of i] i j by simp
    then show False using i(1) by simp
  qed
  show "ht_prefix h (Suc j) = (if ht_dead ?c then ht_prefix h j else (ht_prefix h j)(fst ?c \<mapsto> snd ?c))"
  proof
    fix key
    show "ht_prefix h (Suc j) key = (if ht_dead ?c then ht_prefix h j else (ht_prefix h j)(fst ?c \<mapsto> snd ?c)) key"
      using none by (auto simp: ht_prefix_def take find_append split: option.splits)
  qed
qed

lemma prefix_le: "ht_struct h \<Longrightarrow> ht_prefix h j \<subseteq>\<^sub>m ht_map h"
proof -
  have "ht_map h key = Some v" if p: "ht_prefix h j key = Some v" for key v
  proof -
    let ?P = "\<lambda>c. \<not> ht_dead c \<and> fst c = key"
    obtain c where "find ?P (take j (ht_cells h)) = Some c" "v = snd c" using p by (auto simp: ht_prefix_def)
    moreover from this have "find ?P (ht_cells h) = Some c"
      using find_append [of ?P "take j (ht_cells h)" "drop j (ht_cells h)"] by simp
    ultimately show ?thesis by (simp add: ht_map_def)
  qed
  then show ?thesis by (auto simp: map_le_def)
qed

text \<open>\<open>lookup\<close> works on every table without tombstones with at least \<open>n\<close> slots and fewer than \<open>M\<close> entries.\<close>

definition looks :: "(htable \<Rightarrow> ptr \<Rightarrow> (nat option \<times> htable) result) \<Rightarrow> nat \<Rightarrow> nat \<Rightarrow> bool" where
  "looks lookup n M \<longleftrightarrow>
     (\<forall>h key. ht_ok h \<and> ht_count h \<le> ht_live h \<and> n \<le> hash_size h \<and> card (dom (ht_map h)) < M \<and> key \<noteq> HT_NOTFOUND \<longrightarrow>
       (\<exists>j h'. lookup h key = Inr (Some (2 * j + 1), h') \<and> reserved h key j h'))"

lemma refill_ok:
  assumes s: "ht_struct a" and g: "looks lookup n M" "card (dom (ht_map a)) \<le> M"
    and "j \<le> hash_size a" "ht_ok h" "ht_count h \<le> ht_live h" "n \<le> hash_size h" "ht_map h = ht_prefix a j"
  shows "\<exists>h'. ht_refill lookup (ht_table a) (map ((*) 2) [j ..< hash_size a]) h = Inr h' \<and>
    ht_ok h' \<and> ht_count h' \<le> ht_live h' \<and> ht_map h' = ht_map a \<and> hash_size h \<le> hash_size h'"
  using assms(4-)
proof (induction "hash_size a - j" arbitrary: j h)
  case 0
  then show ?case using prefix_all [of a] by simp
next
  case (Suc m)
  let ?c = "ht_cells a ! j"
  have j: "j < hash_size a" "[j ..< hash_size a] = j # [Suc j ..< hash_size a]" using Suc.hyps(2)
    by (auto simp: upt_conv_Cons)
  have m: "m = hash_size a - Suc j" using Suc.hyps(2) by simp
  note pair = ht_rget_pair [OF s j(1)] and pre = prefix_Suc [OF s j(1)]
  show ?case
  proof (cases "ht_dead ?c")
    case True
    have "ht_refill lookup (ht_table a) (map ((*) 2) [j ..< hash_size a]) h =
        ht_refill lookup (ht_table a) (map ((*) 2) [Suc j ..< hash_size a]) h"
      unfolding j(2) using pair True by simp
    then show ?thesis using Suc.hyps(1) [OF m, of h] Suc.prems pre(1) True j(1) by simp
  next
    case False
    have k: "fst ?c \<noteq> HT_NOTFOUND" using False ht_structD(4) [OF s j(1)] by blast
    have "dom (ht_prefix a j) \<subset> dom (ht_map a)"
    proof -
      have "ht_map a (fst ?c) = Some (snd ?c)" using j(1) False by (auto simp: ht_map_iff [OF s])
      then show ?thesis using pre(2) [OF False] map_le_implies_dom_le [OF prefix_le [OF s, of j]] by blast
    qed
    then have "card (dom (ht_map h)) < M"
      using psubset_card_mono [OF live_card(2) [OF s], of "dom (ht_prefix a j)"] g(2) Suc.prems(5) by simp
    then obtain i h1 where l: "lookup h (fst ?c) = Inr (Some (2 * i + 1), h1)" "reserved h (fst ?c) i h1"
      using g(1) Suc.prems k unfolding looks_def by blast
    obtain h2 where h2: "ht_store (snd ?c) (Some (2 * i + 1), h1) = Inr h2" "ht_ok h2"
        "ht_map h2 = (ht_map h)(fst ?c \<mapsto> snd ?c)" "hash_size h2 = hash_size h1" "ht_count h \<le> ht_live h \<longrightarrow> ht_count h2 \<le> ht_live h2"
      using store_reserved [OF l(2) k False] by blast
    have "ht_map h2 = ht_prefix a (Suc j)" using h2(3) pre(1) False Suc.prems(5) by simp
    moreover have sz: "hash_size h \<le> hash_size h2" using l(2) h2(4) by (simp add: reserved_def)
    ultimately obtain h' where r: "ht_refill lookup (ht_table a) (map ((*) 2) [Suc j ..< hash_size a]) h2 = Inr h'"
        "ht_ok h'" "ht_count h' \<le> ht_live h'" "ht_map h' = ht_map a" "hash_size h2 \<le> hash_size h'"
      using Suc.hyps(1) [OF m, of h2] Suc.prems h2 j(1) by auto
    have "ht_refill lookup (ht_table a) (map ((*) 2) [j ..< hash_size a]) h = Inr h'"
      unfolding j(2) using pair l(1) h2(1) False r(1) by simp
    then show ?thesis using r sz by (intro exI [of _ h']) simp
  qed
qed

section \<open>Termination\<close>

lemma ht_fresh:
  assumes "pow2 m" "m \<le> 2 ^ 56" and h: "h = \<lparr>ht_table = replicate (2 * m) HT_NOTFOUND, ht_count = 0, ht_live = 0, ht_inline = b\<rparr>"
  shows "ht_ok h" "ht_map h = Map.empty" "hash_size h = m"
proof -
  show sz: "hash_size h = m" by (simp add: hash_size_def h)
  have cells: "ht_cells h = replicate m (HT_NOTFOUND, HT_NOTFOUND)"
    unfolding h dict_cells_def by (rule nth_equalityI) (simp_all add: dict_size_def)
  have "placed ht_vacant (tri_path m) ht_key_hash (replicate m (HT_NOTFOUND, HT_NOTFOUND))"
    by (rule tp.placed_vacant) (simp add: ht_key_hash_def)
  then have s: "ht_struct h" using assms unfolding ht_struct_def sz cells by (auto simp: h)
  moreover have "live_cells h = 0" unfolding live_cells_def cells by simp
  moreover have "ht_live h = 0" by (simp add: h)
  ultimately show "ht_ok h" by (simp add: ht_ok_def)
  show "ht_map h = Map.empty" unfolding ht_map_def [abs_def] cells by (simp add: fun_eq_iff find_None_iff)
qed

lemma ht_grown_bounds:
  assumes "pow2 n" "n < 2 ^ 50"
  obtains m where "ht_grown (2 * n) = 2 * m" "pow2 m" "2 * n \<le> m" "m \<le> 16 + 4 * n"
proof -
  have p2: "pow2 (2 * n)" "pow2 (4 * n)"
    using pow2_double [of n] pow2_double [of "2 * n"] assms by simp_all
  have p16: "pow2 16" unfolding pow2_def by (intro exI [of _ 4]) simp
  consider "n < 16" | "\<not> n < 16" "2 ^ 19 \<le> 2 * n \<or> 2 * n \<le> 2 ^ 8" | "\<not> n < 16" "\<not> (2 ^ 19 \<le> 2 * n \<or> 2 * n \<le> 2 ^ 8)" by blast
  then show thesis
  proof cases
    case 1
    have "2 * n \<le> 16" using pow2_less_double [OF p16 assms(1) 1] .
    then show thesis using that [of 16] 1 p16 by (simp add: ht_grown_def HT_N_INLINE_def)
  next
    case 2
    then show thesis using that [of "2 * n"] p2 by (simp add: ht_grown_def HT_N_INLINE_def)
  next
    case 3
    then show thesis using that [of "4 * n"] p2 by (simp add: ht_grown_def HT_N_INLINE_def)
  qed
qed

text \<open>A retry with a new table of \<open>m\<close> slots, when the recursive calls work on tables of that size.\<close>

lemma retry_ok:
  assumes E: "\<And>b. alloc_ok E b" and ok: "ht_ok h" and g: "looks (lookup_bp f E) m M" "card (dom (ht_map h)) < M"
    and m: "pow2 m" "m \<le> 2 ^ 56" "hash_size h \<le> m" and key: "key \<noteq> HT_NOTFOUND"
  shows "\<exists>j h'. ht_retry f E h key (2 * m) = Inr (Some (2 * j + 1), h') \<and> reserved h key j h'"
proof -
  have s: "ht_struct h" using ok by (simp add: ht_ok_def)
  have b: "unat (of_nat (2 * m) * 8 :: u64) = 2 * m * 8"
    using m(2) by (simp add: unat_word_ariths unat_of_nat_small)
  then have cells: "alloc_cells E (of_nat (2 * m) * 8) = Some (map (junk E) [0 ..< 2 * m])"
    using E by (simp add: alloc_cells_def)
  define h0 where "h0 = \<lparr>ht_table = replicate (2 * m) HT_NOTFOUND, ht_count = 0, ht_live = 0, ht_inline = False\<rparr>"
  note fresh = ht_fresh [OF m(1,2) h0_def]
  have tab: "map (\<lambda>_. HT_NOTFOUND) (map (junk E) [0 ..< 2 * m]) = replicate (2 * m) HT_NOTFOUND"
    by (simp add: map_replicate_const)
  obtain h1 where h1: "ht_refill (lookup_bp f E) (ht_table h) (map ((*) 2) [0 ..< hash_size h]) h0 = Inr h1"
      "ht_ok h1" "ht_count h1 \<le> ht_live h1" "ht_map h1 = ht_map h" "hash_size h0 \<le> hash_size h1"
    using refill_ok [OF s g(1) less_imp_le [OF g(2)], of 0 h0] fresh prefix_none [of h] by (auto simp: h0_def)
  obtain j h' where l: "lookup_bp f E h1 key = Inr (Some (2 * j + 1), h')" "reserved h1 key j h'"
    using g h1 fresh(3) key unfolding looks_def by metis
  have "ht_retry f E h key (2 * m) = Inr (Some (2 * j + 1), h')"
    unfolding ht_retry_def cells option.case tab h0_def [symmetric] ht_structD(1) [OF s] even_upt h1(1) by (simp add: l(1))
  moreover have "reserved h key j h'" using l(2) h1 fresh(3) m(3) by (auto simp: reserved_def)
  ultimately show ?thesis by blast
qed

text \<open>Each level of the recursion at least doubles the table, so the depth is bounded.\<close>

lemma looks_fuel:
  assumes E: "\<And>b. alloc_ok E b" and M: "tri_room M \<le> 2 ^ 49"
    and "tri_room M \<le> n * 2 ^ d" "d < fuel" "0 < n"
  shows "looks (lookup_bp fuel E) n M"
  using assms(3-)
proof (induction d arbitrary: n fuel)
  case (0 n fuel)
  then obtain f where f: "fuel = Suc f" by (cases fuel) auto
  show ?case unfolding looks_def
  proof (intro allI impI)
    fix h key
    assume h: "ht_ok h \<and> ht_count h \<le> ht_live h \<and> n \<le> hash_size h \<and> card (dom (ht_map h)) < M \<and> key \<noteq> HT_NOTFOUND"
    then have "ht_ok h" "key \<noteq> HT_NOTFOUND" by simp_all
    then show "\<exists>j h'. lookup_bp fuel E h key = Inr (Some (2 * j + 1), h') \<and> reserved h key j h'"
    proof (cases rule: lookup_pass [where E = E])
      case grow
      then have "hash_size h < tri_room M" using h tri_room_mono [of "card (dom (ht_map h))" M] by simp
      then show ?thesis using 0 h by simp
    qed (use h f in auto)
  qed
next
  case (Suc d n fuel)
  then obtain f where f: "fuel = Suc f" by (cases fuel) auto
  show ?case unfolding looks_def
  proof (intro allI impI)
    fix h key
    assume h: "ht_ok h \<and> ht_count h \<le> ht_live h \<and> n \<le> hash_size h \<and> card (dom (ht_map h)) < M \<and> key \<noteq> HT_NOTFOUND"
    then have ok: "ht_ok h" and key: "key \<noteq> HT_NOTFOUND" by simp_all
    then have s: "ht_struct h" by (simp add: ht_ok_def)
    show "\<exists>j h'. lookup_bp fuel E h key = Inr (Some (2 * j + 1), h') \<and> reserved h key j h'" using ok key
    proof (cases rule: lookup_pass [where E = E])
      case grow
      then have room: "hash_size h < tri_room M" using h tri_room_mono [of "card (dom (ht_map h))" M] by simp
      obtain m where m: "ht_grown (2 * hash_size h) = 2 * m" "pow2 m" "2 * hash_size h \<le> m" "m \<le> 16 + 4 * hash_size h"
        by (rule ht_grown_bounds [OF ht_structD(2) [OF s]]) (use room M in simp)
      have "tri_room M \<le> m * 2 ^ d"
      proof -
        have "tri_room M \<le> (2 * n) * 2 ^ d" using Suc.prems(1) by simp
        also have "\<dots> \<le> m * 2 ^ d" using m(3) h by (intro mult_le_mono1) simp
        finally show ?thesis .
      qed
      then have good: "looks (lookup_bp f E) m M" using Suc.IH [of m f] Suc.prems(2) f pow2_pos [OF m(2)] by simp
      have "\<exists>j h'. ht_retry f E h key (2 * m) = Inr (Some (2 * j + 1), h') \<and> reserved h key j h'"
        by (rule retry_ok [OF E ok good _ m(2) _ _ key]) (use m room M h in simp_all)
      then show ?thesis using grow(1) [of f] f m(1) ht_structD(1) [OF s] by simp
    qed (use h f in auto)
  qed
qed

text \<open>Any table within the sizes the model covers: 50 levels are enough.\<close>

lemma lookup_bp_ok:
  assumes E: "\<And>b. alloc_ok E b" and ok: "ht_ok h" and c: "card (dom (ht_map h)) < 2 ^ 40" and key: "key \<noteq> HT_NOTFOUND" and fuel: "50 \<le> fuel"
  shows "\<exists>j h'. lookup_bp fuel E h key = Inr (Some (2 * j + 1), h') \<and> reserved h key j h'"
proof -
  have s: "ht_struct h" using ok by (simp add: ht_ok_def)
  note sD = ht_structD [OF s]
  obtain f where f: "fuel = Suc f" "49 \<le> f" using fuel by (cases fuel) auto
  have room: "tri_room (2 ^ 40) \<le> 2 ^ 44" by (simp add: tri_room_def)
  have good: "looks (lookup_bp f E) m (2 ^ 40)" if "0 < m" for m
    by (rule looks_fuel [OF E, where d = 44]) (use room f that in \<open>auto intro: order_trans\<close>)
  show ?thesis using ok key
  proof (cases rule: lookup_pass [where E = E])
    case (kept j h')
    then show ?thesis using f by blast
  next
    case grow
    then have "hash_size h < tri_room (2 ^ 40)" using c tri_room_mono [of "card (dom (ht_map h))" "2 ^ 40"] by simp
    then have n: "hash_size h < 2 ^ 44" using room by simp
    obtain m where m: "ht_grown (2 * hash_size h) = 2 * m" "pow2 m" "2 * hash_size h \<le> m" "m \<le> 16 + 4 * hash_size h"
      by (rule ht_grown_bounds [OF sD(2)]) (use n in simp)
    have "\<exists>j h'. ht_retry f E h key (2 * m) = Inr (Some (2 * j + 1), h') \<and> reserved h key j h'"
      by (rule retry_ok [OF E ok good c m(2) _ _ key]) (use m n pow2_pos [OF m(2)] in simp_all)
    then show ?thesis using grow(1) [of f] f m(1) sD(1) by simp
  next
    case clean
    have "\<exists>j h'. ht_retry f E h key (2 * hash_size h) = Inr (Some (2 * j + 1), h') \<and> reserved h key j h'"
      by (rule retry_ok [OF E ok good c sD(2,3) order_refl key]) (rule pow2_pos [OF sD(2)])
    then show ?thesis using clean(1) [of f] f sD(1) by simp
  qed
qed

section \<open>The operations on the map\<close>

lemma ptrhash_put_ok:
  assumes "\<And>b. alloc_ok E b" "ht_ok h" "card (dom (ht_map h)) < 2 ^ 40" "key \<noteq> HT_NOTFOUND" "val \<noteq> HT_NOTFOUND" "50 \<le> fuel"
  shows "\<exists>h'. ptrhash_put fuel E h key val = Inr h' \<and> ht_ok h' \<and> ht_map h' = (ht_map h)(key \<mapsto> val)"
proof -
  obtain j h1 where l: "lookup_bp fuel E h key = Inr (Some (2 * j + 1), h1)" "reserved h key j h1"
    using lookup_bp_ok [OF assms(1-4,6)] by blast
  obtain h' where "ht_store val (Some (2 * j + 1), h1) = Inr h'" "ht_ok h'" "ht_map h' = (ht_map h)(key \<mapsto> val)"
    using store_reserved [OF l(2) assms(4,5)] by blast
  then show ?thesis using l(1) by (simp add: ptrhash_put_def)
qed

text \<open>A reserved cell that held a value already is left alone by \<open>adjoin\<close>.\<close>

lemma ptrhash_adjoin_ok:
  assumes "\<And>b. alloc_ok E b" "ht_ok h" "card (dom (ht_map h)) < 2 ^ 40" "key \<noteq> HT_NOTFOUND" "val \<noteq> HT_NOTFOUND" "50 \<le> fuel"
  shows "\<exists>h'. ptrhash_adjoin fuel E h key val = Inr h' \<and> ht_ok h' \<and>
     ht_map h' = (case ht_map h key of None \<Rightarrow> (ht_map h)(key \<mapsto> val) | Some _ \<Rightarrow> ht_map h)"
proof -
  obtain j h1 where l: "lookup_bp fuel E h key = Inr (Some (2 * j + 1), h1)" "reserved h key j h1"
    using lookup_bp_ok [OF assms(1-4,6)] by blast
  then have s: "ht_struct h1" and j: "j < hash_size h1" "fst (ht_cells h1 ! j) = key" and m: "ht_map h1 = ht_map h"
    by (simp_all add: reserved_def)
  note v = ht_rget_pair(2) [OF s j(1)]
  show ?thesis
  proof (cases "ht_dead (ht_cells h1 ! j)")
    case True
    have "ht_map h1 key = None"
    proof (rule ccontr)
      assume "ht_map h1 key \<noteq> None"
      then obtain i w where i: "i < hash_size h1" "ht_cells h1 ! i = (key, w)" "w \<noteq> HT_NOTFOUND"
        using ht_map_iff [OF s, of key] by blast
      then have "i = j" using ht_structD(6) [OF s i(1) j(1)] j(2) assms(4) by simp
      then show False using True i by simp
    qed
    moreover obtain h' where "ht_store val (Some (2 * j + 1), h1) = Inr h'" "ht_ok h'" "ht_map h' = (ht_map h)(key \<mapsto> val)"
      using store_reserved [OF l(2) assms(4,5)] by blast
    ultimately show ?thesis using l(1) v True m by (simp add: ptrhash_adjoin_def)
  next
    case False
    have "ht_map h1 key = Some (snd (ht_cells h1 ! j))"
      unfolding ht_map_iff [OF s] using j False by (intro exI [of _ j]) (simp add: prod_eq_iff)
    moreover have "ht_ok h1" using l(2) False by (simp add: reserved_def ht_ok_def)
    ultimately show ?thesis using l(1) v False m by (simp add: ptrhash_adjoin_def)
  qed
qed

lemma peek_bp_ok:
  assumes s: "ht_struct h" and key: "key \<noteq> HT_NOTFOUND"
  obtains (hit) j where "peek_bp h key = Inr (Some (2 * j + 1))" "j < hash_size h" "fst (ht_cells h ! j) = key"
      "ht_map h key = (if ht_dead (ht_cells h ! j) then None else Some (snd (ht_cells h ! j)))"
  | (miss) "peek_bp h key = Inr None" "ht_map h key = None"
proof -
  have eq: "peek_bp h key = Inr (map_option (\<lambda>j. 2 * j + 1) (scan ht_vacant (\<lambda>c. key = fst c) (ht_cells h) (tri_path (hash_size h) (ptrhash_hash key))))"
    unfolding peek_bp_def Let_def tri_path_def mult.commute [of _ 2]
    by (rule peek_bp_probe_scan [OF s refl mask_index_lt [OF ht_structD(2) [OF s]]])
  show thesis using s key
  proof (cases rule: ht_search)
    case hit': (hit j)
    have "ht_map h key = Some w \<longleftrightarrow> \<not> ht_dead (ht_cells h ! j) \<and> w = snd (ht_cells h ! j)" for w
    proof
      assume "ht_map h key = Some w"
      then obtain i where i: "i < hash_size h" "ht_cells h ! i = (key, w)" "w \<noteq> HT_NOTFOUND" by (auto simp: ht_map_iff [OF s])
      then have "i = j" using ht_structD(6) [OF s i(1) hit'(2)] hit'(3) key by simp
      then show "\<not> ht_dead (ht_cells h ! j) \<and> w = snd (ht_cells h ! j)" using i by simp
    next
      assume "\<not> ht_dead (ht_cells h ! j) \<and> w = snd (ht_cells h ! j)"
      then show "ht_map h key = Some w" unfolding ht_map_iff [OF s] using hit' by (intro exI [of _ j]) (simp add: prod_eq_iff)
    qed
    then have "ht_map h key = (if ht_dead (ht_cells h ! j) then None else Some (snd (ht_cells h ! j)))"
      by (cases "ht_map h key") auto
    then show thesis using hit [of j] eq hit' by simp
  next
    case miss': miss
    have "ht_map h key = None"
    proof (rule ccontr)
      assume "ht_map h key \<noteq> None"
      then obtain i w where "i < hash_size h" "ht_cells h ! i = (key, w)" using ht_map_iff [OF s, of key] by blast
      then show False using miss'(2) [of i] by simp
    qed
    then show thesis using miss eq miss'(1) by simp
  qed
qed

lemma ptrhash_get_ok:
  assumes "ht_ok h" "key \<noteq> HT_NOTFOUND"
  shows "ptrhash_get h key = Inr (case ht_map h key of None \<Rightarrow> HT_NOTFOUND | Some v \<Rightarrow> v)"
proof -
  have s: "ht_struct h" using assms(1) by (simp add: ht_ok_def)
  show ?thesis using s assms(2)
  proof (cases rule: peek_bp_ok)
    case (hit j)
    then show ?thesis using ht_rget_pair(2) [OF s hit(2)] by (simp add: ptrhash_get_def)
  qed (simp add: ptrhash_get_def)
qed

lemma ptrhash_has_ok:
  assumes "ht_ok h" "key \<noteq> HT_NOTFOUND"
  shows "ptrhash_has h key = Inr (key \<in> dom (ht_map h))"
proof -
  have "ht_map h key \<noteq> Some HT_NOTFOUND" using assms(1) ht_map_iff by (auto simp: ht_ok_def)
  then show ?thesis using ptrhash_get_ok [OF assms] by (auto simp: ptrhash_has_def split: option.splits)
qed

lemma ptrhash_remove_ok:
  assumes ok: "ht_ok h" and key: "key \<noteq> HT_NOTFOUND"
  shows "\<exists>h'. ptrhash_remove h key = Inr (key \<in> dom (ht_map h), h') \<and> ht_ok h' \<and> ht_map h' = (ht_map h)(key := None)"
proof -
  have s: "ht_struct h" using ok by (simp add: ht_ok_def)
  note sD = ht_structD [OF s]
  show ?thesis using s key
  proof (cases rule: peek_bp_ok)
    case (hit j)
    note v = ht_rget_pair(2) [OF s hit(2)]
    show ?thesis
    proof (cases "ht_dead (ht_cells h ! j)")
      case True
      then show ?thesis using hit v ok by (auto simp: ptrhash_remove_def fun_upd_idem)
    next
      case False
      define h' where "h' = h\<lparr>ht_table := set_pair (ht_table h) j key HT_NOTFOUND, ht_live := ht_live h - 1\<rparr>"
      have tab: "(ht_table h)[Suc (2 * j) := HT_NOTFOUND] = set_pair (ht_table h) j key HT_NOTFOUND"
        using set_pair_value [of "ht_table h" j HT_NOTFOUND] sD(1) hit(2,3) by (simp add: hash_size_dict)
      have rm: "ptrhash_remove h key = Inr (True, h')"
        using hit(1,2) v False sD(1) tab by (simp add: ptrhash_remove_def h'_def)
      have u: "\<And>i. i < hash_size h \<Longrightarrow> fst (ht_cells h ! i) = key \<Longrightarrow> i = j"
        using sD(6) hit(2,3) key by metis
      have rc: "reach ht_vacant (ht_cells h) (tri_path (hash_size h) (ptrhash_hash key)) j"
        using sD(5) hit(2,3) key by (simp add: placed_def ht_key_hash_def hash_size_dict)
      have s': "ht_struct h'"
        by (rule ht_struct_update [OF s hit(2) key rc u, where v = HT_NOTFOUND]) (use hit(3) key in \<open>simp_all add: h'_def\<close>)
      have tb: "ht_table h' = set_pair (ht_table h) j key HT_NOTFOUND" by (simp add: h'_def)
      note m = ht_map_update [OF s s' hit(2) tb disjI2 [OF hit(3)] u]
      have "live_cells h' + 1 = live_cells h" using m(2) False by simp
      then have "ht_ok h'" using s' ok by (simp add: ht_ok_def h'_def live_cells_def)
      then show ?thesis using rm m(1) hit(4) False by auto
    qed
  next
    case miss
    then show ?thesis using ok by (auto simp: ptrhash_remove_def fun_upd_idem)
  qed
qed

section \<open>Creation and reset\<close>

lemma htable_new_ok:
  assumes E: "\<And>b. alloc_ok E b" and sz: "unat sz \<le> 2 ^ 31"
  shows "\<exists>h. htable_new E sz = Some h \<and> ht_ok h \<and> ht_map h = Map.empty"
proof (cases "sz \<le> 16")
  case True
  have "pow2 16" unfolding pow2_def by (intro exI [of _ 4]) simp
  then show ?thesis using True ht_fresh [of 16 _ True, OF _ _ refl] by (simp add: htable_new_def HT_N_INLINE_def)
next
  case False
  have u: "unat (ucast sz :: u32) = unat sz" using sz by (intro unat_ucast_small) simp
  obtain k where k: "unat (next_power_of_two (ucast sz)) = 2 ^ k" "k \<le> 31"
  proof (rule next_power_of_two_least [of "ucast sz"])
    show "0 < (ucast sz :: u32)" using False u by (simp add: word_less_nat_alt word_le_nat_alt)
    show "unat (ucast sz :: u32) \<le> 2 ^ 31" using sz u by simp
  qed
  define m :: nat where "m = 2 ^ Suc k"
  have "pow2 m" unfolding m_def pow2_def using k(2) by (intro exI [of _ "Suc k"]) simp
  moreover have "m \<le> 2 ^ 32" unfolding m_def using k(2) by (intro power_increasing) simp_all
  ultimately have m: "pow2 m" "m \<le> 2 ^ 32" by simp_all
  let ?s = "ucast (next_power_of_two (ucast sz)) * 2 * 2 :: u64"
  have un: "unat (ucast (next_power_of_two (ucast sz)) :: u64) = 2 ^ k"
    using k by (subst unat_ucast_small) (use m in \<open>auto simp: m_def\<close>)
  have "unat ?s = 2 * m" "unat (?s * 8) = 2 * m * 8" using m(2) un by (simp_all add: unat_word_ariths m_def)
  then have "htable_new E sz = Some \<lparr>ht_table = replicate (2 * m) HT_NOTFOUND, ht_count = 0, ht_live = 0, ht_inline = False\<rparr>"
    using False E by (simp add: htable_new_def HT_N_INLINE_def Let_def alloc_cells_def map_replicate_const)
  then show ?thesis using ht_fresh [OF m(1) _ refl, of False] m(2) by auto
qed

lemma htable_reset_ok:
  assumes E: "\<And>b. alloc_ok E b" and ok: "ht_ok h" and sz: "unat sz \<le> 2 ^ 31"
  shows "ht_ok (htable_reset E h sz)" "ht_map (htable_reset E h sz) = Map.empty"
proof -
  let ?n = "ucast (next_power_of_two (ucast sz)) :: u64"
  have n: "unat ?n \<le> 2 ^ 31"
  proof (cases "sz = 0")
    case True
    then show ?thesis by (simp add: next_power_of_two_def)
  next
    case False
    have u: "unat (ucast sz :: u32) = unat sz" using sz by (intro unat_ucast_small) simp
    moreover have "0 < (ucast sz :: u32)" using False u by (simp add: word_less_nat_alt word_unat_eq_iff)
    ultimately obtain k where k: "unat (next_power_of_two (ucast sz)) = 2 ^ k" "k \<le> 31"
      using next_power_of_two_least [of "ucast sz"] sz by metis
    then have "(2 :: nat) ^ k \<le> 2 ^ 31" by (intro power_increasing) simp_all
    then show ?thesis using k by (subst unat_ucast_small) simp_all
  qed
  obtain h1 where h1: "htable_new E ?n = Some h1" "ht_ok h1" "ht_map h1 = Map.empty"
    using htable_new_ok [OF E n] by blast
  have s: "ht_struct h" using ok by (simp add: ht_ok_def)
  define h2 where "h2 = h\<lparr>ht_table := map (\<lambda>_. HT_NOTFOUND) (ht_table h), ht_count := 0, ht_live := 0\<rparr>"
  have "h2 = \<lparr>ht_table = replicate (2 * hash_size h) HT_NOTFOUND, ht_count = 0, ht_live = 0, ht_inline = ht_inline h\<rparr>"
    using ht_structD(1) [OF s] by (simp add: h2_def map_replicate_const)
  then have "ht_ok h2" "ht_map h2 = Map.empty"
    using ht_fresh [OF ht_structD(2,3) [OF s], of h2 "ht_inline h"] by simp_all
  moreover have "htable_reset E h sz = (if length (ht_table h) > unat (?n * 4) \<and> length (ht_table h) > HT_N_INLINE then h1 else h2)"
    using h1(1) by (simp add: htable_reset_def Let_def h2_def)
  ultimately show "ht_ok (htable_reset E h sz)" "ht_map (htable_reset E h sz) = Map.empty" using h1 by simp_all
qed

text \<open>The size hint goes through \<open>unsigned int\<close>: above \<open>2 ^ 31\<close> the table comes out empty, and the mask of
  the next look-up leaves it.\<close>

lemma htable_new_truncates:
  "alloc_ok E 0 \<Longrightarrow> htable_new E (2 ^ 31 + 1) = Some \<lparr>ht_table = [], ht_count = 0, ht_live = 0, ht_inline = False\<rparr>"
  "peek_bp \<lparr>ht_table = [], ht_count = 0, ht_live = 0, ht_inline = False\<rparr> 0x10 = Inl OutOfBounds"
  by (simp_all add: htable_new_def HT_N_INLINE_def next_power_of_two_def alloc_cells_def Let_def peek_bp_def
      peek_bp_probe.simps rget_def)

section \<open>The interface of a map\<close>

definition table_remove :: "htable \<Rightarrow> ptr \<Rightarrow> htable result" where
  "table_remove h key = rbind (ptrhash_remove h key) (\<lambda>(_, h). Inr h)"

lemma op_map_eq: "op_map (=) (Put k v) m = m(k \<mapsto> v)" "op_map (=) (Remove k) m = m(k := None)"
  by auto

lemma table_map_ptrhash:
  assumes E: "\<And>b. alloc_ok E b" and fuel: "50 \<le> fuel"
  shows "table_map (=) (\<lambda>k. k \<noteq> HT_NOTFOUND) (\<lambda>v. v \<noteq> HT_NOTFOUND) ht_ok ht_map (\<lambda>h. card (dom (ht_map h))) (2 ^ 40)
    (ptrhash_put fuel E) table_remove"
proof
  fix h :: htable and k v
  assume h: "ht_ok h"
  then have fin: "finite (dom (ht_map h))" using live_card(2) by (simp add: ht_ok_def)
  show "\<exists>s'. ptrhash_put fuel E h k v = Inr s' \<and> ht_ok s' \<and> ht_map s' = op_map (=) (Put k v) (ht_map h) \<and>
      card (dom (ht_map s')) \<le> Suc (card (dom (ht_map h)))"
    if a: "card (dom (ht_map h)) < 2 ^ 40" "k \<noteq> HT_NOTFOUND" "v \<noteq> HT_NOTFOUND"
  proof -
    obtain h' where "ptrhash_put fuel E h k v = Inr h'" "ht_ok h'" "ht_map h' = (ht_map h)(k \<mapsto> v)"
      using ptrhash_put_ok [OF E h a fuel] by blast
    moreover from this have "card (dom (ht_map h')) \<le> Suc (card (dom (ht_map h)))" using fin by (simp add: card_insert_if)
    ultimately show ?thesis unfolding op_map_eq by blast
  qed
  show "\<exists>s'. table_remove h k = Inr s' \<and> ht_ok s' \<and> ht_map s' = op_map (=) (Remove k) (ht_map h) \<and>
      card (dom (ht_map s')) \<le> card (dom (ht_map h))"
    if a: "k \<noteq> HT_NOTFOUND"
  proof -
    obtain b h' where "ptrhash_remove h k = Inr (b, h')" "ht_ok h'" "ht_map h' = (ht_map h)(k := None)"
      using ptrhash_remove_ok [OF h a] by blast
    moreover from this have "card (dom (ht_map h')) \<le> card (dom (ht_map h))" using fin by (simp add: card_Diff1_le)
    ultimately show ?thesis unfolding op_map_eq by (simp add: table_remove_def)
  qed
qed

interpretation pointer_table: table_map "(=)" "\<lambda>k. k \<noteq> HT_NOTFOUND" "\<lambda>v. v \<noteq> HT_NOTFOUND" ht_ok ht_map
  "\<lambda>h. card (dom (ht_map h))" "2 ^ 40" "ptrhash_put 50 roomy" table_remove
  by (rule table_map_ptrhash) (simp_all add: roomy_def)

section \<open>Properties\<close>

text \<open>
  C39: A pointer hash table implements a map: after \<open>htable_new\<close> with any size hint up to \<open>2 ^ 31\<close>, every
  sequence of at most \<open>2 ^ 40\<close> insertions and removals ends (a recursion depth of 50 suffices),
  stays within the table, keeps both counters exact, and \<open>get\<close> and \<open>has\<close> then answer what the
  abstract map holds.
\<close>

theorem ptrhash_refines_map:
  assumes "\<And>b. alloc_ok E b" "50 \<le> fuel" "unat sz \<le> 2 ^ 31"
    and "length ops \<le> 2 ^ 40" "list_all (op_ok (\<lambda>k. k \<noteq> HT_NOTFOUND) (\<lambda>v. v \<noteq> HT_NOTFOUND)) ops"
  shows "\<exists>h0 h. htable_new E sz = Some h0 \<and> run_table (ptrhash_put fuel E) table_remove ops h0 = Inr h \<and> ht_ok h \<and>
    (\<forall>key. key \<noteq> HT_NOTFOUND \<longrightarrow>
       ptrhash_get h key = Inr (case run_map (=) ops Map.empty key of None \<Rightarrow> HT_NOTFOUND | Some v \<Rightarrow> v) \<and>
       ptrhash_has h key = Inr (key \<in> dom (run_map (=) ops Map.empty)))"
proof -
  obtain h0 where h0: "htable_new E sz = Some h0" "ht_ok h0" "ht_map h0 = Map.empty"
    using htable_new_ok [OF assms(1,3)] by blast
  have "\<exists>h. run_table (ptrhash_put fuel E) table_remove ops h0 = Inr h \<and> ht_ok h \<and> ht_map h = run_map (=) ops (ht_map h0)"
    by (rule table_map.run_refines [OF table_map_ptrhash [OF assms(1,2)]]) (use assms(4,5) h0 in auto)
  then show ?thesis
    using h0 ptrhash_get_ok ptrhash_has_ok by (metis (no_types, lifting))
qed

definition sample_ops :: "(ptr, ptr) map_op list" where
  "sample_ops = [Put 0x40 7, Put 0x50 8, Remove 0x40, Put 0x50 9]"

theorem ptrhash_refines_map_witness:
  "\<exists>h0 h. htable_new roomy 100 = Some h0 \<and> run_table (ptrhash_put 50 roomy) table_remove sample_ops h0 = Inr h \<and>
     ptrhash_get h 0x50 = Inr 9 \<and> ptrhash_has h 0x40 = Inr False"
proof -
  have ok: "list_all (op_ok (\<lambda>k. k \<noteq> HT_NOTFOUND) (\<lambda>v. v \<noteq> HT_NOTFOUND)) sample_ops" "length sample_ops \<le> 2 ^ 40"
    by (simp_all add: sample_ops_def HT_NOTFOUND_def)
  have r: "run_map (=) sample_ops Map.empty 0x50 = Some 9" "run_map (=) sample_ops Map.empty 0x40 = None"
    by (simp_all add: sample_ops_def run_map_def)
  have E: "alloc_ok roomy b" for b by (simp add: roomy_def)
  have k: "(0x50 :: ptr) \<noteq> HT_NOTFOUND" "(0x40 :: ptr) \<noteq> HT_NOTFOUND" by (simp_all add: HT_NOTFOUND_def)
  obtain h0 h where "htable_new roomy 100 = Some h0" "run_table (ptrhash_put 50 roomy) table_remove sample_ops h0 = Inr h"
      "\<forall>key. key \<noteq> HT_NOTFOUND \<longrightarrow>
         ptrhash_get h key = Inr (case run_map (=) sample_ops Map.empty key of None \<Rightarrow> HT_NOTFOUND | Some v \<Rightarrow> v) \<and>
         ptrhash_has h key = Inr (key \<in> dom (run_map (=) sample_ops Map.empty))"
    using ptrhash_refines_map [OF E _ _ ok(2,1), of 50 100] by auto
  then show ?thesis using r k by (auto simp: domIff)
qed

text \<open>
  C40: \<open>ptrhash_adjoin\<close> adds a value only where the key has none, \<open>ptrhash_remove\<close> reports whether the key was
  present and removes exactly it, and \<open>htable_reset\<close> empties the table; all keep it well formed.
\<close>

theorem ptrhash_adjoin_remove_reset:
  assumes E: "\<And>b. alloc_ok E b" and h: "ht_ok h" "card (dom (ht_map h)) < 2 ^ 40"
    and key: "key \<noteq> HT_NOTFOUND" and val: "val \<noteq> HT_NOTFOUND" and fuel: "50 \<le> fuel" and sz: "unat sz \<le> 2 ^ 31"
  shows "(\<exists>h'. ptrhash_adjoin fuel E h key val = Inr h' \<and> ht_ok h' \<and>
       ht_map h' = (case ht_map h key of None \<Rightarrow> (ht_map h)(key \<mapsto> val) | Some _ \<Rightarrow> ht_map h)) \<and>
     (\<exists>h'. ptrhash_remove h key = Inr (key \<in> dom (ht_map h), h') \<and> ht_ok h' \<and> ht_map h' = (ht_map h)(key := None)) \<and>
     ht_ok (htable_reset E h sz) \<and> ht_map (htable_reset E h sz) = Map.empty"
  using ptrhash_adjoin_ok [OF E h key val fuel] ptrhash_remove_ok [OF h(1) key] htable_reset_ok [OF E h(1) sz] by blast

theorem ptrhash_adjoin_remove_reset_witness:
  "\<exists>h. htable_new roomy 0 = Some h \<and>
     (\<exists>h'. ptrhash_adjoin 50 roomy h 0x40 7 = Inr h' \<and> ht_ok h' \<and> ht_map h' = [0x40 \<mapsto> 7]) \<and>
     (\<exists>h'. ptrhash_remove h 0x40 = Inr (False, h')) \<and> ht_map (htable_reset roomy h 64) = Map.empty"
proof -
  obtain h where h: "htable_new roomy 0 = Some h" "ht_ok h" "ht_map h = Map.empty"
    using htable_new_ok [of roomy 0] by (auto simp: roomy_def)
  show ?thesis
    using h ptrhash_adjoin_remove_reset [of roomy h "0x40" 7 50 64] by (simp add: roomy_def HT_NOTFOUND_def) blast
qed

end
