(* ===== verification/Spec2Isabelle.thy ===== *)
theory Spec2Isabelle
  imports ArrayList Rle Eytzinger APInt Utf8 IdDict Engine Mutex IosFile SymbolThreads HTableMap
begin

text \<open>
  A verification library for the C runtime of the repository (paths below are under
  \<open>src/src/\<close>).  The program is a language runtime: its C core holds small support libraries
  (growable arrays, hash tables, streams, UTF-8), the arithmetic of integers of any width, the
  identity-keyed containers of the language, the locks and the leases that coordinate its
  threads, and, above them, the type system, method tables, garbage collector and compiler.
  The library models the support and container layer and the thread coordination, which the
  rest calls, at the level of machine words, buffer bounds and interleavings.

  \<^bold>\<open>Conventions.\<close>  Definitions keep the names of the C functions (a leading underscore is
  dropped).  A C function is a HOL function from the state it reads to its result and the
  state it leaves; one that can fail returns \<open>'a result\<close>, whose left side says how: it does not
  return, leaves the bounds of a buffer, fails an assertion, or throws.  So a theorem that a
  call equals \<open>Inr ...\<close> also says that the call ends, stays in bounds and passes its
  assertions.  Words are \<open>w word\<close> where wrap-around matters and natural numbers where a bound is
  stated instead.  \<open>malloc\<close>, object identity and hashes, UTF-8 character widths and the
  operating system are parameters; each property states what it needs of them, and its
  witness instantiates them.  Every loop is a total function, or a partial one whose
  termination is part of the property that rests on it.

  \<^bold>\<open>Theories, in the order of the imports.\<close>

  \<^item> \<open>Prelude\<close>: machine types, results, checked array accesses, the allocator, the locale of
    growable stacks, lemmas on words.

  \<^item> \<open>ArrayList\<close> (\<open>support/arraylist.c\<close>): \<open>arraylist_t\<close> and \<open>small_arraylist_t\<close> with their inline and
    heap storage.  They are bounded stacks (an interpretation of the locale) while the
    allocator succeeds; what a push does when it fails is a property of its own.

  \<^item> \<open>Rle\<close> (\<open>support/rle.c\<close>): run-length encoded keys; references count earlier items of the same
    key, translate back, and iteration visits all items.

  \<^item> \<open>Eytzinger\<close> (\<open>support/eytzinger.c\<close>): the implicit search tree over address ranges; a look-up
    finds exactly the registered range that holds an address.

  \<^item> \<open>APInt_Words\<close>, \<open>APInt_Shift\<close>, \<open>APInt\<close> (\<open>APInt.c\<close>): integers of \<open>n\<close> bits as arrays of 64-bit
    limbs: carry chains, multiply-accumulate (with and without 128-bit products), shifts,
    division, then the exported operations with their overflow flags, against the integers
    modulo \<open>2 ^ n\<close>.

  \<^item> \<open>Utf8\<close> (\<open>support/utf8.c\<close>): encoding, decoding, navigation, escaping, search and validation.

  \<^item> \<open>Probing\<close>, \<open>GenericMemory\<close> (\<open>genericmemory.c\<close>), \<open>SmallIntSet\<close> (\<open>smallintset.c\<close>), \<open>Dtypes\<close>
    (\<open>support/dtypes.h\<close>), \<open>IdSet\<close> (\<open>idset.c\<close>, and its callers in \<open>staticdata.c\<close> and \<open>aotcompile.cpp\<close>),
    \<open>MapSpec\<close>, \<open>IdDict\<close> (\<open>iddict.c\<close>): open-addressing containers.  The locale of probe sequences
    gives the common argument (a stored key lies on its probe path before any empty slot);
    sets of integers of the narrowest width that fits index the key memory of identity
    sets; identity dictionaries refine a map under every sequence of operations.  The
    recursion of dictionary growth is run with fuel 50: each level at least doubles the
    table, and tables below \<open>2 ^ 50\<close> slots are enough for every memory that can be allocated.

  \<^item> \<open>HTable\<close>, \<open>HTableMap\<close> (\<open>support/htable.inc\<close>, \<open>support/htable.c\<close>, \<open>support/ptrhash.c\<close>): pointer hash tables with
    triangular probing, the second instance of the probe sequences and of the map interface.
    The fuel of 50 is enough for the same reason as for dictionaries: after at most one
    clean-up at the same size every level doubles the table.

  \<^item> \<open>Engine\<close> (\<open>engine.c\<close>): leases on inference.  One call of \<open>jl_engine_reserve\<close> is cut at its wait
    on the condition variable; everything else happens under one lock and is a step.  The
    invariant is that the wait-for graph has no cycle; from it follow the assertion and the
    termination of the detection loop, and that no reachable state is a deadlock.

  \<^item> \<open>Mutex\<close> (\<open>threading.c\<close>): the recursive parking lock, one step per access to shared state, with
    sequentially consistent accesses.  Mutual exclusion, the recursion count, no lost
    wake-up, and that some task can always go on.

  \<^item> \<open>OsFile\<close>, \<open>Ios\<close>, \<open>IosMem\<close>, \<open>IosFile\<close> (\<open>support/ios.c\<close>): buffered streams over a model of file
    descriptors whose transfers may be short, interrupted or failing.  Memory streams
    refine a byte list with a cursor (the locale \<open>byte_stream\<close>); written file streams deliver
    their data in order whatever the buffering mode.  \<open>ios_write\<close> calls itself at most three
    levels deep and the read loop turns at most \<open>n + 2\<close> times for \<open>n\<close> bytes; the properties show
    that this fuel is never used up.

  \<^item> \<open>Hashing\<close> (\<open>support/hashing.c\<close>, \<open>support/MurmurHash3.c\<close>): the hashes as chains of invertible
    steps on words.  The integer hashes are injective; a change of one aligned block always
    changes the full-width string hash.

  \<^item> \<open>Int2Str\<close> (\<open>support/int2str.c\<close>), \<open>Symbol\<close>, \<open>Gensym\<close>, \<open>SymbolThreads\<close> (\<open>symbol.c\<close>): interned symbols as a
    search tree.  The turns of a search depend on the string and the node only, so each symbol
    lies on the search path of its own name; from this follow that look-ups end, that
    symbols are canonical (the locale \<open>interner\<close>), and that generated symbols differ.  With
    several threads, one step per shared access, the tree refines an atomic map.

  \<^bold>\<open>How the parts interact.\<close>  Lock frames and the engine's list of waiting threads are
  arraylists.  Identity sets are built on the integer sets, and global roots on identity
  sets; dictionaries and identity sets share the probing argument and the memory objects.
  Streams use the UTF-8 routines for characters, symbols the string hash.  The engine's hash tables are the lists of
  their live entries, which is the map that \<open>HTableMap\<close> shows a pointer table to be.

  \<^bold>\<open>Not modelled.\<close>  The type system and dispatch (\<open>subtype.c\<close>, \<open>jltypes.c\<close>, \<open>typemap.c\<close>, \<open>gf.c\<close>), whose
  state is the whole object heap; the garbage collectors; code generation and the compiler
  passes (C++ over LLVM); image serialisation; signal handling, stack switching and
  unwinding (machine context); process and socket I/O through libuv; the FemtoLisp front end;
  vendored code and the Julia-language library.  Weak memory orderings are not modelled
  (the steps are sequentially consistent), nor are Windows branches.

  \<^bold>\<open>What would come next.\<close>  The engine run over the pointer tables themselves; string-keyed tables,
  which own copies of their keys; the rest of \<open>genericmemory.c\<close> and \<open>array.c\<close>, which needs the layouts
  of element types; reading from file streams.
\<close>

end
